(* ===== verification/Prelude.thy ===== *)
theory Prelude
  imports Main "HOL-Library.Char_ord" "HOL-Library.List_Lexorder" "HOL-Library.Word"
begin

text \<open>
  Shared vocabulary of the Freestore development.

  \<^item> Go's \<^verbatim>\<open>int\<close> is a 64-bit two's complement integer. Counters that start at zero and
    count received messages or elements of a map are natural numbers here; timestamps and
    proposal numbers, which arrive from other processes and are incremented, are integers
    whose increments wrap explicitly through \<open>go_int\<close>.
  \<^item> Go's \<^verbatim>\<open>map[K]bool\<close>, which this program only ever fills with \<^verbatim>\<open>true\<close>, is the finite set of
    its keys. A \<^verbatim>\<open>for range\<close> over such a map visits the keys in an unspecified order: the
    definitions use \<open>range_keys\<close> (one enumeration), every loop body is a function of
    the list of keys, and where the result matters the components prove that any other
    enumeration gives the same one.
  \<^item> Code that may end the process with \<^verbatim>\<open>log.Fatal\<close> or a panic returns an \<open>outcome\<close>.
  \<^item> The generic counting argument behind every quorum is the locale \<open>quorum_system\<close>.
\<close>

named_theorems go_simps \<open>evaluation rules for the model of the Go runtime\<close>

section \<open>Outcomes\<close>

datatype 'a outcome = Fatal string | Returns 'a

section \<open>Integers of the Go runtime\<close>

definition go_int :: "int \<Rightarrow> int" where
  "go_int n = (n + 2 ^ 63) mod 2 ^ 64 - 2 ^ 63"

abbreviation max_int64 :: int where
  "max_int64 \<equiv> 2 ^ 63 - 1"

lemma go_int_range: "- (2 ^ 63) \<le> go_int n \<and> go_int n \<le> max_int64"
proof -
  have "0 \<le> (n + 2 ^ 63) mod 2 ^ 64" and "(n + 2 ^ 63) mod 2 ^ 64 < (2 ^ 64 :: int)"
    by simp_all
  then show ?thesis by (simp add: go_int_def)
qed

lemma go_int_id [go_simps]:
  assumes "- (2 ^ 63) \<le> n" and "n \<le> max_int64"
  shows "go_int n = n"
proof -
  have "(n + 2 ^ 63) mod 2 ^ 64 = n + 2 ^ 63"
    using assms by (intro mod_pos_pos_trivial) simp_all
  then show ?thesis by (simp add: go_int_def)
qed

lemma go_int_succ_wraps: "go_int (max_int64 + 1) = - (2 ^ 63)"
  by (simp add: go_int_def)

section \<open>Iteration over maps\<close>

definition range_keys :: "'k::linorder set \<Rightarrow> 'k list" where
  "range_keys m = sorted_list_of_set m"

lemma set_range_keys [simp]: "finite m \<Longrightarrow> set (range_keys m) = m"
  by (simp add: range_keys_def)

lemma distinct_range_keys [simp]: "distinct (range_keys m)"
  by (simp add: range_keys_def)

lemma length_range_keys [simp]: "length (range_keys m) = card m"
  by (simp add: range_keys_def)

lemma range_keys_sorted: "sorted xs \<Longrightarrow> distinct xs \<Longrightarrow> range_keys (set xs) = xs"
  by (simp add: range_keys_def sorted_list_of_set.idem_if_sorted_distinct)

lemma range_keys_empty [simp]: "range_keys {} = []"
  by (simp add: range_keys_def)

section \<open>Lists\<close>

lemma sorted_distinct_unique:
  assumes "set xs = set ys" "distinct xs" "distinct ys"
  shows "sort xs = sort (ys :: 'a::linorder list)"
  using assms by (metis distinct_sort set_sort sorted_distinct_set_unique sorted_sort)

lemma length_filter_partition:
  "length (filter P xs) + length (filter (\<lambda>x. \<not> P x) xs) = length xs"
  by (induction xs) auto

lemma card_image_distinct_map:
  "distinct (map f xs) \<Longrightarrow> card (f ` set xs) = length xs"
  by (metis distinct_card length_map set_map)

section \<open>Majorities\<close>

lemma majorities_meet:
  assumes "finite M" "A \<subseteq> M" "B \<subseteq> M" "card M < card A + card B"
  obtains p where "p \<in> A" "p \<in> B"
proof -
  have "A \<inter> B \<noteq> {}"
  proof
    assume "A \<inter> B = {}"
    moreover have "finite A" "finite B" using assms by (auto intro: finite_subset)
    ultimately have "card (A \<union> B) = card A + card B" by (simp add: card_Un_disjoint)
    moreover have "card (A \<union> B) \<le> card M" using assms by (intro card_mono) auto
    ultimately show False using assms(4) by simp
  qed
  with that show thesis by blast
qed

text \<open>
  The interface between views and the protocols that use them: a view offers a set of
  members and a quorum size, and promises that the size is a majority that the members can
  supply. The clients of the interface rely on nothing else.
\<close>

locale quorum_system =
  fixes members :: "'v \<Rightarrow> 'p set"
    and qsize :: "'v \<Rightarrow> nat"
    and ok :: "'v \<Rightarrow> bool"
  assumes fin: "ok v \<Longrightarrow> finite (members v)"
    and majority: "ok v \<Longrightarrow> card (members v) < 2 * qsize v"
    and available: "ok v \<Longrightarrow> members v \<noteq> {} \<Longrightarrow> qsize v \<le> card (members v)"
begin

lemma quorums_meet:
  assumes "ok v" "A \<subseteq> members v" "B \<subseteq> members v" "qsize v \<le> card A" "qsize v \<le> card B"
  obtains p where "p \<in> A" "p \<in> B"
proof -
  have "card (members v) < card A + card B"
    using majority [OF assms(1)] assms(4,5) by simp
  then show thesis
    using majorities_meet [OF fin [OF assms(1)] assms(2,3)] that by blast
qed

lemma quorum_nonempty:
  assumes "ok v" "qsize v \<le> card A"
  shows "A \<noteq> {}"
  using assms majority [of v] by auto

lemma quorum_hits_survivors:
  assumes "ok v" "A \<subseteq> members v" "qsize v \<le> card A" "F \<subseteq> members v"
    "card F + qsize v \<le> card (members v)"
  shows "\<exists>p \<in> A. p \<notin> F"
proof (rule ccontr)
  assume "\<not> ?thesis"
  then have "A \<subseteq> F" by blast
  then have "card A \<le> card F"
    using assms fin [of v] by (meson card_mono finite_subset)
  with assms majority [of v] show False by simp
qed

end

end
