(* ===== verification/Sha1.thy ===== *)
theory Sha1
  imports Prelude
begin

text \<open>
  The part of Go's \<^verbatim>\<open>crypto/sha1\<close> that \<^verbatim>\<open>pkg/view/ref.go\<close> uses: \<open>sha1_sum\<close>
  computes the digest of a byte string on 32-bit words, following FIPS 180-4 (padding,
  message schedule, eighty rounds, big-endian output). Digests are lists of twenty bytes.
  Collision freedom is no theorem about SHA-1; where a property needs it, it says so.
\<close>

unbundle bit_operations_syntax

type_synonym byte = "8 word"
type_synonym u32 = "32 word"

definition rotl32 :: "nat \<Rightarrow> u32 \<Rightarrow> u32" where
  "rotl32 n w = push_bit n w OR drop_bit (32 - n) w"

fun be_bytes :: "nat \<Rightarrow> int \<Rightarrow> int list" where
  "be_bytes 0 n = []"
| "be_bytes (Suc k) n = be_bytes k (n div 256) @ [n mod 256]"

definition sha1_pad :: "int list \<Rightarrow> int list" where
  "sha1_pad msg = (let l = length msg in
     msg @ [128] @ replicate ((119 - l mod 64) mod 64) 0 @ be_bytes 8 (8 * int l))"

fun be_words :: "int list \<Rightarrow> u32 list" where
  "be_words (a # b # c # d # xs) = of_int (((a * 256 + b) * 256 + c) * 256 + d) # be_words xs"
| "be_words _ = []"

fun schedule :: "nat \<Rightarrow> u32 list \<Rightarrow> u32 list" where
  "schedule 0 w = w"
| "schedule (Suc k) w = (let n = length w in
     schedule k (w @ [rotl32 1 (w ! (n - 3) XOR w ! (n - 8) XOR w ! (n - 14) XOR w ! (n - 16))]))"

datatype sha1_state = Sha1_State u32 u32 u32 u32 u32

definition round_fk :: "nat \<Rightarrow> u32 \<Rightarrow> u32 \<Rightarrow> u32 \<Rightarrow> u32 \<times> u32" where
  "round_fk i b c d =
    (if i < 20 then ((b AND c) OR (NOT b AND d), 0x5A827999)
     else if i < 40 then (b XOR c XOR d, 0x6ED9EBA1)
     else if i < 60 then ((b AND c) OR (b AND d) OR (c AND d), 0x8F1BBCDC)
     else (b XOR c XOR d, 0xCA62C1D6))"

fun sha1_rounds :: "nat \<Rightarrow> u32 list \<Rightarrow> sha1_state \<Rightarrow> sha1_state" where
  "sha1_rounds i [] s = s"
| "sha1_rounds i (w # ws) (Sha1_State a b c d e) =
     (case round_fk i b c d of (f, k) \<Rightarrow>
       sha1_rounds (i + 1) ws (Sha1_State (rotl32 5 a + f + e + w + k) a (rotl32 30 b) c d))"

definition sha1_block :: "sha1_state \<Rightarrow> u32 list \<Rightarrow> sha1_state" where
  "sha1_block s w = (case s of Sha1_State a b c d e \<Rightarrow>
     (case sha1_rounds 0 (schedule 64 w) s of Sha1_State a' b' c' d' e' \<Rightarrow>
       Sha1_State (a + a') (b + b') (c + c') (d + d') (e + e')))"

fun sha1_blocks :: "nat \<Rightarrow> sha1_state \<Rightarrow> u32 list \<Rightarrow> sha1_state" where
  "sha1_blocks 0 s w = s"
| "sha1_blocks (Suc k) s w = sha1_blocks k (sha1_block s (take 16 w)) (drop 16 w)"

definition word_bytes :: "u32 \<Rightarrow> byte list" where
  "word_bytes w =
     [ucast (drop_bit 24 w), ucast (drop_bit 16 w), ucast (drop_bit 8 w), ucast w]"

definition sha1_sum :: "string \<Rightarrow> byte list" where
  "sha1_sum s = (let p = sha1_pad (map of_char s) in
     case sha1_blocks (length p div 64)
       (Sha1_State 0x67452301 0xEFCDAB89 0x98BADCFE 0x10325476 0xC3D2E1F0) (be_words p) of
     Sha1_State a b c d e \<Rightarrow> concat (map word_bytes [a, b, c, d, e]))"

lemma length_sha1_sum [simp]: "length (sha1_sum s) = 20"
  by (simp add: sha1_sum_def Let_def word_bytes_def split: sha1_state.split)

lemma pad_fill: "(l + (9 + (119 - l mod 64) mod 64)) mod 64 = (0 :: nat)"
proof -
  define q m where "q = l div 64" and "m = l mod 64"
  have l: "l = 64 * q + m" and m: "m < 64" by (simp_all add: q_def m_def)
  show ?thesis
  proof (cases "m \<le> 55")
    case True
    then have "119 - m = 64 + (55 - m)" by simp
    then have "(119 - m) mod 64 = (55 - m) mod 64" by (simp only: mod_add_self1)
    with True l have "l + (9 + (119 - m) mod 64) = 64 * (q + 1)" by simp
    then show ?thesis unfolding m_def by (simp only: mod_mult_self1_is_0)
  next
    case False
    with m have "(119 - m) mod 64 = 119 - m" by simp
    with False l m have "l + (9 + (119 - m) mod 64) = 64 * (q + 2)" by simp
    then show ?thesis unfolding m_def by (simp only: mod_mult_self1_is_0)
  qed
qed

lemma length_be_bytes [simp]: "length (be_bytes k n) = k"
  by (induction k arbitrary: n) auto

lemma length_sha1_pad: "length (sha1_pad msg) mod 64 = 0"
  using pad_fill [of "length msg"] by (simp add: sha1_pad_def Let_def add_ac)

end
