(* ===== verification/Views.thy ===== *)
theory Views
  imports Sha1
begin

text \<open>
  Package \<^verbatim>\<open>pkg/view\<close>: processes, updates, views and view references
  (\<^verbatim>\<open>view.go\<close>, \<^verbatim>\<open>ref.go\<close>).

  A view is a grow-only set of updates (\<open>Entries\<close>) with a cache of the members it
  describes (\<open>Members\<close>) and a digest of its canonical rendering (\<open>VRef\<close>, the embedded
  \<^verbatim>\<open>ViewRef\<close>). \<open>wf_view\<close> is the invariant of the package: both caches agree with the
  entries. The comparisons \<open>LessUpdatedThan\<close>, \<open>MoreUpdatedThan\<close> and \<open>View_Equal\<close> are
  shown to be the inclusion order on entries, quorum sizes to be majorities (an
  interpretation of \<open>quorum_system\<close>), process positions to number the members, and the
  canonical rendering to be decodable.
\<close>

section \<open>Processes and updates\<close>

datatype updateType = Join | Leave

datatype Process = Process (Addr: string)

datatype Update = Update (Type: updateType) (UProcess: Process)

text \<open>The string values of the constants \<^verbatim>\<open>Join\<close> and \<^verbatim>\<open>Leave\<close>.\<close>

fun updateType_string :: "updateType \<Rightarrow> string" where
  "updateType_string Join = ''+''"
| "updateType_string Leave = ''-''"

definition Process_Less :: "Process \<Rightarrow> Process \<Rightarrow> bool" where
  "Process_Less thisProcess otherProcess \<longleftrightarrow> Addr thisProcess < Addr otherProcess"

definition Update_Less :: "Update \<Rightarrow> Update \<Rightarrow> bool" where
  "Update_Less thisUpdate otherUpdate =
     (if updateType_string (Type thisUpdate) < updateType_string (Type otherUpdate) then True
      else if Type thisUpdate = Type otherUpdate
        then Process_Less (UProcess thisUpdate) (UProcess otherUpdate)
      else False)"

lemma Addr_inject [simp]: "Addr p = Addr q \<longleftrightarrow> p = q"
  by (cases p; cases q) simp

text \<open>\<^verbatim>\<open>Process.Less\<close> and \<^verbatim>\<open>Update.Less\<close> are the orders of the library's class.\<close>

instantiation Process :: linorder
begin

definition less_Process :: "Process \<Rightarrow> Process \<Rightarrow> bool" where
  "less_Process p q \<longleftrightarrow> Process_Less p q"

definition less_eq_Process :: "Process \<Rightarrow> Process \<Rightarrow> bool" where
  "less_eq_Process p q \<longleftrightarrow> Process_Less p q \<or> p = q"

instance
  by standard
    (auto simp: less_Process_def less_eq_Process_def Process_Less_def not_less_iff_gr_or_eq)

end

lemma updateType_string_inject [simp]:
  "updateType_string s = updateType_string t \<longleftrightarrow> s = t"
  by (cases s; cases t) simp_all

instantiation Update :: linorder
begin

definition less_Update :: "Update \<Rightarrow> Update \<Rightarrow> bool" where
  "less_Update p q \<longleftrightarrow> Update_Less p q"

definition less_eq_Update :: "Update \<Rightarrow> Update \<Rightarrow> bool" where
  "less_eq_Update p q \<longleftrightarrow> Update_Less p q \<or> p = q"

instance
proof
  fix x y z :: Update
  show "x < y \<longleftrightarrow> x \<le> y \<and> \<not> y \<le> x"
    by (auto simp: less_Update_def less_eq_Update_def Update_Less_def Process_Less_def
        split: if_splits)
  show "x \<le> x" by (simp add: less_eq_Update_def)
  show "x \<le> y \<Longrightarrow> y \<le> z \<Longrightarrow> x \<le> z"
    by (auto simp: less_eq_Update_def Update_Less_def Process_Less_def split: if_splits)
  show "x \<le> y \<Longrightarrow> y \<le> x \<Longrightarrow> x = y"
    by (auto simp: less_eq_Update_def Update_Less_def Process_Less_def split: if_splits)
  show "x \<le> y \<or> y \<le> x"
    by (cases x; cases y)
      (auto simp: less_eq_Update_def Update_Less_def Process_Less_def
        intro: Process.expand dest: not_less_iff_gr_or_eq [THEN iffD1])
qed

end

section \<open>View references\<close>

datatype ViewRef = ViewRef (Digest: "byte list")

definition hex_digit :: "nat \<Rightarrow> char" where
  "hex_digit n = ''0123456789abcdef'' ! (n mod 16)"

definition ViewRef_String :: "ViewRef \<Rightarrow> string" where
  "ViewRef_String vr =
     concat (map (\<lambda>b. [hex_digit (unat b div 16), hex_digit (unat b)]) (Digest vr))"

record View =
  Entries :: "Update set"
  Members :: "Process set"
  VRef :: ViewRef

text \<open>Go's \<^verbatim>\<open>%v\<close> renders the struct \<^verbatim>\<open>Update\<close> as its two fields in braces.\<close>

definition Update_fmt :: "Update \<Rightarrow> string" where
  "Update_fmt u =
     ''{'' @ updateType_string (Type u) @ '' '' @ ''{'' @ Addr (UProcess u) @ ''}'' @ ''}''"

text \<open>
  The order of the updates is that of a range over a map, which Go leaves open; the model
  takes one enumeration. What uses it is shown to be the same for every other one: for the
  reference this is \<open>canonical_string_order\<close>, which rests on the sort of \<^verbatim>\<open>ref.go\<close>.
\<close>

definition GetUpdates :: "View \<Rightarrow> Update list" where
  "GetUpdates v = range_keys (Entries v)"

definition canonical_string :: "Update list \<Rightarrow> string" where
  "canonical_string updates = concat (map Update_fmt (sort updates))"

definition ViewToViewRef :: "View \<Rightarrow> ViewRef" where
  "ViewToViewRef v = ViewRef (sha1_sum (canonical_string (GetUpdates v)))"

section \<open>Construction\<close>

definition newView :: View where
  "newView = \<lparr>Entries = {}, Members = {}, VRef = ViewRef (replicate 20 0)\<rparr>"

definition addUpdate_step :: "Update \<Rightarrow> View \<Rightarrow> View" where
  "addUpdate_step newUpdate v =
     (let v1 = v\<lparr>Entries := insert newUpdate (Entries v)\<rparr> in
      case Type newUpdate of
        Join \<Rightarrow>
          if Update Leave (UProcess newUpdate) \<notin> Entries v1
          then v1\<lparr>Members := insert (UProcess newUpdate) (Members v1)\<rparr> else v1
      | Leave \<Rightarrow> v1\<lparr>Members := Members v1 - {UProcess newUpdate}\<rparr>)"

definition addUpdate :: "View \<Rightarrow> Update list \<Rightarrow> View" where
  "addUpdate v updates =
     (let v1 = fold addUpdate_step updates v in v1\<lparr>VRef := ViewToViewRef v1\<rparr>)"

definition NewWithUpdates :: "Update list \<Rightarrow> View" where
  "NewWithUpdates updates = addUpdate newView updates"

definition NewWithProcesses :: "Process list \<Rightarrow> View" where
  "NewWithProcesses processes =
     NewWithUpdates (foldl (\<lambda>updates p. updates @ [Update Join p]) [] processes)"

definition NewCopyWithUpdates :: "View \<Rightarrow> Update list \<Rightarrow> View" where
  "NewCopyWithUpdates v updates =
     (let newViewUpdates =
        foldl (\<lambda>acc u. acc @ [u]) [] (range_keys (Entries v)) @ updates
      in NewWithUpdates newViewUpdates)"

fun View_String_loop :: "bool \<Rightarrow> Process list \<Rightarrow> string" where
  "View_String_loop first [] = ''''"
| "View_String_loop first (p # ps) =
     (if first then '''' else '', '') @ Addr p @ View_String_loop False ps"

definition View_String :: "View \<Rightarrow> string" where
  "View_String v = ''{'' @ View_String_loop True (range_keys (Members v)) @ ''}''"

section \<open>Comparison\<close>

text \<open>The loop the three comparisons share: is some key of the list missing from \<open>v\<close>?\<close>

fun some_missing :: "View \<Rightarrow> Update list \<Rightarrow> bool" where
  "some_missing v [] = False"
| "some_missing v (k2 # ks) = (if k2 \<notin> Entries v then True else some_missing v ks)"

definition NumberOfMembers :: "View \<Rightarrow> nat" where
  "NumberOfMembers v = card (Members v)"

definition NumberOfUpdates :: "View \<Rightarrow> nat" where
  "NumberOfUpdates v = card (Entries v)"

definition LessUpdatedThan :: "View \<Rightarrow> View \<Rightarrow> bool" where
  "LessUpdatedThan v v2 =
     (if card (Entries v2) > card (Entries v) then True
      else some_missing v (range_keys (Entries v2)))"

definition MoreUpdatedThan :: "View \<Rightarrow> View \<Rightarrow> bool" where
  "MoreUpdatedThan v v2 =
     (if card (Entries v2) > card (Entries v) then False
      else if some_missing v (range_keys (Entries v2)) then False
      else if card (Entries v2) = card (Entries v) then False
      else True)"

definition View_Equal :: "View \<Rightarrow> View \<Rightarrow> bool" where
  "View_Equal v v2 =
     (if card (Entries v) \<noteq> card (Entries v2) then False
      else \<not> some_missing v (range_keys (Entries v2)))"

section \<open>Membership and quorums\<close>

definition HasUpdate :: "View \<Rightarrow> Update \<Rightarrow> bool" where
  "HasUpdate v u \<longleftrightarrow> u \<in> Entries v"

definition HasMember :: "View \<Rightarrow> Process \<Rightarrow> bool" where
  "HasMember v p \<longleftrightarrow> p \<in> Members v"

definition GetMembers :: "View \<Rightarrow> Process list" where
  "GetMembers v = range_keys (Members v)"

fun members_not_in_loop :: "View \<Rightarrow> Process list \<Rightarrow> Process list \<Rightarrow> Process list" where
  "members_not_in_loop v2 members [] = members"
| "members_not_in_loop v2 members (p # ps) =
     members_not_in_loop v2 (if p \<notin> Members v2 then members @ [p] else members) ps"

definition GetMembersNotIn :: "View \<Rightarrow> View \<Rightarrow> Process list" where
  "GetMembersNotIn v v2 = members_not_in_loop v2 [] (range_keys (Members v))"

fun position_loop :: "Process \<Rightarrow> int \<Rightarrow> Process list \<Rightarrow> int" where
  "position_loop process position [] = position"
| "position_loop process position (proc # ps) =
     position_loop process (if Addr proc < Addr process then position + 1 else position) ps"

definition GetProcessPosition :: "View \<Rightarrow> Process \<Rightarrow> int" where
  "GetProcessPosition v process =
     (if process \<notin> Members v then -1
      else position_loop process 0 (range_keys (Members v)))"

definition QuorumSize :: "View \<Rightarrow> nat" where
  "QuorumSize v = (let membersTotal = card (Members v) in
     (membersTotal + 1) div 2 + (membersTotal + 1) mod 2)"

definition NumberOfToleratedFaults :: "View \<Rightarrow> int" where
  "NumberOfToleratedFaults v = int (card (Members v)) - int (QuorumSize v)"

section \<open>Errors\<close>

text \<open>
  The \<^verbatim>\<open>error\<close> values that cross component boundaries: \<^verbatim>\<open>view.OldViewError\<close> carries the newer
  view, every other error of the program is a message.
\<close>

datatype go_error = OldViewError (NewView: View) | ErrorString string

fun go_error_Error :: "go_error \<Rightarrow> string" where
  "go_error_Error (OldViewError v) =
     ''Client'' @ [CHR 0x27] @ ''s current view is old, update to '' @ [CHR 0x27] @ View_String v @ [CHR 0x27]"
| "go_error_Error (ErrorString e) = e"

section \<open>The invariant of a view\<close>

text \<open>The members a set of updates describes: joined and not left.\<close>

definition members_of :: "Update set \<Rightarrow> Process set" where
  "members_of E = {p. Update Join p \<in> E \<and> Update Leave p \<notin> E}"

definition wf_view :: "View \<Rightarrow> bool" where
  "wf_view v \<longleftrightarrow>
     finite (Entries v) \<and> Members v = members_of (Entries v) \<and> VRef v = ViewToViewRef v"

lemma finite_members_of: "finite E \<Longrightarrow> finite (members_of E)"
  by (rule finite_subset [of _ "UProcess ` E"]) (force simp: members_of_def)+

lemma wf_view_finite [simp]:
  assumes "wf_view v"
  shows "finite (Entries v)" "finite (Members v)"
  using assms by (auto simp: wf_view_def finite_members_of)

lemma wf_view_caches:
  assumes "wf_view v"
  shows "Members v = members_of (Entries v)" "VRef v = ViewToViewRef v"
  using assms by (auto simp: wf_view_def)

lemma addUpdate_step_Entries [simp]:
  "Entries (addUpdate_step u v) = insert u (Entries v)"
  by (simp add: addUpdate_step_def Let_def split: updateType.split)

lemma addUpdate_step_Members:
  assumes "Members v = members_of (Entries v)"
  shows "Members (addUpdate_step u v) = members_of (insert u (Entries v))"
  using assms
  by (cases u) (auto simp: addUpdate_step_def Let_def members_of_def split: updateType.split)

lemma fold_addUpdate_Entries [simp]:
  "Entries (fold addUpdate_step us v) = set us \<union> Entries v"
  by (induction us arbitrary: v) auto

lemma fold_addUpdate_Members:
  "Members v = members_of (Entries v) \<Longrightarrow>
   Members (fold addUpdate_step us v) = members_of (set us \<union> Entries v)"
  by (induction us arbitrary: v) (auto simp: addUpdate_step_Members)

lemma ViewToViewRef_cong: "Entries v = Entries w \<Longrightarrow> ViewToViewRef v = ViewToViewRef w"
  by (simp add: ViewToViewRef_def GetUpdates_def)

lemma addUpdate_Entries [simp]: "Entries (addUpdate v us) = set us \<union> Entries v"
  by (simp add: addUpdate_def Let_def)

lemma addUpdate_wf:
  assumes "finite (Entries v)" "Members v = members_of (Entries v)"
  shows "wf_view (addUpdate v us)"
proof -
  let ?w = "fold addUpdate_step us v"
  have "ViewToViewRef (?w\<lparr>VRef := ViewToViewRef ?w\<rparr>) = ViewToViewRef ?w"
    by (rule ViewToViewRef_cong) simp
  with assms show ?thesis
    by (simp add: wf_view_def addUpdate_def Let_def fold_addUpdate_Members)
qed

lemma newView_sel [simp]: "Entries newView = {}" "Members newView = {}"
  by (simp_all add: newView_def)

lemma NewWithUpdates_Entries [simp]: "Entries (NewWithUpdates us) = set us"
  by (simp add: NewWithUpdates_def)

lemma NewWithUpdates_wf [simp, intro]: "wf_view (NewWithUpdates us)"
  unfolding NewWithUpdates_def by (rule addUpdate_wf) (simp_all add: members_of_def)

lemma NewWithUpdates_Members [simp]: "Members (NewWithUpdates us) = members_of (set us)"
  using NewWithUpdates_wf [of us] by (metis NewWithUpdates_Entries wf_view_def)

lemma foldl_snoc_map: "foldl (\<lambda>acc x. acc @ [f x]) xs ys = xs @ map f ys"
  by (induction ys arbitrary: xs) auto

lemma NewWithProcesses_eq: "NewWithProcesses ps = NewWithUpdates (map (Update Join) ps)"
  by (simp add: NewWithProcesses_def foldl_snoc_map)

lemma NewWithProcesses_wf [simp, intro]: "wf_view (NewWithProcesses ps)"
  by (simp add: NewWithProcesses_eq)

lemma NewWithProcesses_Members [simp]: "Members (NewWithProcesses ps) = set ps"
  by (auto simp: NewWithProcesses_eq members_of_def)

lemma NewCopyWithUpdates_eq:
  "NewCopyWithUpdates v us = NewWithUpdates (range_keys (Entries v) @ us)"
  by (simp add: NewCopyWithUpdates_def Let_def foldl_snoc_map [where f = "\<lambda>x. x", simplified])

lemma NewCopyWithUpdates_wf [simp, intro]: "wf_view (NewCopyWithUpdates v us)"
  by (simp add: NewCopyWithUpdates_eq)

lemma NewCopyWithUpdates_Entries [simp]:
  "finite (Entries v) \<Longrightarrow> Entries (NewCopyWithUpdates v us) = Entries v \<union> set us"
  by (simp add: NewCopyWithUpdates_eq)

text \<open>A well-formed view is determined by its entries.\<close>

lemma wf_view_eqI: "wf_view v \<Longrightarrow> wf_view w \<Longrightarrow> Entries v = Entries w \<Longrightarrow> v = w"
  using ViewToViewRef_cong [of v w] by (simp add: wf_view_def)

lemma NewWithUpdates_cong: "set us = set ws \<Longrightarrow> NewWithUpdates us = NewWithUpdates ws"
  by (rule wf_view_eqI) auto

section \<open>Comparisons are the inclusion order\<close>

lemma some_missing_iff: "some_missing v ks \<longleftrightarrow> \<not> set ks \<subseteq> Entries v"
  by (induction ks) auto

lemma LessUpdatedThan_iff:
  assumes "finite (Entries v)" "finite (Entries v2)"
  shows "LessUpdatedThan v v2 \<longleftrightarrow> \<not> Entries v2 \<subseteq> Entries v"
  using assms by (auto simp: LessUpdatedThan_def some_missing_iff not_less dest: card_mono)

lemma MoreUpdatedThan_iff:
  assumes "finite (Entries v)" "finite (Entries v2)"
  shows "MoreUpdatedThan v v2 \<longleftrightarrow> Entries v2 \<subset> Entries v"
proof (cases "Entries v2 \<subset> Entries v")
  case True
  then have "card (Entries v2) < card (Entries v)" using assms by (simp add: psubset_card_mono)
  with True assms show ?thesis by (simp add: MoreUpdatedThan_def some_missing_iff psubset_imp_subset)
next
  case False
  then have "Entries v2 \<subseteq> Entries v \<Longrightarrow> Entries v2 = Entries v" by blast
  with False assms show ?thesis by (auto simp: MoreUpdatedThan_def some_missing_iff)
qed

lemma View_Equal_iff:
  assumes "finite (Entries v)" "finite (Entries v2)"
  shows "View_Equal v v2 \<longleftrightarrow> Entries v = Entries v2"
  using assms by (auto simp: View_Equal_def some_missing_iff dest: card_subset_eq)

lemma View_Equal_wf_iff [simp]: "wf_view v \<Longrightarrow> wf_view w \<Longrightarrow> View_Equal v w \<longleftrightarrow> v = w"
  using wf_view_eqI by (auto simp: View_Equal_iff)

lemma LessUpdatedThan_wf_iff [simp]:
  "wf_view v \<Longrightarrow> wf_view w \<Longrightarrow> LessUpdatedThan v w \<longleftrightarrow> \<not> Entries w \<subseteq> Entries v"
  by (simp add: LessUpdatedThan_iff)

lemma MoreUpdatedThan_wf_iff [simp]:
  "wf_view v \<Longrightarrow> wf_view w \<Longrightarrow> MoreUpdatedThan v w \<longleftrightarrow> Entries w \<subset> Entries v"
  by (simp add: MoreUpdatedThan_iff)

lemma NewWithProcesses_more:
  assumes "set ps \<subseteq> set qs" "p \<in> set qs" "p \<notin> set ps"
  shows "MoreUpdatedThan (NewWithProcesses qs) (NewWithProcesses ps)"
proof -
  have "Update Join p \<in> Entries (NewWithProcesses qs)" "Update Join p \<notin> Entries (NewWithProcesses ps)"
    using assms(2,3) by (auto simp: NewWithProcesses_eq)
  moreover have "Entries (NewWithProcesses ps) \<subseteq> Entries (NewWithProcesses qs)"
    using assms(1) by (auto simp: NewWithProcesses_eq)
  ultimately show ?thesis by auto
qed

section \<open>Quorums and positions\<close>

lemma QuorumSize_eq: "QuorumSize v = NumberOfMembers v div 2 + 1"
  by (simp add: QuorumSize_def NumberOfMembers_def Let_def) presburger

lemma QuorumSize_pos [simp]: "0 < QuorumSize v"
  by (simp add: QuorumSize_eq)

lemma ToleratedFaults_eq:
  "NumberOfToleratedFaults v = (int (NumberOfMembers v) - 1) div 2"
  by (simp add: NumberOfToleratedFaults_def QuorumSize_eq NumberOfMembers_def)

interpretation vq: quorum_system Members QuorumSize wf_view
proof
  fix v assume "wf_view v"
  then show "finite (Members v)" by simp
  show "card (Members v) < 2 * QuorumSize v"
    by (simp add: QuorumSize_eq NumberOfMembers_def)
  assume "Members v \<noteq> {}"
  with \<open>finite (Members v)\<close> have "card (Members v) \<noteq> 0" by simp
  then show "QuorumSize v \<le> card (Members v)"
    by (simp add: QuorumSize_eq NumberOfMembers_def)
qed

lemma members_not_in_loop_eq:
  "members_not_in_loop v2 ms ps = ms @ filter (\<lambda>p. p \<notin> Members v2) ps"
  by (induction ps arbitrary: ms) auto

lemma set_GetMembersNotIn [simp]:
  "finite (Members v) \<Longrightarrow> set (GetMembersNotIn v v2) = Members v - Members v2"
  by (auto simp: GetMembersNotIn_def members_not_in_loop_eq)

lemma set_GetMembers [simp]: "finite (Members v) \<Longrightarrow> set (GetMembers v) = Members v"
  by (simp add: GetMembers_def)

lemma set_GetUpdates [simp]: "finite (Entries v) \<Longrightarrow> set (GetUpdates v) = Entries v"
  by (simp add: GetUpdates_def)

lemma position_loop_eq:
  "position_loop p n ps = n + int (length (filter (\<lambda>q. q < p) ps))"
  by (induction ps arbitrary: n) (auto simp: less_Process_def Process_Less_def)

lemma GetProcessPosition_eq:
  assumes "finite (Members v)"
  shows "GetProcessPosition v p = (if p \<in> Members v then int (card {q \<in> Members v. q < p}) else -1)"
proof -
  have "length (filter (\<lambda>q. q < p) (range_keys (Members v))) =
      card (set (filter (\<lambda>q. q < p) (range_keys (Members v))))"
    by (rule distinct_card [symmetric]) simp
  then have "length (filter (\<lambda>q. q < p) (range_keys (Members v))) = card {q \<in> Members v. q < p}"
    using assms by simp
  then show ?thesis by (simp add: GetProcessPosition_def position_loop_eq)
qed

section \<open>The canonical rendering can be read back\<close>

text \<open>
  A reader for the rendering, which the program does not have: it makes precise that
  \<^verbatim>\<open>ViewToViewRef\<close> hashes an unambiguous text as long as no address contains a closing brace.
\<close>

definition plain_addr :: "Process \<Rightarrow> bool" where
  "plain_addr p \<longleftrightarrow> CHR ''}'' \<notin> set (Addr p)"

fun read_type :: "char \<Rightarrow> updateType option" where
  "read_type c = (if c = CHR ''+'' then Some Join else if c = CHR ''-'' then Some Leave else None)"

function read_updates :: "string \<Rightarrow> Update list option" where
  "read_updates [] = Some []"
| "read_updates (b # t # sp # b2 # cs) =
     (case read_type t of None \<Rightarrow> None | Some ty \<Rightarrow>
       (let a = takeWhile (\<lambda>c. c \<noteq> CHR ''}'') cs in
        map_option (Cons (Update ty (Process a))) (read_updates (drop (length a + 2) cs))))"
| "read_updates [a] = None"
| "read_updates [a, b] = None"
| "read_updates [a, b, c] = None"
  by pat_completeness auto
termination
  by (relation "measure length") auto

lemma read_updates_fmt:
  assumes "plain_addr (UProcess u)"
  shows "read_updates (Update_fmt u @ s) = map_option (Cons u) (read_updates s)"
proof (cases u)
  case (Update t p)
  then have "CHR ''}'' \<notin> set (Addr p)" using assms by (simp add: plain_addr_def)
  then have tw: "takeWhile (\<lambda>c. c \<noteq> CHR ''}'') (Addr p @ ''}}'' @ s) = Addr p"
    by (subst takeWhile_append2) auto
  show ?thesis
    using tw Update by (cases t; cases p) (simp_all add: Update_fmt_def Let_def)
qed

lemma read_updates_concat:
  "\<forall>u \<in> set us. plain_addr (UProcess u) \<Longrightarrow> read_updates (concat (map Update_fmt us)) = Some us"
  by (induction us) (simp_all add: read_updates_fmt)

lemma canonical_string_inject:
  assumes "\<forall>u \<in> set us \<union> set ws. plain_addr (UProcess u)"
    and "canonical_string us = canonical_string ws"
  shows "set us = set ws"
proof -
  have "read_updates (canonical_string us) = Some (sort us)"
    and "read_updates (canonical_string ws) = Some (sort ws)"
    using assms(1) by (simp_all add: canonical_string_def read_updates_concat)
  with assms(2) have "sort us = sort ws" by simp
  then show ?thesis by (metis set_sort)
qed

section \<open>Properties\<close>

lemma position_strict:
  assumes "finite M" "p \<in> M" "q \<in> M" "p < (q :: Process)"
  shows "card {r \<in> M. r < p} < card {r \<in> M. r < q}"
  using assms by (intro psubset_card_mono) (auto intro: less_trans)

lemma positions_bij:
  assumes "finite M"
  shows "bij_betw (\<lambda>p :: Process. int (card {q \<in> M. q < p})) M {0..<int (card M)}"
proof -
  let ?f = "\<lambda>p :: Process. card {q \<in> M. q < p}"
  have inj: "inj_on ?f M"
  proof (rule inj_onI)
    fix p q assume "p \<in> M" "q \<in> M" "?f p = ?f q"
    then show "p = q"
      using position_strict [OF assms, of p q] position_strict [OF assms, of q p]
      by (metis less_irrefl linorder_less_linear)
  qed
  have "?f ` M \<subseteq> {0..<card M}"
  proof
    fix n assume "n \<in> ?f ` M"
    then obtain p where "p \<in> M" "n = ?f p" by blast
    moreover have "{q \<in> M. q < p} \<subset> M" using \<open>p \<in> M\<close> by auto
    ultimately show "n \<in> {0..<card M}" using assms by (simp add: psubset_card_mono)
  qed
  with inj have "bij_betw ?f M {0..<card M}"
    by (simp add: bij_betw_def card_image card_subset_eq)
  moreover have "bij_betw int {0..<card M} {0..<int (card M)}"
    by (simp add: bij_betw_def image_int_atLeastLessThan)
  ultimately have "bij_betw (int \<circ> ?f) M {0..<int (card M)}" by (rule bij_betw_trans)
  then show ?thesis by (simp add: comp_def)
qed

text \<open>C12: A view built from updates in any number of steps is well formed (its member cache and
  its digest agree with its entries), and its members are exactly the processes that some
  update joins and no update removes, whatever the order of the updates.\<close>

theorem view_members_correct:
  "wf_view (NewCopyWithUpdates (NewWithUpdates us) ws) \<and>
   (HasMember (NewCopyWithUpdates (NewWithUpdates us) ws) p \<longleftrightarrow>
      Update Join p \<in> set us \<union> set ws \<and> Update Leave p \<notin> set us \<union> set ws)"
proof -
  let ?v = "NewCopyWithUpdates (NewWithUpdates us) ws"
  have wf: "wf_view ?v" by simp
  then have "Members ?v = members_of (set us \<union> set ws)"
    by (simp add: wf_view_caches(1))
  with wf show ?thesis by (simp add: HasMember_def members_of_def)
qed

text \<open>C13: The comparison loops of a view compute the inclusion order on updates: a view is less
  updated exactly when it misses an update of the other, more updated exactly when it holds
  strictly more, equal exactly when it is the same view; and the loop's answer is the same
  for every order in which Go enumerates the other view's entries.\<close>

theorem view_comparisons_correct:
  assumes "wf_view v" "wf_view w" "set ks = Entries w"
  shows "(LessUpdatedThan v w \<longleftrightarrow> \<not> Entries w \<subseteq> Entries v) \<and>
    (MoreUpdatedThan v w \<longleftrightarrow> Entries w \<subset> Entries v) \<and>
    (View_Equal v w \<longleftrightarrow> v = w) \<and>
    some_missing v ks = some_missing v (range_keys (Entries w))"
  using assms by (simp add: some_missing_iff)

theorem view_comparisons_correct_witness:
  "\<not> LessUpdatedThan (NewWithUpdates [Update Join (Process ''a''), Update Leave (Process ''a'')])
       (NewWithUpdates [Update Join (Process ''a'')]) \<and>
   MoreUpdatedThan (NewWithUpdates [Update Join (Process ''a''), Update Leave (Process ''a'')])
     (NewWithUpdates [Update Join (Process ''a'')])"
  using view_comparisons_correct
    [of "NewWithUpdates [Update Join (Process ''a''), Update Leave (Process ''a'')]"
        "NewWithUpdates [Update Join (Process ''a'')]" "[Update Join (Process ''a'')]"]
  by auto

text \<open>C14: Views converge like a grow-only set: adding batches of updates one after the other, in
  any order and with any repetition, gives the same view as adding them all at once, and the
  result is never less updated than the view it came from.\<close>

theorem view_updates_converge:
  assumes "wf_view v" "set us \<union> set ws = set xs"
  shows "NewCopyWithUpdates (NewCopyWithUpdates v us) ws = NewCopyWithUpdates v xs \<and>
    \<not> LessUpdatedThan (NewCopyWithUpdates v xs) v"
proof -
  have "NewCopyWithUpdates (NewCopyWithUpdates v us) ws = NewCopyWithUpdates v xs"
    using assms by (intro wf_view_eqI) auto
  then show ?thesis using assms by simp
qed

theorem view_updates_converge_witness:
  "NewCopyWithUpdates (NewCopyWithUpdates (NewWithUpdates []) [Update Leave (Process ''a'')])
     [Update Join (Process ''a'')] =
   NewCopyWithUpdates (NewWithUpdates []) [Update Join (Process ''a''), Update Leave (Process ''a'')]"
  using view_updates_converge [of "NewWithUpdates []" "[Update Leave (Process ''a'')]"
      "[Update Join (Process ''a'')]" "[Update Join (Process ''a''), Update Leave (Process ''a'')]"]
  by auto

text \<open>C1: The quorum size of a view is a majority: any two sets of members of that size share a
  member, and the members left after as many failures as the view tolerates, which is
  the documented floor of (N-1)/2, still contain a quorum.\<close>

theorem view_quorums_correct:
  assumes "wf_view v" "A \<subseteq> Members v" "B \<subseteq> Members v" "F \<subseteq> Members v"
    "card A = QuorumSize v" "card B = QuorumSize v" "int (card F) \<le> NumberOfToleratedFaults v"
  shows "(\<exists>p. p \<in> A \<and> p \<in> B) \<and> QuorumSize v \<le> card (Members v - F) \<and>
    NumberOfToleratedFaults v = (int (NumberOfMembers v) - 1) div 2"
proof -
  have "\<exists>p. p \<in> A \<and> p \<in> B"
    using vq.quorums_meet [of v A B] assms by (metis order_refl)
  moreover have "card (Members v - F) = card (Members v) - card F"
    using assms by (simp add: card_Diff_subset finite_subset)
  then have "QuorumSize v \<le> card (Members v - F)"
    using assms(7) by (simp add: NumberOfToleratedFaults_def)
  ultimately show ?thesis by (simp add: ToleratedFaults_eq)
qed

theorem view_quorums_correct_witness:
  "let v = NewWithProcesses [Process ''a'', Process ''b'', Process ''c''] in
   QuorumSize v \<le> card (Members v - {Process ''a''})"
proof -
  let ?v = "NewWithProcesses [Process ''a'', Process ''b'', Process ''c'']"
  have q: "QuorumSize ?v = 2" "NumberOfToleratedFaults ?v = 1"
    by (simp_all add: QuorumSize_eq ToleratedFaults_eq NumberOfMembers_def)
  show ?thesis
    using view_quorums_correct [of ?v "{Process ''a'', Process ''b''}" "{Process ''b'', Process ''c''}"
        "{Process ''a''}"] q
    by (simp add: Let_def)
qed

text \<open>Process positions number the members of a view from 0 without gaps or repetition, and a
  process that is no member gets -1, so proposal numbers derived from them never clash.\<close>

theorem process_positions_bijective:
  assumes "wf_view v"
  shows "bij_betw (GetProcessPosition v) (Members v) {0..<int (NumberOfMembers v)} \<and>
    (p \<notin> Members v \<longrightarrow> GetProcessPosition v p = -1)"
proof -
  have "bij_betw (\<lambda>p. int (card {q \<in> Members v. q < p})) (Members v) {0..<int (card (Members v))}"
    using assms by (simp add: positions_bij)
  then have "bij_betw (GetProcessPosition v) (Members v) {0..<int (card (Members v))}"
    using assms by (subst bij_betw_cong) (auto simp: GetProcessPosition_eq)
  then show ?thesis using assms by (simp add: NumberOfMembers_def GetProcessPosition_eq)
qed

theorem process_positions_bijective_witness:
  "bij_betw (GetProcessPosition (NewWithProcesses [Process ''b'', Process ''a'']))
     {Process ''a'', Process ''b''} {0..<2} \<and>
   GetProcessPosition (NewWithProcesses [Process ''b'', Process ''a'']) (Process ''c'') = -1"
  using process_positions_bijective
    [of "NewWithProcesses [Process ''b'', Process ''a'']" "Process ''c''"]
  by (simp add: NumberOfMembers_def insert_commute)

text \<open>
  The updates of a view come out of a map in any order: sorting them makes the rendering, and
  so the reference, independent of the order.
\<close>

lemma canonical_string_order:
  assumes "wf_view v" "distinct us" "set us = Entries v"
  shows "canonical_string us = canonical_string (GetUpdates v)"
proof -
  have "sort us = sort (GetUpdates v)"
    using assms by (intro sorted_distinct_unique) (simp_all add: GetUpdates_def)
  then show ?thesis by (simp add: canonical_string_def)
qed

text \<open>C15: The reference a request carries identifies a view: in whatever order \<^verbatim>\<open>GetUpdates\<close> lists the
  updates of two well-formed views, the references are the digests of the two sorted
  renderings, and if their addresses contain no closing brace the references are the same
  exactly when the views hold the same updates, provided SHA-1 does not collide on the
  two renderings.\<close>

theorem view_ref_identifies:
  assumes "wf_view v" "wf_view w"
    and "\<forall>u \<in> Entries v \<union> Entries w. plain_addr (UProcess u)"
    and "distinct us" "set us = Entries v" "distinct ws" "set ws = Entries w"
    and "sha1_sum (canonical_string us) = sha1_sum (canonical_string ws) \<Longrightarrow> canonical_string us = canonical_string ws"
  shows "VRef v = ViewRef (sha1_sum (canonical_string us)) \<and> VRef w = ViewRef (sha1_sum (canonical_string ws)) \<and>
    (VRef v = VRef w \<longleftrightarrow> View_Equal v w)"
proof -
  have refs: "VRef v = ViewRef (sha1_sum (canonical_string us))" "VRef w = ViewRef (sha1_sum (canonical_string ws))"
    using canonical_string_order [OF assms(1,4,5)] canonical_string_order [OF assms(2,6,7)] assms(1,2)
    by (simp_all add: wf_view_caches(2) ViewToViewRef_def)
  have "VRef v = VRef w \<Longrightarrow> Entries v = Entries w"
    using refs assms(8) canonical_string_inject [of us ws] assms(3-7) by auto
  then have "VRef v = VRef w \<longleftrightarrow> View_Equal v w"
    using assms(1,2) wf_view_eqI [of v w] by auto
  with refs show ?thesis by simp
qed

theorem view_ref_identifies_witness:
  "let ab = [Update Join (Process ''a''), Update Join (Process ''b'')] in
   VRef (NewWithUpdates (rev ab)) = ViewRef (sha1_sum (canonical_string ab)) \<and>
   VRef (NewWithUpdates ab) = ViewRef (sha1_sum (canonical_string (rev ab)))"
proof -
  let ?ab = "[Update Join (Process ''a''), Update Join (Process ''b'')]"
  have "canonical_string (rev ?ab) = canonical_string ?ab"
    using sorted_distinct_unique [of "rev ?ab" ?ab] by (simp add: canonical_string_def insert_commute)
  then show ?thesis
    using view_ref_identifies [of "NewWithUpdates (rev ?ab)" "NewWithUpdates ?ab" ?ab "rev ?ab"]
    by (auto simp: plain_addr_def insert_commute Let_def)
qed

end
