(* ===== verification/View_Seqs.thy ===== *)
theory View_Seqs
  imports Views
begin

text \<open>
  \<^verbatim>\<open>pkg/server/viewseq.go\<close>: sequences of views and the operations the view generator and the
  reconfiguration use on them. \<open>GetLeastUpdatedView\<close> indexes the empty sequence and panics
  there (\<open>None\<close>); on a chain it is the smallest view. \<open>GetMostUpdatedView\<close> always
  returns a maximal one. \<open>ViewSeq_Equal\<close> is set equality on sequences without repetition
  and is not even symmetric on others.
\<close>

type_synonym ViewSeq = "View list"

fun ViewSeq_HasView :: "ViewSeq \<Rightarrow> View \<Rightarrow> bool" where
  "ViewSeq_HasView [] view = False"
| "ViewSeq_HasView (loopView # vs) view =
     (if View_Equal loopView view then True else ViewSeq_HasView vs view)"

fun equal_loop :: "ViewSeq \<Rightarrow> ViewSeq \<Rightarrow> bool" where
  "equal_loop otherViewSeq [] = True"
| "equal_loop otherViewSeq (loopView # vs) =
     (if \<not> ViewSeq_HasView otherViewSeq loopView then False else equal_loop otherViewSeq vs)"

definition ViewSeq_Equal :: "ViewSeq \<Rightarrow> ViewSeq \<Rightarrow> bool" where
  "ViewSeq_Equal viewSeq otherViewSeq =
     (if length otherViewSeq \<noteq> length viewSeq then False else equal_loop otherViewSeq viewSeq)"

text \<open>The index loop of the two selections; \<open>better\<close> is the comparison each of them makes.\<close>

fun select_loop :: "(View \<Rightarrow> View \<Rightarrow> bool) \<Rightarrow> ViewSeq \<Rightarrow> nat \<Rightarrow> nat \<Rightarrow> ViewSeq \<Rightarrow> nat" where
  "select_loop better viewSeq index loopIndex [] = index"
| "select_loop better viewSeq index loopIndex (loopView # vs) =
     select_loop better viewSeq
       (if better loopView (viewSeq ! index) then loopIndex else index) (loopIndex + 1) vs"

definition GetLeastUpdatedView :: "ViewSeq \<Rightarrow> View option" where
  "GetLeastUpdatedView viewSeq =
     (let leastUpdatedViewIndex = select_loop LessUpdatedThan viewSeq 0 0 viewSeq in
      if leastUpdatedViewIndex < length viewSeq then Some (viewSeq ! leastUpdatedViewIndex)
      else None)"

definition GetMostUpdatedView :: "ViewSeq \<Rightarrow> View" where
  "GetMostUpdatedView viewSeq =
     (if length viewSeq = 0 then NewWithUpdates []
      else viewSeq ! select_loop MoreUpdatedThan viewSeq 0 0 viewSeq)"

fun HasViewMoreUpdatedThan :: "ViewSeq \<Rightarrow> View \<Rightarrow> bool" where
  "HasViewMoreUpdatedThan [] otherView = False"
| "HasViewMoreUpdatedThan (v # vs) otherView =
     (if MoreUpdatedThan v otherView then True else HasViewMoreUpdatedThan vs otherView)"

fun append_loop :: "ViewSeq \<Rightarrow> ViewSeq \<Rightarrow> ViewSeq \<Rightarrow> ViewSeq" where
  "append_loop viewSeq newViewSeq [] = newViewSeq"
| "append_loop viewSeq newViewSeq (v # vs) =
     (if ViewSeq_HasView viewSeq v then append_loop viewSeq newViewSeq vs
      else append_loop viewSeq (newViewSeq @ [v]) vs)"

text \<open>
  Go's \<^verbatim>\<open>append\<close> may reuse the array behind the slice, so two appends to one slice with spare
  room could share elements. A HOL list is a value: each result stands for its own array.
\<close>

definition ViewSeq_Append :: "ViewSeq \<Rightarrow> ViewSeq \<Rightarrow> ViewSeq" where
  "ViewSeq_Append viewSeq views = append_loop viewSeq viewSeq views"

section \<open>What the operations compute\<close>

abbreviation wf_seq :: "ViewSeq \<Rightarrow> bool" where
  "wf_seq seq \<equiv> (\<forall>v \<in> set seq. wf_view v)"

text \<open>A chain: any two views of the sequence are comparable.\<close>

definition chain_seq :: "ViewSeq \<Rightarrow> bool" where
  "chain_seq seq \<longleftrightarrow>
     (\<forall>v \<in> set seq. \<forall>w \<in> set seq. Entries v \<subseteq> Entries w \<or> Entries w \<subseteq> Entries v)"

lemma HasView_iff:
  "wf_seq seq \<Longrightarrow> wf_view v \<Longrightarrow> ViewSeq_HasView seq v \<longleftrightarrow> v \<in> set seq"
  by (induction seq) auto

lemma HasView_exists: "ViewSeq_HasView seq v \<longleftrightarrow> (\<exists>w \<in> set seq. View_Equal w v)"
  by (induction seq) auto

lemma equal_loop_iff: "equal_loop other vs \<longleftrightarrow> (\<forall>v \<in> set vs. ViewSeq_HasView other v)"
  by (induction vs) auto

lemma ViewSeq_Equal_iff:
  assumes "wf_seq vs" "wf_seq ws"
  shows "ViewSeq_Equal vs ws \<longleftrightarrow> length vs = length ws \<and> set vs \<subseteq> set ws"
  using assms by (auto simp: ViewSeq_Equal_def equal_loop_iff HasView_iff)

lemma ViewSeq_Equal_distinct:
  assumes "wf_seq vs" "wf_seq ws" "distinct vs" "distinct ws"
  shows "ViewSeq_Equal vs ws \<longleftrightarrow> set vs = set ws"
proof -
  have "length vs = length ws \<Longrightarrow> set vs \<subseteq> set ws \<Longrightarrow> set vs = set ws"
    using assms by (metis List.finite_set card_subset_eq distinct_card)
  moreover have "set vs = set ws \<Longrightarrow> length vs = length ws"
    using assms by (metis distinct_card)
  ultimately show ?thesis using assms by (auto simp: ViewSeq_Equal_iff)
qed

text \<open>The index loops select like a fold that keeps the best view so far.\<close>

lemma select_loop_fold:
  assumes "l < length (pre @ vs)"
  shows "select_loop better (pre @ vs) l (length pre) vs < length (pre @ vs) \<and>
    (pre @ vs) ! select_loop better (pre @ vs) l (length pre) vs =
      foldl (\<lambda>b v. if better v b then v else b) ((pre @ vs) ! l) vs"
  using assms
proof (induction vs arbitrary: l pre)
  case (Cons v vs)
  let ?l = "if better v ((pre @ v # vs) ! l) then length pre else l"
  have "?l < length ((pre @ [v]) @ vs)" using Cons.prems by simp
  from Cons.IH [OF this] show ?case by simp
qed simp

lemma GetLeastUpdatedView_fold:
  "GetLeastUpdatedView (v # vs) =
     Some (foldl (\<lambda>b w. if LessUpdatedThan w b then w else b) v (v # vs))"
  using select_loop_fold [of 0 "[]" "v # vs" LessUpdatedThan]
  by (simp add: GetLeastUpdatedView_def Let_def)

lemma GetMostUpdatedView_fold:
  "GetMostUpdatedView (v # vs) =
     foldl (\<lambda>b w. if MoreUpdatedThan w b then w else b) v (v # vs)"
  using select_loop_fold [of 0 "[]" "v # vs" MoreUpdatedThan]
  by (simp add: GetMostUpdatedView_def)

lemma foldl_select_in:
  "foldl (\<lambda>b w. if P w b then w else b) v vs \<in> insert v (set vs)"
  by (induction vs arbitrary: v) (auto split: if_splits)

lemma foldl_least:
  assumes "wf_view v" "wf_seq vs" "chain_seq (v # vs)"
  shows "\<forall>w \<in> insert v (set vs).
    Entries (foldl (\<lambda>b w. if LessUpdatedThan w b then w else b) v vs) \<subseteq> Entries w"
  using assms
proof (induction vs arbitrary: v)
  case (Cons x xs)
  let ?b = "if LessUpdatedThan x v then x else v"
  have le: "Entries ?b \<subseteq> Entries v" "Entries ?b \<subseteq> Entries x"
    using Cons.prems by (auto simp: chain_seq_def)
  have "chain_seq (?b # xs)" using Cons.prems by (auto simp: chain_seq_def)
  moreover have "wf_view ?b" "wf_seq xs" using Cons.prems by auto
  ultimately have "\<forall>w \<in> insert ?b (set xs).
      Entries (foldl (\<lambda>b w. if LessUpdatedThan w b then w else b) ?b xs) \<subseteq> Entries w"
    using Cons.IH by blast
  then show ?case using le by fastforce
qed simp

lemma foldl_most:
  assumes "wf_view v" "wf_seq vs"
  shows "Entries v \<subseteq> Entries (foldl (\<lambda>b w. if MoreUpdatedThan w b then w else b) v vs) \<and>
    (\<forall>w \<in> insert v (set vs).
      \<not> Entries (foldl (\<lambda>b w. if MoreUpdatedThan w b then w else b) v vs) \<subset> Entries w)"
  using assms
proof (induction vs arbitrary: v)
  case (Cons x xs)
  let ?b = "if MoreUpdatedThan x v then x else v"
  have "wf_view ?b" "wf_seq xs" "Entries v \<subseteq> Entries ?b" "\<not> Entries ?b \<subset> Entries x"
    using Cons.prems by auto
  moreover define F where "F = foldl (\<lambda>b w. if MoreUpdatedThan w b then w else b) ?b xs"
  ultimately have "Entries ?b \<subseteq> Entries F" "\<forall>w \<in> set xs. \<not> Entries F \<subset> Entries w"
    and "Entries v \<subseteq> Entries ?b" "\<not> Entries ?b \<subset> Entries x"
    using Cons.IH [of ?b] by simp_all
  then have "Entries v \<subseteq> Entries F \<and> (\<forall>w \<in> insert v (set (x # xs)). \<not> Entries F \<subset> Entries w)"
    by (auto simp del: if_split)
  then show ?case unfolding foldl_Cons F_def .
qed simp

lemma GetLeastUpdatedView_least:
  assumes "wf_seq seq" "chain_seq seq" "seq \<noteq> []"
  obtains v where "GetLeastUpdatedView seq = Some v" "v \<in> set seq"
    "\<forall>w \<in> set seq. Entries v \<subseteq> Entries w"
proof -
  obtain x xs where seq: "seq = x # xs" using assms(3) by (cases seq) auto
  let ?v = "foldl (\<lambda>b w. if LessUpdatedThan w b then w else b) x (x # xs)"
  have "chain_seq (x # x # xs)" using assms(2) seq by (auto simp: chain_seq_def)
  then have "\<forall>w \<in> set seq. Entries ?v \<subseteq> Entries w"
    using foldl_least [of x "x # xs"] assms(1) seq by simp
  moreover have "?v \<in> set seq"
    using foldl_select_in [of LessUpdatedThan x "x # xs"] seq by auto
  moreover have "GetLeastUpdatedView seq = Some ?v" by (simp only: seq GetLeastUpdatedView_fold)
  ultimately show thesis using that by blast
qed

lemma GetMostUpdatedView_in: "seq \<noteq> [] \<Longrightarrow> GetMostUpdatedView seq \<in> set seq"
proof (cases seq)
  case (Cons x xs)
  then show ?thesis
    using foldl_select_in [of MoreUpdatedThan x "x # xs"]
    by (simp only: GetMostUpdatedView_fold) simp
qed simp

lemma GetMostUpdatedView_maximal:
  assumes "wf_seq seq" "w \<in> set seq"
  shows "\<not> Entries (GetMostUpdatedView seq) \<subset> Entries w"
proof -
  obtain x xs where "seq = x # xs" using assms(2) by (cases seq) auto
  then show ?thesis
    using foldl_most [of x "x # xs"] assms by (simp only: GetMostUpdatedView_fold) auto
qed

lemma GetMostUpdatedView_wf: "wf_seq seq \<Longrightarrow> wf_view (GetMostUpdatedView seq)"
  using GetMostUpdatedView_in [of seq] by (cases "seq = []") (auto simp: GetMostUpdatedView_def)

lemma GetMostUpdatedView_greatest:
  assumes "wf_seq seq" "chain_seq seq" "w \<in> set seq"
  shows "Entries w \<subseteq> Entries (GetMostUpdatedView seq)"
proof -
  have "GetMostUpdatedView seq \<in> set seq"
    using assms(3) by (intro GetMostUpdatedView_in) auto
  then have "Entries w \<subseteq> Entries (GetMostUpdatedView seq) \<or>
      Entries (GetMostUpdatedView seq) \<subseteq> Entries w"
    using assms(2,3) by (simp add: chain_seq_def)
  then show ?thesis using GetMostUpdatedView_maximal [OF assms(1,3)] by blast
qed

lemma HasViewMoreUpdatedThan_iff:
  "HasViewMoreUpdatedThan seq v \<longleftrightarrow> (\<exists>w \<in> set seq. MoreUpdatedThan w v)"
  by (induction seq) auto

lemma ViewSeq_Append_eq:
  "ViewSeq_Append seq views = seq @ filter (\<lambda>v. \<not> ViewSeq_HasView seq v) views"
proof -
  have "append_loop seq acc views = acc @ filter (\<lambda>v. \<not> ViewSeq_HasView seq v) views" for acc
    by (induction views arbitrary: acc) auto
  then show ?thesis by (simp add: ViewSeq_Append_def)
qed

lemma set_ViewSeq_Append [simp]:
  assumes "wf_seq seq" "wf_seq views"
  shows "set (ViewSeq_Append seq views) = set seq \<union> set views"
  using assms HasView_iff by (auto simp: ViewSeq_Append_eq)

lemma distinct_ViewSeq_Append:
  assumes "wf_seq seq" "wf_seq views" "distinct seq" "distinct views"
  shows "distinct (ViewSeq_Append seq views)"
  using assms HasView_iff by (auto simp: ViewSeq_Append_eq)

section \<open>Properties\<close>

text \<open>On a non-empty chain of well-formed views, GetLeastUpdatedView does not panic and returns
  a view of the sequence contained in all others; GetMostUpdatedView returns one that
  contains all others.\<close>

theorem viewseq_extremes:
  assumes "wf_seq seq" "chain_seq seq" "seq \<noteq> []"
  shows "(\<exists>v. GetLeastUpdatedView seq = Some v \<and> v \<in> set seq \<and>
           (\<forall>w \<in> set seq. \<not> LessUpdatedThan w v)) \<and>
    GetMostUpdatedView seq \<in> set seq \<and>
    (\<forall>w \<in> set seq. \<not> LessUpdatedThan (GetMostUpdatedView seq) w)"
proof -
  obtain v where "GetLeastUpdatedView seq = Some v" "v \<in> set seq"
    "\<forall>w \<in> set seq. Entries v \<subseteq> Entries w"
    using GetLeastUpdatedView_least assms by blast
  then have "\<exists>v. GetLeastUpdatedView seq = Some v \<and> v \<in> set seq \<and>
      (\<forall>w \<in> set seq. \<not> LessUpdatedThan w v)" using assms(1) by auto
  moreover have "GetMostUpdatedView seq \<in> set seq" using assms(3) by (rule GetMostUpdatedView_in)
  ultimately show ?thesis
    using assms(1) GetMostUpdatedView_greatest [OF assms(1,2)] by auto
qed

theorem viewseq_extremes_witness:
  "let a = NewWithUpdates [Update Join (Process ''a'')];
       b = NewCopyWithUpdates a [Update Join (Process ''b'')]
   in \<not> LessUpdatedThan (GetMostUpdatedView [b, a]) b"
proof -
  let ?a = "NewWithUpdates [Update Join (Process ''a'')]"
  let ?b = "NewCopyWithUpdates ?a [Update Join (Process ''b'')]"
  show ?thesis using viewseq_extremes [of "[?b, ?a]"] by (auto simp: Let_def chain_seq_def)
qed

text \<open>Without any assumption on the order of the views, GetMostUpdatedView never overlooks a
  more updated view: no view of the sequence is strictly more updated than its result.\<close>

theorem viewseq_most_updated_maximal:
  assumes "wf_seq seq"
  shows "\<not> HasViewMoreUpdatedThan seq (GetMostUpdatedView seq)"
  using assms GetMostUpdatedView_maximal [OF assms] GetMostUpdatedView_wf [OF assms]
  by (auto simp: HasViewMoreUpdatedThan_iff)

theorem viewseq_most_updated_maximal_witness:
  "\<not> HasViewMoreUpdatedThan
     [NewWithProcesses [Process ''a''], NewWithProcesses [Process ''b'']]
     (GetMostUpdatedView [NewWithProcesses [Process ''a''], NewWithProcesses [Process ''b'']])"
  using viewseq_most_updated_maximal
    [of "[NewWithProcesses [Process ''a''], NewWithProcesses [Process ''b'']]"] by simp

text \<open>Appending views keeps the sequence as a prefix and adds exactly the views it lacks;
  on sequences without repetition, ViewSeq.Equal is equality of the sets of views.\<close>

theorem viewseq_append_and_equal:
  assumes "wf_seq seq" "wf_seq views" "distinct seq" "distinct views"
  shows "(\<exists>tail. ViewSeq_Append seq views = seq @ tail) \<and>
    set (ViewSeq_Append seq views) = set seq \<union> set views \<and>
    distinct (ViewSeq_Append seq views) \<and>
    (ViewSeq_Equal seq views \<longleftrightarrow> set seq = set views)"
  using assms distinct_ViewSeq_Append ViewSeq_Equal_distinct
  by (auto simp: ViewSeq_Append_eq HasView_iff)

theorem viewseq_append_and_equal_witness:
  "set (ViewSeq_Append [NewWithProcesses [Process ''a'']]
      [NewWithProcesses [Process ''b''], NewWithProcesses [Process ''a'']]) =
   {NewWithProcesses [Process ''a''], NewWithProcesses [Process ''b'']}"
proof -
  have "Members (NewWithProcesses [Process ''a'']) \<noteq> Members (NewWithProcesses [Process ''b''])"
    by simp
  then have "NewWithProcesses [Process ''a''] \<noteq> NewWithProcesses [Process ''b'']" by metis
  then show ?thesis
    using viewseq_append_and_equal [of "[NewWithProcesses [Process ''a'']]"
        "[NewWithProcesses [Process ''b''], NewWithProcesses [Process ''a'']]"]
    by auto
qed

text \<open>ViewSeq.Equal is not symmetric when a sequence repeats a view: [a, a] is Equal to
  [a, b] but [a, b] is not Equal to [a, a].\<close>

theorem viewseq_equal_not_symmetric:
  "let a = NewWithProcesses [Process ''a'']; b = NewWithProcesses [Process ''b''] in
   ViewSeq_Equal [a, a] [a, b] \<and> \<not> ViewSeq_Equal [a, b] [a, a]"
proof -
  let ?a = "NewWithProcesses [Process ''a'']" and ?b = "NewWithProcesses [Process ''b'']"
  have "Members ?a \<noteq> Members ?b" by simp
  then have "?a \<noteq> ?b" by metis
  then show ?thesis by (simp add: ViewSeq_Equal_iff Let_def)
qed

end
