(* ===== verification/Quorum_Counters.thy ===== *)
theory Quorum_Counters
  imports View_Seqs
begin

text \<open>
  The messages of the view generator and of the reconfiguration, their comparisons, and the
  three quorum counters that tally them (\<^verbatim>\<open>viewSeqQuorumCounterType\<close> and
  \<^verbatim>\<open>seqConvQuorumCounterType\<close> in \<^verbatim>\<open>viewgenerator.go\<close>, \<^verbatim>\<open>installSeqQuorumCounterType\<close> in
  \<^verbatim>\<open>reconfiguration.go\<close>). The locale \<open>quorum_counter\<close> is the contract their callers rely
  on: a counter reports a quorum for a message exactly once, at the message that completes
  it. All three counters are interpreted; the first one needs that no sender repeats a
  message, and a theorem shows what happens when one does.
\<close>

section \<open>Messages\<close>

record ViewSeqMsg =
  vsm_Sender :: Process
  vsm_AssociatedView :: View
  vsm_ProposedSeq :: ViewSeq
  vsm_LastConvergedSeq :: ViewSeq

record SeqConv =
  sc_Seq :: ViewSeq

record SeqConvMsg =
  scm_AssociatedView :: View
  scm_SeqConv :: SeqConv

record InstallSeq =
  is_InstallView :: View
  is_ViewSeq :: ViewSeq
  is_AssociatedView :: View

record InstallSeqMsg =
  ism_Sender :: Process
  ism_InstallSeq :: InstallSeq

text \<open>The index loop of \<^verbatim>\<open>SeqConv.Equal\<close> and \<^verbatim>\<open>InstallSeq.Equal\<close>, on sequences of equal length.\<close>

fun seq_equal_loop :: "ViewSeq \<Rightarrow> ViewSeq \<Rightarrow> bool" where
  "seq_equal_loop (v # vs) (w # ws) = (if \<not> View_Equal v w then False else seq_equal_loop vs ws)"
| "seq_equal_loop _ _ = True"

definition SeqConv_Equal :: "SeqConv \<Rightarrow> SeqConv \<Rightarrow> bool" where
  "SeqConv_Equal seqConv seqConv2 =
     (if length (sc_Seq seqConv) \<noteq> length (sc_Seq seqConv2) then False
      else seq_equal_loop (sc_Seq seqConv) (sc_Seq seqConv2))"

definition SameButDifferentSender :: "ViewSeqMsg \<Rightarrow> ViewSeqMsg \<Rightarrow> bool" where
  "SameButDifferentSender this other =
     (if vsm_Sender this = vsm_Sender other then False
      else if \<not> View_Equal (vsm_AssociatedView this) (vsm_AssociatedView other) then False
      else if \<not> ViewSeq_Equal (vsm_ProposedSeq this) (vsm_ProposedSeq other) then False
      else if \<not> ViewSeq_Equal (vsm_LastConvergedSeq this) (vsm_LastConvergedSeq other) then False
      else True)"

definition InstallSeq_Equal :: "InstallSeq \<Rightarrow> InstallSeq \<Rightarrow> bool" where
  "InstallSeq_Equal installSeq installSeq2 =
     (if length (is_ViewSeq installSeq) \<noteq> length (is_ViewSeq installSeq2) then False
      else if View_Equal (is_InstallView installSeq) (is_InstallView installSeq2) then
        (if View_Equal (is_AssociatedView installSeq) (is_AssociatedView installSeq2)
         then seq_equal_loop (is_ViewSeq installSeq) (is_ViewSeq installSeq2)
         else False)
      else False)"

definition InstallSeqMsg_Equal :: "InstallSeqMsg \<Rightarrow> InstallSeqMsg \<Rightarrow> bool" where
  "InstallSeqMsg_Equal m m2 =
     (if ism_Sender m = ism_Sender m2
      then InstallSeq_Equal (ism_InstallSeq m) (ism_InstallSeq m2) else False)"

section \<open>Counters\<close>

record 'm counter =
  qc_list :: "'m list"
  qc_counter :: "nat list"

definition empty_counter :: "'m counter" where
  "empty_counter = \<lparr>qc_list = [], qc_counter = []\<rparr>"

text \<open>
  The loop over the recorded messages, with \<open>same\<close> the comparison of the three counter types:
  the first recorded message that matches has its counter incremented, and the call
  reports whether it just reached the quorum; otherwise the message is recorded.
\<close>

fun match_index :: "('m \<Rightarrow> 'm \<Rightarrow> bool) \<Rightarrow> 'm \<Rightarrow> nat \<Rightarrow> 'm list \<Rightarrow> nat option" where
  "match_index same new i [] = None"
| "match_index same new i (m # ms) =
     (if same m new then Some i else match_index same new (i + 1) ms)"

definition count_by ::
  "('m \<Rightarrow> 'm \<Rightarrow> bool) \<Rightarrow> 'm counter \<Rightarrow> 'm \<Rightarrow> nat \<Rightarrow> bool \<times> 'm counter" where
  "count_by same quorumCounter new quorumSize =
     (case match_index same new 0 (qc_list quorumCounter) of
        Some i \<Rightarrow>
          let c = (qc_counter quorumCounter)[i := qc_counter quorumCounter ! i + 1]
          in (c ! i = quorumSize, quorumCounter\<lparr>qc_counter := c\<rparr>)
      | None \<Rightarrow>
          (1 = quorumSize,
           quorumCounter\<lparr>qc_list := qc_list quorumCounter @ [new],
             qc_counter := qc_counter quorumCounter @ [1]\<rparr>))"

definition viewSeqQuorumCounter_count ::
  "ViewSeqMsg counter \<Rightarrow> ViewSeqMsg \<Rightarrow> nat \<Rightarrow> bool \<times> ViewSeqMsg counter" where
  "viewSeqQuorumCounter_count = count_by SameButDifferentSender"

definition seqConvQuorumCounter_count ::
  "SeqConv counter \<Rightarrow> SeqConv \<Rightarrow> nat \<Rightarrow> bool \<times> SeqConv counter" where
  "seqConvQuorumCounter_count = count_by SeqConv_Equal"

definition installSeqQuorumCounter_count ::
  "InstallSeq counter \<Rightarrow> InstallSeq \<Rightarrow> nat \<Rightarrow> bool \<times> InstallSeq counter" where
  "installSeqQuorumCounter_count = count_by InstallSeq_Equal"

section \<open>The contract of a quorum counter\<close>

text \<open>The state of a counter after a stream of messages.\<close>

fun run_counter :: "('c \<Rightarrow> 'm \<Rightarrow> nat \<Rightarrow> bool \<times> 'c) \<Rightarrow> nat \<Rightarrow> 'c \<Rightarrow> 'm list \<Rightarrow> 'c" where
  "run_counter count q c [] = c"
| "run_counter count q c (m # ms) = run_counter count q (snd (count c m q)) ms"

lemma run_counter_append:
  "run_counter count q c (ms @ ns) = run_counter count q (run_counter count q c ms) ns"
  by (induction ms arbitrary: c) auto

text \<open>
  \<open>agree\<close> is the equivalence on messages a counter is meant to count by, \<open>fits\<close> says that a
  message may be given to the counter in its current state.
\<close>

locale quorum_counter =
  fixes agree :: "'m \<Rightarrow> 'm \<Rightarrow> bool"
    and count :: "'c \<Rightarrow> 'm \<Rightarrow> nat \<Rightarrow> bool \<times> 'c"
    and tally :: "'c \<Rightarrow> 'm \<Rightarrow> nat"
    and start :: 'c
    and invar :: "'c \<Rightarrow> bool"
    and fits :: "'c \<Rightarrow> 'm \<Rightarrow> bool"
  assumes invar_start: "invar start"
    and tally_start: "tally start m = 0"
    and invar_count: "invar c \<Longrightarrow> fits c m \<Longrightarrow> invar (snd (count c m q))"
    and tally_count: "invar c \<Longrightarrow> fits c m \<Longrightarrow>
      tally (snd (count c m q)) m' = tally c m' + (if agree m m' then 1 else 0)"
    and count_fires: "invar c \<Longrightarrow> fits c m \<Longrightarrow> fst (count c m q) \<longleftrightarrow> tally c m + 1 = q"
begin

lemma run_counts:
  assumes "\<And>ns k. ms = ns @ k \<Longrightarrow> k \<noteq> [] \<Longrightarrow> fits (run_counter count q start ns) (hd k)"
  shows "invar (run_counter count q start ms) \<and>
    tally (run_counter count q start ms) m = length (filter (\<lambda>x. agree x m) ms)"
  using assms
proof (induction ms rule: rev_induct)
  case Nil
  then show ?case by (simp add: invar_start tally_start)
next
  case (snoc x xs)
  have "invar (run_counter count q start xs) \<and>
    tally (run_counter count q start xs) m = length (filter (\<lambda>x. agree x m) xs)"
  proof (rule snoc.IH)
    fix ns k assume "xs = ns @ k" "k \<noteq> []"
    then show "fits (run_counter count q start ns) (hd k)"
      using snoc.prems [of ns "k @ [x]"] by simp
  qed
  moreover have "fits (run_counter count q start xs) x"
    using snoc.prems [of xs "[x]"] by simp
  ultimately show ?case by (simp add: run_counter_append invar_count tally_count)
qed

lemma fires_at_quorum:
  assumes "\<And>ns k. ms @ [m] = ns @ k \<Longrightarrow> k \<noteq> [] \<Longrightarrow> fits (run_counter count q start ns) (hd k)"
  shows "fst (count (run_counter count q start ms) m q) \<longleftrightarrow>
    length (filter (\<lambda>x. agree x m) ms) + 1 = q"
proof -
  have "fits (run_counter count q start ms) m" using assms [of ms "[m]"] by simp
  moreover have "invar (run_counter count q start ms) \<and>
    tally (run_counter count q start ms) m = length (filter (\<lambda>x. agree x m) ms)"
  proof (rule run_counts)
    fix ns k assume "ms = ns @ k" "k \<noteq> []"
    then show "fits (run_counter count q start ns) (hd k)" using assms [of ns "k @ [m]"] by simp
  qed
  ultimately show ?thesis by (simp add: count_fires)
qed

end

section \<open>The counting loop meets the contract\<close>

definition tally_by :: "('m \<Rightarrow> 'm \<Rightarrow> bool) \<Rightarrow> 'm counter \<Rightarrow> 'm \<Rightarrow> nat" where
  "tally_by agree c m =
     (\<Sum>j < length (qc_list c). if agree (qc_list c ! j) m then qc_counter c ! j else 0)"

definition counter_invar :: "('m \<Rightarrow> 'm \<Rightarrow> bool) \<Rightarrow> ('m \<Rightarrow> bool) \<Rightarrow> 'm counter \<Rightarrow> bool" where
  "counter_invar agree good c \<longleftrightarrow>
     length (qc_list c) = length (qc_counter c) \<and> (\<forall>m \<in> set (qc_list c). good m) \<and>
     (\<forall>i < length (qc_list c). \<forall>j < length (qc_list c).
        agree (qc_list c ! i) (qc_list c ! j) \<longrightarrow> i = j)"

definition counter_fits ::
  "('m \<Rightarrow> 'm \<Rightarrow> bool) \<Rightarrow> ('m \<Rightarrow> 'm \<Rightarrow> bool) \<Rightarrow> ('m \<Rightarrow> bool) \<Rightarrow> 'm counter \<Rightarrow> 'm \<Rightarrow> bool" where
  "counter_fits same agree good c m \<longleftrightarrow>
     good m \<and> (\<forall>x \<in> set (qc_list c). agree x m \<longrightarrow> same x m)"

lemma match_index_None: "match_index same m i ms = None \<longleftrightarrow> (\<forall>x \<in> set ms. \<not> same x m)"
  by (induction ms arbitrary: i) auto

lemma match_index_Some:
  "match_index same m i ms = Some j \<Longrightarrow> i \<le> j \<and> j - i < length ms \<and> same (ms ! (j - i)) m"
proof (induction ms arbitrary: i)
  case (Cons x xs)
  show ?case
  proof (cases "same x m")
    case False
    with Cons.prems have "match_index same m (i + 1) xs = Some j" by simp
    from Cons.IH [OF this] show ?thesis by (auto simp: nth_Cons' Suc_diff_le)
  qed (use Cons.prems in auto)
qed simp

lemma sum_update_one:
  assumes "i < length ns"
  shows "(\<Sum>j < length ns. if P j then ns[i := ns ! i + 1] ! j else (0::nat)) =
    (\<Sum>j < length ns. if P j then ns ! j else 0) + (if P i then 1 else 0)"
proof -
  have "(if P j then ns[i := ns ! i + 1] ! j else 0) =
      (if P j then ns ! j else 0) + (if j = i then (if P i then 1 else 0) else 0)"
    if "j < length ns" for j using that assms by (auto simp: nth_list_update)
  then have "(\<Sum>j < length ns. if P j then ns[i := ns ! i + 1] ! j else 0) =
      (\<Sum>j < length ns. (if P j then ns ! j else 0) +
        (if j = i then (if P i then 1 else 0) else 0))"
    by (intro sum.cong) auto
  also have "\<dots> = (\<Sum>j < length ns. if P j then ns ! j else 0) + (if P i then 1 else 0)"
    using assms by (simp add: sum.distrib)
  finally show ?thesis .
qed

text \<open>
  What a comparison must offer for the counting loop to meet the contract: on good messages
  a match is an agreement.
\<close>

locale counting =
  fixes same :: "'m \<Rightarrow> 'm \<Rightarrow> bool"
    and agree :: "'m \<Rightarrow> 'm \<Rightarrow> bool"
    and good :: "'m \<Rightarrow> bool"
  assumes agree_refl: "agree m m"
    and agree_sym: "agree m n \<Longrightarrow> agree n m"
    and agree_trans: "agree m n \<Longrightarrow> agree n k \<Longrightarrow> agree m k"
    and same_agree: "good m \<Longrightarrow> good n \<Longrightarrow> same m n \<Longrightarrow> agree m n"
begin

lemma tally_unique:
  assumes "counter_invar agree good c" "i < length (qc_list c)" "agree (qc_list c ! i) m"
  shows "tally_by agree c m = qc_counter c ! i"
proof -
  have "agree (qc_list c ! j) m \<longleftrightarrow> j = i" if "j < length (qc_list c)" for j
    using that assms agree_sym agree_trans unfolding counter_invar_def by blast
  then have "tally_by agree c m =
      (\<Sum>j < length (qc_list c). if j = i then qc_counter c ! i else 0)"
    unfolding tally_by_def by (intro sum.cong) auto
  then show ?thesis using assms(2) by simp
qed

lemma count_match:
  assumes inv: "counter_invar agree good c" and fit: "counter_fits same agree good c m"
    and match: "match_index same m 0 (qc_list c) = Some i"
  shows "i < length (qc_list c)" "agree (qc_list c ! i) m"
    "count_by same c m q = (qc_counter c ! i + 1 = q,
       c\<lparr>qc_counter := (qc_counter c)[i := qc_counter c ! i + 1]\<rparr>)"
proof -
  have i: "i < length (qc_list c)" "same (qc_list c ! i) m"
    using match_index_Some [OF match] by simp_all
  then show "i < length (qc_list c)" by simp
  show "agree (qc_list c ! i) m"
    using i inv fit same_agree by (auto simp: counter_invar_def counter_fits_def)
  show "count_by same c m q = (qc_counter c ! i + 1 = q,
       c\<lparr>qc_counter := (qc_counter c)[i := qc_counter c ! i + 1]\<rparr>)"
    using i inv match by (simp add: count_by_def Let_def counter_invar_def)
qed

lemma count_record:
  assumes inv: "counter_invar agree good c" and fit: "counter_fits same agree good c m"
    and nomatch: "match_index same m 0 (qc_list c) = None"
  shows "\<forall>i < length (qc_list c). \<not> agree (qc_list c ! i) m"
    "count_by same c m q = (1 = q,
       c\<lparr>qc_list := qc_list c @ [m], qc_counter := qc_counter c @ [1]\<rparr>)"
proof -
  show "\<forall>i < length (qc_list c). \<not> agree (qc_list c ! i) m"
    using fit nomatch by (auto simp: counter_fits_def match_index_None)
  show "count_by same c m q = (1 = q,
       c\<lparr>qc_list := qc_list c @ [m], qc_counter := qc_counter c @ [1]\<rparr>)"
    using nomatch by (simp add: count_by_def)
qed

lemma count_by_invar:
  assumes "counter_invar agree good c" "counter_fits same agree good c m"
  shows "counter_invar agree good (snd (count_by same c m q))"
proof (cases "match_index same m 0 (qc_list c)")
  case None
  note rec = count_record [OF assms None]
  have "\<forall>i < length (qc_list c). \<not> agree m (qc_list c ! i)" using rec(1) agree_sym by blast
  with rec assms show ?thesis
    by (auto simp: counter_invar_def counter_fits_def nth_append less_Suc_eq)
next
  case (Some i)
  with count_match [OF assms Some] assms show ?thesis by (simp add: counter_invar_def)
qed

lemma count_by_tally:
  assumes "counter_invar agree good c" "counter_fits same agree good c m"
  shows "tally_by agree (snd (count_by same c m q)) m' =
    tally_by agree c m' + (if agree m m' then 1 else 0)"
proof (cases "match_index same m 0 (qc_list c)")
  case None
  have len: "length (qc_list c) = length (qc_counter c)"
    using assms by (simp add: counter_invar_def)
  then have "(\<Sum>j < length (qc_list c). if agree ((qc_list c @ [m]) ! j) m'
        then (qc_counter c @ [1]) ! j else 0) = tally_by agree c m'"
    unfolding tally_by_def by (intro sum.cong) (auto simp: nth_append)
  with len show ?thesis
    by (simp add: count_record(2) [OF assms None] tally_by_def nth_append cong: if_cong)
next
  case (Some i)
  note m = count_match [OF assms Some]
  have len: "length (qc_list c) = length (qc_counter c)"
    using assms by (simp add: counter_invar_def)
  have "agree (qc_list c ! i) m' \<longleftrightarrow> agree m m'" using m(2) agree_sym agree_trans by blast
  with m len show ?thesis
    using sum_update_one [of i "qc_counter c" "\<lambda>j. agree (qc_list c ! j) m'"]
    by (simp add: tally_by_def cong: if_cong)
qed

lemma count_by_fires:
  assumes "counter_invar agree good c" "counter_fits same agree good c m"
  shows "fst (count_by same c m q) \<longleftrightarrow> tally_by agree c m + 1 = q"
proof (cases "match_index same m 0 (qc_list c)")
  case None
  note rec = count_record [OF assms None]
  have "tally_by agree c m = 0" unfolding tally_by_def using rec(1) by (intro sum.neutral) simp
  with rec(2) show ?thesis by simp
next
  case (Some i)
  with count_match [OF assms Some] tally_unique [OF assms(1)] show ?thesis by simp
qed

end

sublocale counting \<subseteq> quorum_counter agree "count_by same" "tally_by agree" empty_counter
  "counter_invar agree good" "counter_fits same agree good"
proof
  show "counter_invar agree good empty_counter"
    by (simp add: counter_invar_def empty_counter_def)
  show "tally_by agree empty_counter m = 0" for m
    by (simp add: tally_by_def empty_counter_def)
qed (simp_all add: count_by_invar count_by_tally count_by_fires)

lemma set_qc_list_run:
  "set (qc_list (run_counter (count_by same) q c ms)) \<subseteq> set (qc_list c) \<union> set ms"
proof (induction ms arbitrary: c)
  case (Cons m ms)
  have "set (qc_list (snd (count_by same c m q))) \<subseteq> insert m (set (qc_list c))"
    by (auto simp: count_by_def Let_def split: option.splits)
  with Cons.IH [of "snd (count_by same c m q)"] show ?case by auto
qed simp

lemma set_qc_list_run_start:
  "set (qc_list (run_counter (count_by same) q empty_counter ms)) \<subseteq> set ms"
  using set_qc_list_run [of same q empty_counter ms] by (simp add: empty_counter_def)

context counting
begin

text \<open>A stream in which an earlier message that agrees with a later one also matches it.\<close>

lemma fires_stream:
  assumes "\<forall>x \<in> set (ms @ [m]). good x"
    and "\<And>ns x k y. ms @ [m] = ns @ x # k \<Longrightarrow> y \<in> set ns \<Longrightarrow> agree y x \<Longrightarrow> same y x"
  shows "fst (count_by same (run_counter (count_by same) q empty_counter ms) m q) \<longleftrightarrow>
    length (filter (\<lambda>x. agree x m) ms) + 1 = q"
proof (rule fires_at_quorum)
  fix ns k assume eq: "ms @ [m] = ns @ k" and "k \<noteq> []"
  then obtain x k' where k: "k = x # k'" by (cases k) auto
  with eq have "x \<in> set (ms @ [m])" by (metis in_set_conv_decomp)
  moreover have "agree y x \<longrightarrow> same y x"
    if "y \<in> set (qc_list (run_counter (count_by same) q empty_counter ns))" for y
    using that assms(2) [of ns x k' y] eq k set_qc_list_run_start [of same q ns] by blast
  ultimately show "counter_fits same agree good (run_counter (count_by same) q empty_counter ns) (hd k)"
    using assms(1) k by (auto simp: counter_fits_def)
qed

lemma fires_exact:
  assumes "\<forall>x \<in> set (ms @ [m]). good x"
    and exact: "\<And>x y. good x \<Longrightarrow> good y \<Longrightarrow> same x y \<longleftrightarrow> agree x y"
  shows "fst (count_by same (run_counter (count_by same) q empty_counter ms) m q) \<longleftrightarrow>
    length (filter (\<lambda>x. same x m) ms) + 1 = q"
proof -
  have "filter (\<lambda>x. same x m) ms = filter (\<lambda>x. agree x m) ms"
    using assms by (intro filter_cong) auto
  moreover have "fst (count_by same (run_counter (count_by same) q empty_counter ms) m q) \<longleftrightarrow>
    length (filter (\<lambda>x. agree x m) ms) + 1 = q"
  proof (rule fires_stream [OF assms(1)])
    fix ns x k y assume eq: "ms @ [m] = ns @ x # k" and "y \<in> set ns" "agree y x"
    then have "y \<in> set (ms @ [m])" "x \<in> set (ms @ [m])" by simp_all
    with \<open>agree y x\<close> assms show "same y x" by blast
  qed
  ultimately show ?thesis by simp
qed

end

section \<open>The three counters\<close>

text \<open>
  Two messages agree when they carry the same updates in the same places; a good message
  consists of well-formed views, and of sequences without repetition where the comparison
  is insensitive to order.
\<close>

definition SeqConv_agree :: "SeqConv \<Rightarrow> SeqConv \<Rightarrow> bool" where
  "SeqConv_agree m n \<longleftrightarrow> map Entries (sc_Seq m) = map Entries (sc_Seq n)"

definition InstallSeq_agree :: "InstallSeq \<Rightarrow> InstallSeq \<Rightarrow> bool" where
  "InstallSeq_agree m n \<longleftrightarrow>
     Entries (is_InstallView m) = Entries (is_InstallView n) \<and>
     Entries (is_AssociatedView m) = Entries (is_AssociatedView n) \<and>
     map Entries (is_ViewSeq m) = map Entries (is_ViewSeq n)"

definition ViewSeqMsg_agree :: "ViewSeqMsg \<Rightarrow> ViewSeqMsg \<Rightarrow> bool" where
  "ViewSeqMsg_agree m n \<longleftrightarrow>
     Entries (vsm_AssociatedView m) = Entries (vsm_AssociatedView n) \<and>
     Entries ` set (vsm_ProposedSeq m) = Entries ` set (vsm_ProposedSeq n) \<and>
     Entries ` set (vsm_LastConvergedSeq m) = Entries ` set (vsm_LastConvergedSeq n)"

definition good_SeqConv :: "SeqConv \<Rightarrow> bool" where
  "good_SeqConv m \<longleftrightarrow> wf_seq (sc_Seq m)"

definition good_InstallSeq :: "InstallSeq \<Rightarrow> bool" where
  "good_InstallSeq m \<longleftrightarrow>
     wf_view (is_InstallView m) \<and> wf_view (is_AssociatedView m) \<and> wf_seq (is_ViewSeq m)"

definition good_ViewSeqMsg :: "ViewSeqMsg \<Rightarrow> bool" where
  "good_ViewSeqMsg m \<longleftrightarrow>
     wf_view (vsm_AssociatedView m) \<and>
     wf_seq (vsm_ProposedSeq m) \<and> distinct (vsm_ProposedSeq m) \<and>
     wf_seq (vsm_LastConvergedSeq m) \<and> distinct (vsm_LastConvergedSeq m)"

lemma seq_equal_loop_iff:
  assumes "wf_seq vs" "wf_seq ws" "length vs = length ws"
  shows "seq_equal_loop vs ws \<longleftrightarrow> vs = ws"
  using assms(3,1,2) by (induction vs ws rule: list_induct2) auto

lemma map_Entries_inject:
  assumes "wf_seq vs" "wf_seq ws"
  shows "map Entries vs = map Entries ws \<longleftrightarrow> vs = ws"
proof
  assume eq: "map Entries vs = map Entries ws"
  then have "length vs = length ws" by (rule map_eq_imp_length_eq)
  then show "vs = ws" using eq assms
    by (induction vs ws rule: list_induct2) (auto intro: wf_view_eqI)
qed simp

lemma image_Entries_inject:
  assumes "\<forall>v \<in> A. wf_view v" "\<forall>v \<in> B. wf_view v"
  shows "Entries ` A = Entries ` B \<longleftrightarrow> A = B"
proof -
  have "inj_on Entries (A \<union> B)" using assms by (intro inj_onI) (auto intro: wf_view_eqI)
  then show ?thesis by (intro inj_on_image_eq_iff) auto
qed

lemma SeqConv_Equal_iff:
  "good_SeqConv m \<Longrightarrow> good_SeqConv n \<Longrightarrow> SeqConv_Equal m n \<longleftrightarrow> SeqConv_agree m n"
  by (auto simp: SeqConv_Equal_def SeqConv_agree_def good_SeqConv_def
      seq_equal_loop_iff map_Entries_inject)

lemma InstallSeq_Equal_iff:
  "good_InstallSeq m \<Longrightarrow> good_InstallSeq n \<Longrightarrow> InstallSeq_Equal m n \<longleftrightarrow> InstallSeq_agree m n"
  by (auto simp: InstallSeq_Equal_def InstallSeq_agree_def good_InstallSeq_def
      seq_equal_loop_iff map_Entries_inject intro: wf_view_eqI)

lemma SameButDifferentSender_iff:
  "good_ViewSeqMsg m \<Longrightarrow> good_ViewSeqMsg n \<Longrightarrow>
   SameButDifferentSender m n \<longleftrightarrow> vsm_Sender m \<noteq> vsm_Sender n \<and> ViewSeqMsg_agree m n"
  by (auto simp: SameButDifferentSender_def ViewSeqMsg_agree_def good_ViewSeqMsg_def
      ViewSeq_Equal_distinct image_Entries_inject intro: wf_view_eqI)

interpretation sc: counting SeqConv_Equal SeqConv_agree good_SeqConv
  by unfold_locales (auto simp: SeqConv_Equal_iff, auto simp: SeqConv_agree_def)

interpretation isc: counting InstallSeq_Equal InstallSeq_agree good_InstallSeq
  by unfold_locales (auto simp: InstallSeq_Equal_iff, auto simp: InstallSeq_agree_def)

interpretation vs: counting SameButDifferentSender ViewSeqMsg_agree good_ViewSeqMsg
  by unfold_locales (auto simp: SameButDifferentSender_iff, auto simp: ViewSeqMsg_agree_def)

lemma agreeing_senders_distinct:
  assumes "\<And>ns x k y. xs = ns @ x # k \<Longrightarrow> y \<in> set ns \<Longrightarrow> ViewSeqMsg_agree y x
      \<Longrightarrow> vsm_Sender y \<noteq> vsm_Sender x"
  shows "distinct (map vsm_Sender (filter (\<lambda>x. ViewSeqMsg_agree x m) xs))"
  using assms
proof (induction xs rule: rev_induct)
  case (snoc x xs)
  have IH: "distinct (map vsm_Sender (filter (\<lambda>x. ViewSeqMsg_agree x m) xs))"
  proof (rule snoc.IH)
    fix ns z k y assume "xs = ns @ z # k" "y \<in> set ns" "ViewSeqMsg_agree y z"
    then show "vsm_Sender y \<noteq> vsm_Sender z" using snoc.prems [of ns z "k @ [x]" y] by simp
  qed
  have "vsm_Sender x \<notin> vsm_Sender ` set (filter (\<lambda>x. ViewSeqMsg_agree x m) xs)"
    if "ViewSeqMsg_agree x m"
  proof
    assume "vsm_Sender x \<in> vsm_Sender ` set (filter (\<lambda>x. ViewSeqMsg_agree x m) xs)"
    then obtain y where "y \<in> set xs" "ViewSeqMsg_agree y m" "vsm_Sender y = vsm_Sender x" by auto
    with snoc.prems [of xs x "[]" y] that vs.agree_sym vs.agree_trans show False by blast
  qed
  with IH show ?case by simp
qed simp

lemma senders_distinct:
  assumes "\<And>ns x k y. ms @ [m] = ns @ x # k \<Longrightarrow> y \<in> set ns \<Longrightarrow> ViewSeqMsg_agree y x
      \<Longrightarrow> vsm_Sender y \<noteq> vsm_Sender x"
  shows "card (vsm_Sender ` {x \<in> set (ms @ [m]). ViewSeqMsg_agree x m}) =
      length (filter (\<lambda>x. ViewSeqMsg_agree x m) ms) + 1"
proof -
  let ?f = "filter (\<lambda>x. ViewSeqMsg_agree x m) (ms @ [m])"
  have "distinct (map vsm_Sender ?f)" using agreeing_senders_distinct assms by blast
  then have "card (vsm_Sender ` set ?f) = length ?f" by (rule card_image_distinct_map)
  moreover have "{x \<in> set (ms @ [m]). ViewSeqMsg_agree x m} = set ?f" by auto
  ultimately show ?thesis by (simp add: vs.agree_refl)
qed

section \<open>Properties\<close>

text \<open>The seq-conv and install-seq counters announce a quorum exactly once per content: a
  message is answered with true if and only if it is the quorumSize-th message received with
  that content, whatever else was received in between.\<close>

theorem equal_counters_fire_once:
  assumes "\<forall>x \<in> set (ms @ [m]). good_SeqConv x" "\<forall>x \<in> set (ns @ [n]). good_InstallSeq x"
  shows "(fst (seqConvQuorumCounter_count
            (run_counter seqConvQuorumCounter_count q empty_counter ms) m q) \<longleftrightarrow>
          length (filter (\<lambda>x. SeqConv_Equal x m) ms) + 1 = q) \<and>
    (fst (installSeqQuorumCounter_count
            (run_counter installSeqQuorumCounter_count q empty_counter ns) n q) \<longleftrightarrow>
          length (filter (\<lambda>x. InstallSeq_Equal x n) ns) + 1 = q)"
  using assms sc.fires_exact [of ms m q] isc.fires_exact [of ns n q]
  by (simp add: seqConvQuorumCounter_count_def installSeqQuorumCounter_count_def
      SeqConv_Equal_iff InstallSeq_Equal_iff)

theorem equal_counters_fire_once_witness:
  "let v = NewWithProcesses [Process ''a'']; m = \<lparr>sc_Seq = [v]\<rparr>;
       n = \<lparr>is_InstallView = v, is_ViewSeq = [v], is_AssociatedView = v\<rparr> in
   fst (seqConvQuorumCounter_count
     (run_counter seqConvQuorumCounter_count 2 empty_counter [m]) m 2) \<and>
   \<not> fst (installSeqQuorumCounter_count
     (run_counter installSeqQuorumCounter_count 2 empty_counter [n, n]) n 2)"
proof -
  let ?v = "NewWithProcesses [Process ''a'']"
  let ?m = "\<lparr>sc_Seq = [?v]\<rparr>"
  let ?n = "\<lparr>is_InstallView = ?v, is_ViewSeq = [?v], is_AssociatedView = ?v\<rparr>"
  have "good_SeqConv ?m" "good_InstallSeq ?n" by (simp_all add: good_SeqConv_def good_InstallSeq_def)
  moreover have "SeqConv_Equal ?m ?m" "InstallSeq_Equal ?n ?n"
    by (simp_all add: SeqConv_Equal_def InstallSeq_Equal_def)
  ultimately show ?thesis
    using equal_counters_fire_once [of "[?m]" ?m "[?n, ?n]" ?n 2] by (simp add: Let_def)
qed

text \<open>The view-seq counter counts senders as long as no sender repeats a message: it answers
  true exactly for the message that brings the number of processes that sent this content
  to the quorum size.\<close>

theorem viewseq_counter_counts_senders:
  assumes good: "\<forall>x \<in> set (ms @ [m]). good_ViewSeqMsg x"
    and once: "\<And>ns x k y. ms @ [m] = ns @ x # k \<Longrightarrow> y \<in> set ns \<Longrightarrow> ViewSeqMsg_agree y x
      \<Longrightarrow> vsm_Sender y \<noteq> vsm_Sender x"
  shows "fst (viewSeqQuorumCounter_count
      (run_counter viewSeqQuorumCounter_count q empty_counter ms) m q) \<longleftrightarrow>
    card (vsm_Sender ` {x \<in> set (ms @ [m]). ViewSeqMsg_agree x m}) = q"
proof -
  have "fst (count_by SameButDifferentSender
      (run_counter (count_by SameButDifferentSender) q empty_counter ms) m q) \<longleftrightarrow>
    length (filter (\<lambda>x. ViewSeqMsg_agree x m) ms) + 1 = q"
  proof (rule vs.fires_stream [OF good])
    fix ns x k y
    assume eq: "ms @ [m] = ns @ x # k" and y: "y \<in> set ns" and "ViewSeqMsg_agree y x"
    moreover from eq y have "y \<in> set (ms @ [m])" "x \<in> set (ms @ [m])" by simp_all
    ultimately show "SameButDifferentSender y x"
      using good once by (auto simp: SameButDifferentSender_iff)
  qed
  moreover have "card (vsm_Sender ` {x \<in> set (ms @ [m]). ViewSeqMsg_agree x m}) =
      length (filter (\<lambda>x. ViewSeqMsg_agree x m) ms) + 1"
    using senders_distinct [of ms m] once by simp
  ultimately show ?thesis by (simp add: viewSeqQuorumCounter_count_def)
qed

theorem viewseq_counter_counts_senders_witness:
  "let v = NewWithProcesses [Process ''a''];
       m = (\<lambda>p. \<lparr>vsm_Sender = p, vsm_AssociatedView = v, vsm_ProposedSeq = [v],
                  vsm_LastConvergedSeq = []\<rparr>) in
   fst (viewSeqQuorumCounter_count
     (run_counter viewSeqQuorumCounter_count 2 empty_counter [m (Process ''a'')]) (m (Process ''b'')) 2)"
proof -
  let ?v = "NewWithProcesses [Process ''a'']"
  let ?m = "\<lambda>p. \<lparr>vsm_Sender = p, vsm_AssociatedView = ?v, vsm_ProposedSeq = [?v],
                  vsm_LastConvergedSeq = []\<rparr>"
  have set_eq: "{x \<in> set ([?m (Process ''a'')] @ [?m (Process ''b'')]). ViewSeqMsg_agree x (?m (Process ''b''))}
      = {?m (Process ''a''), ?m (Process ''b'')}"
    by (auto simp: ViewSeqMsg_agree_def)
  have "fst (viewSeqQuorumCounter_count
     (run_counter viewSeqQuorumCounter_count 2 empty_counter [?m (Process ''a'')]) (?m (Process ''b'')) 2)
     \<longleftrightarrow> card (vsm_Sender ` {x \<in> set ([?m (Process ''a'')] @ [?m (Process ''b'')]).
           ViewSeqMsg_agree x (?m (Process ''b''))}) = 2"
    by (rule viewseq_counter_counts_senders)
      (auto simp: good_ViewSeqMsg_def Cons_eq_append_conv)
  then show ?thesis unfolding set_eq by (simp add: Let_def)
qed

text \<open>The view-seq counter does not remember who it counted: with a quorum size of three, one
  message of process a and the same message sent twice by process b already report a
  quorum, although only two processes sent it.\<close>

theorem viewseq_counter_counts_duplicates:
  "let v = NewWithProcesses [Process ''a''];
       m = (\<lambda>p. \<lparr>vsm_Sender = p, vsm_AssociatedView = v, vsm_ProposedSeq = [v],
                  vsm_LastConvergedSeq = []\<rparr>);
       ms = [m (Process ''a''), m (Process ''b'')]
   in fst (viewSeqQuorumCounter_count
        (run_counter viewSeqQuorumCounter_count 3 empty_counter ms) (m (Process ''b'')) 3) \<and>
      card (vsm_Sender ` set (ms @ [m (Process ''b'')])) = 2"
  by (simp add: Let_def viewSeqQuorumCounter_count_def count_by_def empty_counter_def
      SameButDifferentSender_def ViewSeq_Equal_def card_insert_if)

end
