(* ===== verification/View_Generator.thy ===== *)
theory View_Generator
  imports Quorum_Counters
begin

text \<open>
  The view generator without consensus: \<^verbatim>\<open>viewGeneratorWorker\<close> of
  \<^verbatim>\<open>pkg/server/viewgenerator.go\<close>. A worker is the goroutine of one associated view; its local
  variables are the record \<open>Worker\<close>, each job it takes from its channel is a function from
  the worker to the worker and the list of things it sends, in order. \<open>worker_inv\<close> is the
  invariant of the worker, \<open>good_msg\<close> the one of the messages; the theorems show that
  workers fed with good messages only send good messages.
\<close>

section \<open>The worker\<close>

record Worker =
  w_AssociatedView :: View
  lastProposedSeq :: ViewSeq
  lastConvergedSeq :: ViewSeq
  viewSeqQuorumCounter :: "ViewSeqMsg counter"
  seqConvQuorumCounter :: "SeqConv counter"

text \<open>
  What a worker sends: view sequences to the other members, converged sequences to all
  members, and the generated sequence to the server's own channel.
\<close>

datatype vg_out =
    BroadcastViewSequence View ViewSeqMsg
  | BroadcastViewSequenceConv View SeqConvMsg
  | GeneratedViewSeqOut View ViewSeq

definition countViewSeq :: "Worker \<Rightarrow> ViewSeqMsg \<Rightarrow> vg_out list \<times> Worker" where
  "countViewSeq w viewSeqMsg =
     (case viewSeqQuorumCounter_count (viewSeqQuorumCounter w) viewSeqMsg
             (QuorumSize (w_AssociatedView w)) of
        (quorum, c) \<Rightarrow>
          let w1 = w\<lparr>viewSeqQuorumCounter := c\<rparr> in
          if quorum then
            let newConvergedSeq = vsm_ProposedSeq viewSeqMsg;
                seqConvMsg = \<lparr>scm_AssociatedView = w_AssociatedView w,
                              scm_SeqConv = \<lparr>sc_Seq = newConvergedSeq\<rparr>\<rparr>
            in ([BroadcastViewSequenceConv (w_AssociatedView w) seqConvMsg],
                w1\<lparr>lastConvergedSeq := newConvergedSeq\<rparr>)
          else ([], w1))"

definition startWorker :: "Process \<Rightarrow> View \<Rightarrow> ViewSeq \<Rightarrow> vg_out list \<times> Worker" where
  "startWorker thisProcess associatedView initialSeq =
     (let w = \<lparr>w_AssociatedView = associatedView, lastProposedSeq = [], lastConvergedSeq = [],
               viewSeqQuorumCounter = empty_counter, seqConvQuorumCounter = empty_counter\<rparr> in
      if length initialSeq \<noteq> 0 then
        let viewSeqMsg = \<lparr>vsm_Sender = thisProcess, vsm_AssociatedView = associatedView,
                          vsm_ProposedSeq = initialSeq, vsm_LastConvergedSeq = []\<rparr>
        in case countViewSeq w viewSeqMsg of
             (out, w1) \<Rightarrow> (BroadcastViewSequence associatedView viewSeqMsg # out,
                           w1\<lparr>lastProposedSeq := initialSeq\<rparr>)
      else ([], w))"

fun conflict_loop :: "View \<Rightarrow> ViewSeq \<Rightarrow> bool" where
  "conflict_loop v [] = False"
| "conflict_loop v (v2 # vs) =
     (if LessUpdatedThan v v2 \<and> LessUpdatedThan v2 v then True else conflict_loop v vs)"

text \<open>\<^verbatim>\<open>OuterLoop\<close>: the pair of \<^verbatim>\<open>hasChanges\<close> and \<^verbatim>\<open>hasConflict\<close> when the loop ends.\<close>

fun changes_loop :: "ViewSeq \<Rightarrow> bool \<Rightarrow> ViewSeq \<Rightarrow> bool \<times> bool" where
  "changes_loop lastProposed hasChanges [] = (hasChanges, False)"
| "changes_loop lastProposed hasChanges (v # vs) =
     (if ViewSeq_HasView lastProposed v then changes_loop lastProposed hasChanges vs
      else if conflict_loop v lastProposed then (True, True)
      else changes_loop lastProposed True vs)"

text \<open>The sequence to propose and the converged sequence to keep when there are changes.\<close>

definition newProposal :: "Worker \<Rightarrow> ViewSeqMsg \<Rightarrow> bool \<Rightarrow> ViewSeq \<times> ViewSeq" where
  "newProposal w received hasConflict =
     (if hasConflict then
        let receivedLastConvergedSeqMostUpdatedView =
              GetMostUpdatedView (vsm_LastConvergedSeq received);
            thisProcessLastConvergedSeqMostUpdatedView = GetMostUpdatedView (lastConvergedSeq w);
            converged =
              (if LessUpdatedThan thisProcessLastConvergedSeqMostUpdatedView
                    receivedLastConvergedSeqMostUpdatedView
               then vsm_LastConvergedSeq received else lastConvergedSeq w);
            oldMostUpdated = GetMostUpdatedView (lastProposedSeq w);
            receivedMostUpdated = GetMostUpdatedView (vsm_ProposedSeq received);
            updates = GetUpdates oldMostUpdated @ GetUpdates receivedMostUpdated;
            auxView = NewWithUpdates updates
        in (ViewSeq_Append converged [auxView], converged)
      else (ViewSeq_Append (lastProposedSeq w) (vsm_ProposedSeq received), lastConvergedSeq w))"

definition onViewSeqMsg :: "Process \<Rightarrow> Worker \<Rightarrow> ViewSeqMsg \<Rightarrow> vg_out list \<times> Worker" where
  "onViewSeqMsg thisProcess w received =
     (case changes_loop (lastProposedSeq w) False (vsm_ProposedSeq received) of
        (hasChanges, hasConflict) \<Rightarrow>
          (let (out, w2) =
             (if hasChanges then
                (case newProposal w received hasConflict of
                   (newProposeSeq, converged) \<Rightarrow>
                     let w1 = w\<lparr>lastConvergedSeq := converged\<rparr>;
                         viewSeqMsg = \<lparr>vsm_Sender = thisProcess,
                           vsm_AssociatedView = w_AssociatedView w,
                           vsm_ProposedSeq = newProposeSeq, vsm_LastConvergedSeq = converged\<rparr>
                     in (case countViewSeq w1 viewSeqMsg of
                           (o1, w2) \<Rightarrow> (BroadcastViewSequence (w_AssociatedView w) viewSeqMsg # o1,
                                        w2\<lparr>lastProposedSeq := newProposeSeq\<rparr>)))
              else ([], w))
           in case countViewSeq w2 received of (o2, w3) \<Rightarrow> (out @ o2, w3)))"

definition onSeqConv :: "Worker \<Rightarrow> SeqConv \<Rightarrow> vg_out list \<times> Worker" where
  "onSeqConv w received =
     (case seqConvQuorumCounter_count (seqConvQuorumCounter w) received
             (QuorumSize (w_AssociatedView w)) of
        (quorum, c) \<Rightarrow>
          (if quorum then [GeneratedViewSeqOut (w_AssociatedView w) (sc_Seq received)] else [],
           w\<lparr>seqConvQuorumCounter := c\<rparr>))"

text \<open>The jobs of a worker's channel and one turn of its loop.\<close>

datatype vg_job = ViewSeqJob ViewSeqMsg | SeqConvJob SeqConv

fun worker_step :: "Process \<Rightarrow> Worker \<Rightarrow> vg_job \<Rightarrow> vg_out list \<times> Worker" where
  "worker_step thisProcess w (ViewSeqJob received) = onViewSeqMsg thisProcess w received"
| "worker_step thisProcess w (SeqConvJob received) = onSeqConv w received"

fun worker_run :: "Process \<Rightarrow> Worker \<Rightarrow> vg_job list \<Rightarrow> vg_out list \<times> Worker" where
  "worker_run thisProcess w [] = ([], w)"
| "worker_run thisProcess w (j # js) =
     (case worker_step thisProcess w j of (o1, w1) \<Rightarrow>
      case worker_run thisProcess w1 js of (o2, w2) \<Rightarrow> (o1 @ o2, w2))"

text \<open>\<^verbatim>\<open>assertOnlyUpdatedViews\<close>: \<open>False\<close> is the \<^verbatim>\<open>log.Fatalf\<close> exit.\<close>

fun assertOnlyUpdatedViews :: "View \<Rightarrow> ViewSeq \<Rightarrow> bool" where
  "assertOnlyUpdatedViews baseView [] = True"
| "assertOnlyUpdatedViews baseView (loopView # vs) =
     (if LessUpdatedThan loopView baseView then False else assertOnlyUpdatedViews baseView vs)"

lemma assertOnlyUpdatedViews_iff:
  "assertOnlyUpdatedViews v seq \<longleftrightarrow> (\<forall>w \<in> set seq. \<not> LessUpdatedThan w v)"
  by (induction seq) auto

section \<open>Invariants\<close>

text \<open>The most updated view of the second sequence contains every view of the first.\<close>

definition dominated :: "ViewSeq \<Rightarrow> ViewSeq \<Rightarrow> bool" where
  "dominated conv ps \<longleftrightarrow> (\<forall>c \<in> set conv. Entries c \<subseteq> Entries (GetMostUpdatedView ps))"

definition good_seq :: "ViewSeq \<Rightarrow> bool" where
  "good_seq seq \<longleftrightarrow> wf_seq seq \<and> distinct seq \<and> chain_seq seq"

definition good_msg :: "ViewSeqMsg \<Rightarrow> bool" where
  "good_msg m \<longleftrightarrow>
     wf_view (vsm_AssociatedView m) \<and> good_seq (vsm_ProposedSeq m) \<and> vsm_ProposedSeq m \<noteq> [] \<and>
     good_seq (vsm_LastConvergedSeq m) \<and> dominated (vsm_LastConvergedSeq m) (vsm_ProposedSeq m)"

definition worker_inv :: "Worker \<Rightarrow> bool" where
  "worker_inv w \<longleftrightarrow>
     wf_view (w_AssociatedView w) \<and> good_seq (lastProposedSeq w) \<and>
     good_seq (lastConvergedSeq w) \<and> dominated (lastConvergedSeq w) (lastProposedSeq w)"

fun good_out :: "vg_out \<Rightarrow> bool" where
  "good_out (BroadcastViewSequence v m) = good_msg m"
| "good_out (BroadcastViewSequenceConv v m) =
     (wf_view (scm_AssociatedView m) \<and> good_seq (sc_Seq (scm_SeqConv m)) \<and>
      sc_Seq (scm_SeqConv m) \<noteq> [])"
| "good_out (GeneratedViewSeqOut v seq) = (wf_view v \<and> good_seq seq \<and> seq \<noteq> [])"

fun good_job :: "vg_job \<Rightarrow> bool" where
  "good_job (ViewSeqJob m) = good_msg m"
| "good_job (SeqConvJob sc) = (good_seq (sc_Seq sc) \<and> sc_Seq sc \<noteq> [])"

lemma conflict_loop_iff:
  "conflict_loop v seq \<longleftrightarrow> (\<exists>v2 \<in> set seq. LessUpdatedThan v v2 \<and> LessUpdatedThan v2 v)"
  by (induction seq) auto

lemma changes_loop_iff:
  "changes_loop lp ch vs = (ch', cf) \<Longrightarrow>
   (cf \<longleftrightarrow> (\<exists>v \<in> set vs. \<not> ViewSeq_HasView lp v \<and> conflict_loop v lp)) \<and>
   (ch' \<longleftrightarrow> ch \<or> (\<exists>v \<in> set vs. \<not> ViewSeq_HasView lp v))"
  by (induction vs arbitrary: ch) (auto split: if_splits)

lemma good_seqD:
  assumes "good_seq seq"
  shows "wf_seq seq" "distinct seq" "chain_seq seq"
  using assms by (auto simp: good_seq_def)

lemma good_seq_Nil [simp]: "good_seq []"
  by (simp add: good_seq_def chain_seq_def)

lemma dominated_Nil [simp]: "dominated [] seq"
  by (simp add: dominated_def)

lemma dominated_mono:
  assumes "dominated conv ps" "Entries (GetMostUpdatedView ps) \<subseteq> Entries (GetMostUpdatedView ps')"
  shows "dominated conv ps'"
  using assms by (auto simp: dominated_def)

lemma dominated_subset:
  assumes "good_seq ps" "set seq \<subseteq> set ps"
  shows "dominated seq ps"
  using assms GetMostUpdatedView_greatest [of ps] unfolding dominated_def good_seq_def by blast

lemma good_seq_append:
  assumes "good_seq p" "good_seq r"
    and "\<not> (\<exists>v \<in> set r. \<not> ViewSeq_HasView p v \<and> conflict_loop v p)"
  shows "good_seq (ViewSeq_Append p r)"
proof -
  note wf = good_seqD(1) [OF assms(1)] good_seqD(1) [OF assms(2)]
  have "Entries v \<subseteq> Entries w \<or> Entries w \<subseteq> Entries v" if "v \<in> set r" "w \<in> set p" for v w
  proof (cases "v \<in> set p")
    case True
    with that assms(1) show ?thesis by (simp add: good_seq_def chain_seq_def)
  next
    case False
    with that wf have "\<not> ViewSeq_HasView p v" by (simp add: HasView_iff)
    with that assms(3) have "\<not> conflict_loop v p" by blast
    with that wf show ?thesis by (auto simp: conflict_loop_iff)
  qed
  then have "chain_seq (ViewSeq_Append p r)"
    using assms(1,2) wf unfolding chain_seq_def good_seq_def set_ViewSeq_Append [OF wf] by blast
  then show ?thesis
    using assms wf by (auto simp: good_seq_def distinct_ViewSeq_Append)
qed

lemma good_seq_top:
  assumes "good_seq c" "wf_view t" "\<forall>v \<in> set c. Entries v \<subseteq> Entries t"
  shows "good_seq (ViewSeq_Append c [t])" "Entries (GetMostUpdatedView (ViewSeq_Append c [t])) = Entries t"
proof -
  have wf: "wf_seq c" "wf_seq [t]" using assms by (simp_all add: good_seq_def)
  have "chain_seq (ViewSeq_Append c [t])"
    using assms unfolding chain_seq_def good_seq_def set_ViewSeq_Append [OF wf] by auto
  then show g: "good_seq (ViewSeq_Append c [t])"
    using assms wf by (simp add: good_seq_def distinct_ViewSeq_Append)
  have t: "t \<in> set (ViewSeq_Append c [t])" unfolding set_ViewSeq_Append [OF wf] by simp
  then have "ViewSeq_Append c [t] \<noteq> []" by auto
  from GetMostUpdatedView_in [OF this] have "Entries (GetMostUpdatedView (ViewSeq_Append c [t])) \<subseteq> Entries t"
    using assms unfolding set_ViewSeq_Append [OF wf] by auto
  moreover have "Entries t \<subseteq> Entries (GetMostUpdatedView (ViewSeq_Append c [t]))"
    using GetMostUpdatedView_greatest [OF good_seqD(1) [OF g] good_seqD(3) [OF g] t] .
  ultimately show "Entries (GetMostUpdatedView (ViewSeq_Append c [t])) = Entries t" by blast
qed

text \<open>
  The new proposal is a chain, keeps every converged view below its top, and its top
  contains both the old top and everything received.
\<close>

lemma newProposal_good:
  assumes inv: "worker_inv w" and msg: "good_msg m"
    and loop: "changes_loop (lastProposedSeq w) False (vsm_ProposedSeq m) = (True, conflict)"
    and new: "newProposal w m conflict = (ps, conv)"
  shows "good_seq ps \<and> ps \<noteq> [] \<and> good_seq conv \<and> dominated conv ps \<and>
    Entries (GetMostUpdatedView (lastProposedSeq w)) \<subseteq> Entries (GetMostUpdatedView ps) \<and>
    dominated (vsm_ProposedSeq m) ps"
proof (cases conflict)
  case False
  let ?p = "lastProposedSeq w" and ?r = "vsm_ProposedSeq m"
  have eq: "ps = ViewSeq_Append ?p ?r" "conv = lastConvergedSeq w"
    using new False by (simp_all add: newProposal_def)
  have gp: "good_seq ?p" and gr: "good_seq ?r" and gc: "good_seq conv" and ne: "?r \<noteq> []"
    using inv msg eq by (simp_all add: worker_inv_def good_msg_def)
  have g: "good_seq ps"
    using good_seq_append [OF gp gr] changes_loop_iff [OF loop] False eq by blast
  have sets: "set ?p \<subseteq> set ps" "set ?r \<subseteq> set ps" 
    using eq set_ViewSeq_Append [OF good_seqD(1) [OF gp] good_seqD(1) [OF gr]] by auto
  have "Entries (GetMostUpdatedView ?p) \<subseteq> Entries (GetMostUpdatedView ps)"
  proof (cases "?p = []")
    case True
    then show ?thesis by (simp add: GetMostUpdatedView_def)
  next
    case False
    then show ?thesis
      using GetMostUpdatedView_in [OF False] sets(1)
        GetMostUpdatedView_greatest [OF good_seqD(1) [OF g] good_seqD(3) [OF g]] by blast
  qed
  moreover from this have "dominated conv ps"
    using inv eq by (auto intro: dominated_mono simp: worker_inv_def)
  moreover have "ps \<noteq> []" using sets ne by auto
  ultimately show ?thesis using g gc dominated_subset [OF g sets(2)] by simp
next
  case True
  let ?p = "GetMostUpdatedView (lastProposedSeq w)" and ?r = "GetMostUpdatedView (vsm_ProposedSeq m)"
  let ?aux = "NewWithUpdates (GetUpdates ?p @ GetUpdates ?r)"
  have conv: "conv = lastConvergedSeq w \<or> conv = vsm_LastConvergedSeq m"
    and ps: "ps = ViewSeq_Append conv [?aux]"
    using new True by (auto simp: newProposal_def Let_def)
  have gp: "good_seq (lastProposedSeq w)" and gr: "good_seq (vsm_ProposedSeq m)"
    and gc: "good_seq conv" and ne: "vsm_ProposedSeq m \<noteq> []"
    using inv msg conv by (auto simp: worker_inv_def good_msg_def)
  have aux: "Entries ?aux = Entries ?p \<union> Entries ?r"
    using GetMostUpdatedView_wf [OF good_seqD(1) [OF gp]] GetMostUpdatedView_wf [OF good_seqD(1) [OF gr]]
    by simp
  have below: "\<forall>v \<in> set conv. Entries v \<subseteq> Entries ?aux"
    using conv inv msg unfolding aux by (auto simp: worker_inv_def good_msg_def dominated_def)
  note top = good_seq_top [OF gc NewWithUpdates_wf below]
  have "dominated (vsm_ProposedSeq m) (vsm_ProposedSeq m)" using gr by (simp add: dominated_subset)
  then have "dominated (vsm_ProposedSeq m) ps"
    unfolding dominated_def ps top(2) aux by blast
  moreover have "dominated conv ps" using below unfolding dominated_def ps top(2) .
  moreover have "ps \<noteq> []" using ps by (cases "conv = []") (auto simp: ViewSeq_Append_eq)
  ultimately show ?thesis using top gc aux ps by simp
qed

lemma countViewSeq_inv:
  assumes "worker_inv w" "good_msg m" "dominated (vsm_ProposedSeq m) (lastProposedSeq w)"
  shows "worker_inv (snd (countViewSeq w m)) \<and> (\<forall>x \<in> set (fst (countViewSeq w m)). good_out x) \<and>
    lastProposedSeq (snd (countViewSeq w m)) = lastProposedSeq w \<and>
    w_AssociatedView (snd (countViewSeq w m)) = w_AssociatedView w"
  using assms
  by (auto simp: countViewSeq_def worker_inv_def good_msg_def Let_def split: prod.splits)

lemma dominated_refl: "good_seq seq \<Longrightarrow> dominated seq seq"
  by (simp add: dominated_subset)

lemma dominated_if_no_changes:
  assumes "worker_inv w" "good_msg m"
    and "changes_loop (lastProposedSeq w) False (vsm_ProposedSeq m) = (False, conflict)"
  shows "dominated (vsm_ProposedSeq m) (lastProposedSeq w)"
proof -
  have gp: "good_seq (lastProposedSeq w)" and gr: "good_seq (vsm_ProposedSeq m)"
    using assms by (simp_all add: worker_inv_def good_msg_def)
  have "set (vsm_ProposedSeq m) \<subseteq> set (lastProposedSeq w)"
    using changes_loop_iff [OF assms(3)] HasView_iff [OF good_seqD(1) [OF gp]] good_seqD(1) [OF gr]
    by blast
  with gp show ?thesis by (rule dominated_subset)
qed

text \<open>
  The step that proposes: the worker counts its own new message and then makes it its last
  proposal. Its effect on the invariant is shared by the start of the worker and by the
  answer to a message with new views.
\<close>

definition propose :: "Process \<Rightarrow> Worker \<Rightarrow> ViewSeq \<Rightarrow> ViewSeq \<Rightarrow> vg_out list \<times> Worker" where
  "propose thisProcess w ps conv =
     (let m = \<lparr>vsm_Sender = thisProcess, vsm_AssociatedView = w_AssociatedView w,
               vsm_ProposedSeq = ps, vsm_LastConvergedSeq = conv\<rparr>
      in case countViewSeq (w\<lparr>lastConvergedSeq := conv\<rparr>) m of
           (out, w2) \<Rightarrow> (BroadcastViewSequence (w_AssociatedView w) m # out,
                         w2\<lparr>lastProposedSeq := ps\<rparr>))"

lemma propose_inv:
  assumes "wf_view (w_AssociatedView w)" "good_seq ps" "ps \<noteq> []" "good_seq conv" "dominated conv ps"
  shows "worker_inv (snd (propose p w ps conv)) \<and>
    (\<forall>x \<in> set (fst (propose p w ps conv)). good_out x) \<and>
    lastProposedSeq (snd (propose p w ps conv)) = ps \<and>
    w_AssociatedView (snd (propose p w ps conv)) = w_AssociatedView w"
  using assms dominated_refl [OF assms(2)]
  by (auto simp: propose_def countViewSeq_def Let_def worker_inv_def good_msg_def split: prod.splits)

lemma startWorker_propose:
  "length seq \<noteq> 0 \<Longrightarrow> startWorker p v seq =
     propose p \<lparr>w_AssociatedView = v, lastProposedSeq = [], lastConvergedSeq = [],
       viewSeqQuorumCounter = empty_counter, seqConvQuorumCounter = empty_counter\<rparr> seq []"
  by (simp add: startWorker_def propose_def Let_def)

lemma startWorker_inv:
  assumes "wf_view v" "good_seq seq"
  shows "worker_inv (snd (startWorker p v seq)) \<and>
    (\<forall>x \<in> set (fst (startWorker p v seq)). good_out x) \<and>
    lastProposedSeq (snd (startWorker p v seq)) = seq \<and>
    w_AssociatedView (snd (startWorker p v seq)) = v"
proof (cases "seq = []")
  case True
  with assms show ?thesis by (simp add: startWorker_def worker_inv_def Let_def)
next
  case False
  then show ?thesis
    using propose_inv [of "\<lparr>w_AssociatedView = v, lastProposedSeq = [], lastConvergedSeq = [],
       viewSeqQuorumCounter = empty_counter, seqConvQuorumCounter = empty_counter\<rparr>" seq "[]" p] assms
    by (simp add: startWorker_propose)
qed

lemma onViewSeqMsg_eq:
  "onViewSeqMsg p w m =
     (case changes_loop (lastProposedSeq w) False (vsm_ProposedSeq m) of
        (hasChanges, conflict) \<Rightarrow>
          (let (out, w2) = (if hasChanges then
                 (case newProposal w m conflict of (ps, conv) \<Rightarrow> propose p w ps conv)
               else ([], w))
           in case countViewSeq w2 m of (o2, w3) \<Rightarrow> (out @ o2, w3)))"
  by (simp add: onViewSeqMsg_def propose_def Let_def split: prod.split)

lemma onViewSeqMsg_inv:
  assumes inv: "worker_inv w" and msg: "good_msg m"
  shows "worker_inv (snd (onViewSeqMsg p w m)) \<and>
    (\<forall>x \<in> set (fst (onViewSeqMsg p w m)). good_out x) \<and>
    w_AssociatedView (snd (onViewSeqMsg p w m)) = w_AssociatedView w \<and>
    Entries (GetMostUpdatedView (lastProposedSeq w)) \<subseteq>
      Entries (GetMostUpdatedView (lastProposedSeq (snd (onViewSeqMsg p w m))))"
proof -
  obtain ch cf where loop: "changes_loop (lastProposedSeq w) False (vsm_ProposedSeq m) = (ch, cf)"
    by (cases "changes_loop (lastProposedSeq w) False (vsm_ProposedSeq m)") auto
  show ?thesis
  proof (cases ch)
    case False
    then have "dominated (vsm_ProposedSeq m) (lastProposedSeq w)"
      using dominated_if_no_changes inv msg loop by simp
    from countViewSeq_inv [OF inv msg this] False loop show ?thesis
      by (auto simp: onViewSeqMsg_eq split: prod.splits)
  next
    case True
    obtain ps conv where new: "newProposal w m cf = (ps, conv)" by (cases "newProposal w m cf") auto
    have good: "good_seq ps" "ps \<noteq> []" "good_seq conv" "dominated conv ps"
      "Entries (GetMostUpdatedView (lastProposedSeq w)) \<subseteq> Entries (GetMostUpdatedView ps)"
      "dominated (vsm_ProposedSeq m) ps"
      using newProposal_good [OF inv msg _ new] loop True by simp_all
    obtain out w2 where prp: "propose p w ps conv = (out, w2)" by (cases "propose p w ps conv") auto
    have w2: "worker_inv w2" "\<forall>x \<in> set out. good_out x" "lastProposedSeq w2 = ps"
      "w_AssociatedView w2 = w_AssociatedView w"
      using propose_inv [OF _ good(1-4), of w p] inv [unfolded worker_inv_def] prp by simp_all
    have "dominated (vsm_ProposedSeq m) (lastProposedSeq w2)" using good w2 by simp
    from countViewSeq_inv [OF w2(1) msg this] True loop new prp w2 good show ?thesis
      by (auto simp: onViewSeqMsg_eq split: prod.splits)
  qed
qed

lemma onSeqConv_inv:
  assumes "worker_inv w" "good_seq (sc_Seq sc)" "sc_Seq sc \<noteq> []"
  shows "worker_inv (snd (onSeqConv w sc)) \<and> (\<forall>x \<in> set (fst (onSeqConv w sc)). good_out x) \<and>
    w_AssociatedView (snd (onSeqConv w sc)) = w_AssociatedView w \<and>
    lastProposedSeq (snd (onSeqConv w sc)) = lastProposedSeq w"
  using assms by (auto simp: onSeqConv_def worker_inv_def split: prod.splits)

lemma worker_step_inv:
  assumes "worker_inv w" "good_job j"
  shows "worker_inv (snd (worker_step p w j)) \<and> (\<forall>x \<in> set (fst (worker_step p w j)). good_out x) \<and>
    w_AssociatedView (snd (worker_step p w j)) = w_AssociatedView w \<and>
    Entries (GetMostUpdatedView (lastProposedSeq w)) \<subseteq>
      Entries (GetMostUpdatedView (lastProposedSeq (snd (worker_step p w j))))"
proof (cases j)
  case (ViewSeqJob m)
  with onViewSeqMsg_inv [OF assms(1), of m p] assms(2) show ?thesis by simp
next
  case (SeqConvJob sc)
  with onSeqConv_inv [OF assms(1), of sc] assms(2) show ?thesis by simp
qed

lemma worker_run_inv:
  assumes "worker_inv w" "\<forall>j \<in> set js. good_job j"
  shows "worker_inv (snd (worker_run p w js)) \<and> (\<forall>x \<in> set (fst (worker_run p w js)). good_out x) \<and>
    Entries (GetMostUpdatedView (lastProposedSeq w)) \<subseteq>
      Entries (GetMostUpdatedView (lastProposedSeq (snd (worker_run p w js))))"
  using assms
proof (induction js arbitrary: w)
  case (Cons j js)
  obtain o1 w1 where st: "worker_step p w j = (o1, w1)" by (cases "worker_step p w j") auto
  have one: "worker_inv w1" "\<forall>x \<in> set o1. good_out x"
    "Entries (GetMostUpdatedView (lastProposedSeq w)) \<subseteq> Entries (GetMostUpdatedView (lastProposedSeq w1))"
    using worker_step_inv [of w j p] Cons.prems st by simp_all
  with Cons.IH [OF one(1)] Cons.prems(2) st show ?case by (auto split: prod.split)
qed simp

end
