(* ===== verification/Server_State.thy ===== *)
theory Server_State
  imports View_Generator
begin

text \<open>
  \<^verbatim>\<open>pkg/server/server.go\<close>: the state of a server and its creation, with the messages of
  \<^verbatim>\<open>reconfiguration.go\<close> and the \<^verbatim>\<open>Value\<close> of \<^verbatim>\<open>register.go\<close>.

  The record \<open>Server\<close> has the fields of the Go struct and, below them, the local variables of
  the goroutines that \<^verbatim>\<open>New\<close> starts. Channels are lists: a full channel only delays its sender.
  The mutexes appear as what they exclude. \<open>registerLocked\<close> says that the reconfiguration holds
  \<^verbatim>\<open>register.mu\<close>; \<open>installPhase\<close> is where \<^verbatim>\<open>installSeqProcessingLoop\<close> stands, and it holds
  \<^verbatim>\<open>currentViewMu\<close> for writing wherever it waits inside \<^verbatim>\<open>gotInstallSeqQuorum\<close>; \<open>viewReaders\<close>
  counts the request handlers that hold \<^verbatim>\<open>currentViewMu\<close> for reading while they wait for
  \<^verbatim>\<open>register.mu\<close>. The value type of the register is a parameter, and Go's \<^verbatim>\<open>nil\<close> is \<open>None\<close>.
\<close>

section \<open>Values and messages\<close>

record 'a Value =
  Value :: "'a option"
  Timestamp :: int
  ViewRef_of :: ViewRef
  Err :: "go_error option"

text \<open>The zero value of the struct.\<close>

definition zero_Value :: "'a Value" where
  "zero_Value = \<lparr>Value = None, Timestamp = 0, ViewRef_of = ViewRef (replicate 20 0), Err = None\<rparr>"

record ReconfigMsg =
  rm_Update :: Update
  rm_AssociatedView :: View

record 'a SyncStateMsg =
  ssm_Value :: "'a option"
  ssm_Timestamp :: int
  ssm_Recv :: "Update set"
  ssm_AssociatedView :: View

record ViewInstalledMsg =
  vim_InstalledView :: View

record generatedViewSeq =
  gvs_AssociatedView :: View
  gvs_ViewSeq :: ViewSeq

record 'a State =
  finalValue :: "'a Value"
  st_recv :: "Update set"

text \<open>\<open>resultChan\<close> has capacity one: \<open>None\<close> is the empty channel.\<close>

record 'a stateUpdateQuorumType =
  suq_associatedView :: View
  suq_State :: "'a State"
  suq_counter :: nat
  resultChan :: "'a State option"

record viewGeneratorInstance =
  vgi_AssociatedView :: View
  jobChan :: "vg_job list"
  vgi_worker :: Worker

section \<open>The server\<close>

text \<open>
  Where the goroutine \<^verbatim>\<open>installSeqProcessingLoop\<close> stands: at its channel, at one of the two
  locks, at the channel of \<^verbatim>\<open>syncState\<close>, at the channel of view-installed messages (with its
  counter), or nowhere because the process has left or died.
\<close>

datatype installPhase =
    Receiving
  | WaitingViewLock InstallSeq
  | WaitingRegisterLock InstallSeq
  | WaitingState InstallSeq
  | WaitingViewInstalled InstallSeq nat
  | Exited
  | Crashed string

record 'a Server =
  thisProcess :: Process
  useConsensus :: bool
  register :: "'a Value"
  registerLocked :: bool
  currentView :: View
  recv :: "Update set"
  viewGenerators :: "viewGeneratorInstance list"
  registerLockOnce :: bool
  generatedViewSeqChan :: "generatedViewSeq list"
  installSeqProcessingChan :: "InstallSeqMsg list"
  syncStateMsgChan :: "'a SyncStateMsg list"
  newViewInstalledChan :: "ViewInstalledMsg list"
  viewReaders :: nat
  installPhase :: installPhase
  processToInstallSeqMsgMap :: "Process \<Rightarrow> InstallSeqMsg option"
  installSeqQuorumCounter :: "InstallSeq counter"
  stateUpdateQuorumCounterList :: "'a stateUpdateQuorumType list"
  generations :: "(View \<times> ViewSeq) list"
  consensusWaits :: "View list"

text \<open>What a server sends, in the order in which its goroutines start.\<close>

datatype 'a server_out =
    BroadcastReconfigRequest View ReconfigMsg
  | BroadcastInstallSeq View InstallSeqMsg
  | BroadcastStateUpdate View "'a SyncStateMsg"
  | BroadcastViewInstalled View ViewInstalledMsg
  | GeneratorSends vg_out
  | ConsensusPropose View ViewSeq
  | ResetReconfigurationTimer

text \<open>\<^verbatim>\<open>joinLocked\<close> and \<^verbatim>\<open>leave\<close> of \<^verbatim>\<open>reconfiguration.go\<close>: a request to all of the current view.\<close>

definition joinLocked :: "'a Server \<Rightarrow> 'a server_out list" where
  "joinLocked s =
     (let reconfig = \<lparr>rm_Update = Update Join (thisProcess s), rm_AssociatedView = currentView s\<rparr>
      in [BroadcastReconfigRequest (currentView s) reconfig])"

definition leave :: "'a Server \<Rightarrow> 'a server_out list" where
  "leave s =
     (let reconfig = \<lparr>rm_Update = Update Leave (thisProcess s), rm_AssociatedView = currentView s\<rparr>
      in [BroadcastReconfigRequest (currentView s) reconfig])"

text \<open>The struct that \<^verbatim>\<open>New\<close> allocates: its argument \<^verbatim>\<open>useConsensusArg\<close> is not stored.\<close>

definition initServer :: "string \<Rightarrow> View \<Rightarrow> 'a Server" where
  "initServer addr initialView =
     \<lparr>thisProcess = Process addr, useConsensus = False, register = zero_Value,
      registerLocked = False, currentView = initialView, recv = {},
      viewGenerators = [], registerLockOnce = False,
      generatedViewSeqChan = [], installSeqProcessingChan = [],
      syncStateMsgChan = [], newViewInstalledChan = [], viewReaders = 0,
      installPhase = Receiving, processToInstallSeqMsgMap = (\<lambda>_. None),
      installSeqQuorumCounter = empty_counter, stateUpdateQuorumCounterList = [],
      generations = [], consensusWaits = []\<rparr>"

lemma initServer_simps [simp]:
  "thisProcess (initServer addr v) = Process addr" "register (initServer addr v) = zero_Value"
  "registerLocked (initServer addr v) = False" "currentView (initServer addr v) = v"
  "recv (initServer addr v) = {}" "viewGenerators (initServer addr v) = []"
  "registerLockOnce (initServer addr v) = False" "installPhase (initServer addr v) = Receiving"
  "viewReaders (initServer addr v) = 0" "useConsensus (initServer addr v) = False"
  "generatedViewSeqChan (initServer addr v) = []" "generations (initServer addr v) = []"
  "installSeqProcessingChan (initServer addr v) = []" "syncStateMsgChan (initServer addr v) = []"
  "newViewInstalledChan (initServer addr v) = []" "consensusWaits (initServer addr v) = []"
  "stateUpdateQuorumCounterList (initServer addr v) = []"
  "processToInstallSeqMsgMap (initServer addr v) = (\<lambda>_. None)"
  "installSeqQuorumCounter (initServer addr v) = empty_counter"
  by (simp_all add: initServer_def)

text \<open>
  \<^verbatim>\<open>New\<close>, for the address that \<^verbatim>\<open>net.Listen\<close> bound (\<open>None\<close>: it failed) and for whether the
  program already has a server.
\<close>

datatype 'a new_result = ListenError | NewPanics | Created "'a server_out list" "'a Server"

definition NewServer :: "string option \<Rightarrow> bool \<Rightarrow> View \<Rightarrow> bool \<Rightarrow> 'a new_result" where
  "NewServer listenAddr globalServerSet initialView useConsensusArg =
     (case listenAddr of
        None \<Rightarrow> ListenError
      | Some addr \<Rightarrow>
          if globalServerSet then NewPanics
          else
            let s = initServer addr initialView in
            if \<not> HasMember (currentView s) (thisProcess s)
            then Created (joinLocked s) (s\<lparr>registerLocked := True\<rparr>)
            else Created [] s)"

end
