(* ===== verification/Register.thy ===== *)
theory Register
  imports Server_State
begin

text \<open>
  \<^verbatim>\<open>pkg/server/register.go\<close>: the handlers of \<^verbatim>\<open>RegisterService\<close> and the \<^verbatim>\<open>memoryStorage\<close>.

  A handler either replies or waits for a mutex. \<open>RegisterService_Read\<close> and
  \<open>RegisterService_Write\<close> wait for \<^verbatim>\<open>register.mu\<close> while they hold \<^verbatim>\<open>currentViewMu\<close>, which the
  outcome \<open>WaitsForRegister\<close> records. The locale \<open>timestamped_cell\<close> is the contract of a
  cell that keeps the value with the highest timestamp; it is interpreted by the register
  and by every name of the memory storage.
\<close>

section \<open>Handlers\<close>

datatype 'r rpc = Reply 'r | WaitsForView | WaitsForRegister

definition old_view_reply :: "'a Server \<Rightarrow> 'a Value" where
  "old_view_reply s = zero_Value\<lparr>Err := Some (OldViewError (currentView s))\<rparr>"

definition RegisterService_Read :: "'a Server \<Rightarrow> ViewRef \<Rightarrow> 'a Value rpc" where
  "RegisterService_Read s clientViewRef =
     (if installPhase s \<noteq> Receiving then WaitsForView
      else if clientViewRef \<noteq> VRef (currentView s) then Reply (old_view_reply s)
      else if registerLocked s then WaitsForRegister
      else Reply (zero_Value\<lparr>Value := Value (register s), Timestamp := Timestamp (register s)\<rparr>))"

text \<open>The assignment to the register inside \<^verbatim>\<open>Write\<close>.\<close>

definition write_register :: "'a Value \<Rightarrow> 'a Value \<Rightarrow> 'a Value" where
  "write_register reg value =
     (if Timestamp value > Timestamp reg
      then reg\<lparr>Value := Value value, Timestamp := Timestamp value\<rparr> else reg)"

definition RegisterService_Write :: "'a Server \<Rightarrow> 'a Value \<Rightarrow> 'a Value rpc \<times> 'a Server" where
  "RegisterService_Write s value =
     (if installPhase s \<noteq> Receiving then (WaitsForView, s)
      else if ViewRef_of value \<noteq> VRef (currentView s) then (Reply (old_view_reply s), s)
      else if registerLocked s then (WaitsForRegister, s)
      else (Reply zero_Value, s\<lparr>register := write_register (register s) value\<rparr>))"

definition RegisterService_GetCurrentView :: "'a Server \<Rightarrow> View rpc" where
  "RegisterService_GetCurrentView s =
     (if installPhase s \<noteq> Receiving then WaitsForView else Reply (currentView s))"

section \<open>Memory storage\<close>

record 'a RegisterValue =
  rv_Value :: "'a option"
  rv_Timestamp :: "64 word"

definition zero_RegisterValue :: "'a RegisterValue" where
  "zero_RegisterValue = \<lparr>rv_Value = None, rv_Timestamp = 0\<rparr>"

record 'a memoryStorage =
  keyvalues :: "string \<Rightarrow> 'a RegisterValue option"
  storageLocked :: bool

definition newMemoryStorage :: "'a memoryStorage" where
  "newMemoryStorage = \<lparr>keyvalues = (\<lambda>_. None), storageLocked = False\<rparr>"

text \<open>\<open>None\<close> is a call that waits for \<^verbatim>\<open>storageMu\<close>; the error result is always \<^verbatim>\<open>nil\<close>.\<close>

definition memoryStorage_Read :: "'a memoryStorage \<Rightarrow> string \<Rightarrow> 'a RegisterValue option" where
  "memoryStorage_Read s name =
     (if storageLocked s then None
      else case keyvalues s name of
          None \<Rightarrow> Some zero_RegisterValue
        | Some v \<Rightarrow> Some v)"

definition memoryStorage_Write ::
    "'a memoryStorage \<Rightarrow> string \<Rightarrow> 'a RegisterValue \<Rightarrow> 'a memoryStorage option" where
  "memoryStorage_Write s name newValue =
     (if storageLocked s then None
      else
        let currentValue = (case keyvalues s name of None \<Rightarrow> zero_RegisterValue | Some v \<Rightarrow> v) in
        Some (if rv_Timestamp currentValue < rv_Timestamp newValue
              then s\<lparr>keyvalues := (keyvalues s)(name \<mapsto> newValue)\<rparr> else s))"

definition memoryStorage_LockAll :: "'a memoryStorage \<Rightarrow> 'a memoryStorage option" where
  "memoryStorage_LockAll s =
     (if storageLocked s then None else Some (s\<lparr>storageLocked := True\<rparr>))"

definition memoryStorage_UnlockAll :: "'a memoryStorage \<Rightarrow> 'a memoryStorage" where
  "memoryStorage_UnlockAll s = s\<lparr>storageLocked := False\<rparr>"

section \<open>Timestamped cells\<close>

text \<open>
  The contract of a cell written with timestamps: after a write the cell holds the newer of
  the two, the old content winning ties. \<open>avail\<close> is the condition under which a write is
  not made to wait.
\<close>

locale timestamped_cell =
  fixes put :: "'c \<Rightarrow> 'm \<Rightarrow> 'c"
    and avail :: "'c \<Rightarrow> bool"
    and stamp_c :: "'c \<Rightarrow> 't::linorder"
    and val_c :: "'c \<Rightarrow> 'x"
    and stamp_m :: "'m \<Rightarrow> 't"
    and val_m :: "'m \<Rightarrow> 'x"
  assumes put_avail: "avail c \<Longrightarrow> avail (put c m)"
    and put_newer: "avail c \<Longrightarrow> stamp_c c < stamp_m m \<Longrightarrow>
      stamp_c (put c m) = stamp_m m \<and> val_c (put c m) = val_m m"
    and put_older: "avail c \<Longrightarrow> \<not> stamp_c c < stamp_m m \<Longrightarrow>
      stamp_c (put c m) = stamp_c c \<and> val_c (put c m) = val_c c"
begin

lemma avail_fold: "avail c \<Longrightarrow> avail (foldl put c ms)"
  by (induction ms arbitrary: c) (simp_all add: put_avail)

lemma stamp_put: "avail c \<Longrightarrow> stamp_c (put c m) = max (stamp_c c) (stamp_m m)"
  using put_newer [of c m] put_older [of c m] by (cases "stamp_c c < stamp_m m") auto

lemma put_idem:
  assumes "avail c"
  shows "stamp_c (put (put c m) m) = stamp_c (put c m) \<and> val_c (put (put c m) m) = val_c (put c m)"
proof (rule put_older)
  show "avail (put c m)" using assms by (rule put_avail)
  show "\<not> stamp_c (put c m) < stamp_m m" using assms by (simp add: stamp_put)
qed

lemma stamp_fold_Max:
  "avail c \<Longrightarrow> stamp_c (foldl put c ms) = Max (insert (stamp_c c) (stamp_m ` set ms))"
proof (induction ms arbitrary: c)
  case (Cons m ms)
  show ?case
  proof (cases "ms = []")
    case False
    then show ?thesis
      using Cons.IH [of "put c m"] Cons.prems
      by (simp add: put_avail stamp_put Max_insert max.assoc)
  qed (use Cons.prems in \<open>simp add: stamp_put\<close>)
qed simp

text \<open>The cell ends with its old content or with the first of the newest messages.\<close>

lemma fold_content:
  assumes "avail c"
  shows "stamp_c (foldl put c ms) = stamp_c c \<and> val_c (foldl put c ms) = val_c c \<or>
   (\<exists>i < length ms. stamp_c (foldl put c ms) = stamp_m (ms ! i) \<and>
      val_c (foldl put c ms) = val_m (ms ! i) \<and> stamp_c c < stamp_m (ms ! i) \<and>
      (\<forall>j < i. stamp_m (ms ! j) < stamp_m (ms ! i)))"
  using assms
proof (induction ms rule: rev_induct)
  case (snoc m ms)
  let ?d = "foldl put c ms"
  have d: "avail ?d" using snoc.prems by (rule avail_fold)
  show ?case
  proof (cases "stamp_c ?d < stamp_m m")
    case True
    have "stamp_c ?d = Max (insert (stamp_c c) (stamp_m ` set ms))"
      using snoc.prems by (rule stamp_fold_Max)
    with True have "stamp_c c < stamp_m m" "\<forall>j < length ms. stamp_m (ms ! j) < stamp_m m" by auto
    with put_newer [OF d True] show ?thesis
      by (intro disjI2 exI [of _ "length ms"]) (auto simp: nth_append)
  next
    case False
    note old = put_older [OF d False]
    from snoc.IH [OF snoc.prems] show ?thesis
    proof (elim disjE exE conjE)
      fix i assume "i < length ms" "stamp_c ?d = stamp_m (ms ! i)" "val_c ?d = val_m (ms ! i)"
        "stamp_c c < stamp_m (ms ! i)" "\<forall>j < i. stamp_m (ms ! j) < stamp_m (ms ! i)"
      then show ?thesis
        using old by (intro disjI2 exI [of _ i]) (auto simp: nth_append)
    qed (use old in simp)
  qed
qed simp

end

interpretation reg: timestamped_cell write_register "\<lambda>_. True" Timestamp Value Timestamp Value
  by unfold_locales (simp_all add: write_register_def)

text \<open>The cell behind one name of the memory storage.\<close>

definition mem_value :: "string \<Rightarrow> 'a memoryStorage \<Rightarrow> 'a RegisterValue" where
  "mem_value name s = (case keyvalues s name of None \<Rightarrow> zero_RegisterValue | Some v \<Rightarrow> v)"

definition mem_put :: "string \<Rightarrow> 'a memoryStorage \<Rightarrow> 'a RegisterValue \<Rightarrow> 'a memoryStorage" where
  "mem_put name s v = (case memoryStorage_Write s name v of None \<Rightarrow> s | Some t \<Rightarrow> t)"

lemma memoryStorage_Read_eq:
  "memoryStorage_Read s name = (if storageLocked s then None else Some (mem_value name s))"
  by (simp add: memoryStorage_Read_def mem_value_def split: option.split)

lemma memoryStorage_Write_eq:
  "memoryStorage_Write s name v =
     (if storageLocked s then None
      else Some (if rv_Timestamp (mem_value name s) < rv_Timestamp v
                 then s\<lparr>keyvalues := (keyvalues s)(name \<mapsto> v)\<rparr> else s))"
  by (simp add: memoryStorage_Write_def mem_value_def Let_def)

interpretation mem: timestamped_cell "mem_put name" "\<lambda>s. \<not> storageLocked s"
    "\<lambda>s. rv_Timestamp (mem_value name s)" "\<lambda>s. rv_Value (mem_value name s)"
    rv_Timestamp rv_Value for name
  by unfold_locales (simp_all add: mem_put_def memoryStorage_Write_eq mem_value_def)

lemma mem_put_other:
  "other \<noteq> name \<Longrightarrow> mem_value other (foldl (mem_put name) s vs) = mem_value other s"
proof (induction vs arbitrary: s)
  case (Cons v vs)
  have "mem_value other (mem_put name s v) = mem_value other s"
    using Cons.prems by (simp add: mem_put_def memoryStorage_Write_eq mem_value_def)
  with Cons show ?case by simp
qed simp

section \<open>Properties\<close>

definition apply_writes :: "'a Server \<Rightarrow> 'a Value list \<Rightarrow> 'a Server" where
  "apply_writes s vs = foldl (\<lambda>s v. snd (RegisterService_Write s v)) s vs"

lemma apply_writes_eq:
  assumes "installPhase s = Receiving" "\<not> registerLocked s"
    "\<forall>v \<in> set vs. ViewRef_of v = VRef (currentView s)"
  shows "apply_writes s vs = s\<lparr>register := foldl write_register (register s) vs\<rparr>"
  using assms
proof (induction vs arbitrary: s)
  case (Cons v vs)
  have "snd (RegisterService_Write s v) = s\<lparr>register := write_register (register s) v\<rparr>"
    using Cons.prems by (simp add: RegisterService_Write_def)
  with Cons.IH [of "s\<lparr>register := write_register (register s) v\<rparr>"] Cons.prems
  show ?case by (simp add: apply_writes_def)
qed (simp add: apply_writes_def)

text \<open>C18: A server that serves its view answers a read, after any writes of that view, with the
  highest timestamp it was given and with the value of the first write that carried it, or
  with its old content when no write was newer: writes are idempotent and the first of two
  writes with the same timestamp wins.\<close>

theorem register_newest_write_wins:
  assumes "installPhase s = Receiving" "\<not> registerLocked s"
    "\<forall>v \<in> set vs. ViewRef_of v = VRef (currentView s)"
  shows "\<exists>r. RegisterService_Read (apply_writes s vs) (VRef (currentView s)) = Reply r \<and>
    Err r = None \<and> Timestamp r = Max (insert (Timestamp (register s)) (Timestamp ` set vs)) \<and>
    (Timestamp r = Timestamp (register s) \<and> Value r = Value (register s) \<or>
     (\<exists>i < length vs. Timestamp r = Timestamp (vs ! i) \<and> Value r = Value (vs ! i) \<and>
        Timestamp (register s) < Timestamp (vs ! i) \<and>
        (\<forall>j < i. Timestamp (vs ! j) < Timestamp (vs ! i))))"
  using assms reg.stamp_fold_Max [of "register s" vs] reg.fold_content [of "register s" vs]
  by (simp add: apply_writes_eq RegisterService_Read_def zero_Value_def)

theorem register_newest_write_wins_witness:
  "let s = initServer ''a'' (NewWithProcesses [Process ''a'']);
       w = \<lambda>n v. \<lparr>Value = Some v, Timestamp = n,
             ViewRef_of = VRef (NewWithProcesses [Process ''a'']), Err = None\<rparr>
   in \<exists>r. RegisterService_Read (apply_writes s [w 1 (5::nat), w 3 6, w 3 7, w 2 8])
         (VRef (NewWithProcesses [Process ''a''])) = Reply r \<and> Timestamp r = 3"
proof -
  let ?v = "NewWithProcesses [Process ''a'']"
  let ?w = "\<lambda>n v :: nat. \<lparr>Value = Some v, Timestamp = n, ViewRef_of = VRef ?v, Err = None\<rparr>"
  have "Max (insert 0 (Timestamp ` set [?w 1 5, ?w 3 6, ?w 3 7, ?w 2 8])) = 3" by simp
  then show ?thesis
    using register_newest_write_wins [of "initServer ''a'' ?v" "[?w 1 5, ?w 3 6, ?w 3 7, ?w 2 8]"]
    by (auto simp: Let_def zero_Value_def)
qed

text \<open>An unlocked memory storage keeps, under each name, the value with the highest unsigned
  64-bit timestamp written there, the first of equal ones, starting from timestamp 0; names
  do not interfere, and a locked storage makes both operations wait.\<close>

theorem memory_storage_newest_wins:
  assumes "\<not> storageLocked s"
  shows "(\<exists>r. memoryStorage_Read (foldl (mem_put name) s vs) name = Some r \<and>
      rv_Timestamp r = Max (insert (rv_Timestamp (mem_value name s)) (rv_Timestamp ` set vs)) \<and>
      (rv_Value r = rv_Value (mem_value name s) \<or>
       (\<exists>i < length vs. rv_Timestamp r = rv_Timestamp (vs ! i) \<and> rv_Value r = rv_Value (vs ! i) \<and>
          (\<forall>j < i. rv_Timestamp (vs ! j) < rv_Timestamp (vs ! i))))) \<and>
    (other \<noteq> name \<longrightarrow>
      memoryStorage_Read (foldl (mem_put name) s vs) other = memoryStorage_Read s other) \<and>
    (\<exists>t. memoryStorage_LockAll s = Some t \<and> memoryStorage_Read t name = None \<and>
      memoryStorage_Write t name v = None \<and> memoryStorage_UnlockAll t = s)"
proof -
  have "\<not> storageLocked (foldl (mem_put name) s vs)" using assms by (rule mem.avail_fold)
  moreover note mem.stamp_fold_Max [OF assms, where ms = vs and name = name]
    mem.fold_content [OF assms, where ms = vs and name = name]
  ultimately show ?thesis
    using assms
    by (auto simp: memoryStorage_Read_eq mem_put_other memoryStorage_Write_eq
        memoryStorage_LockAll_def memoryStorage_UnlockAll_def)
qed

theorem memory_storage_newest_wins_witness:
  "\<exists>r. memoryStorage_Read (foldl (mem_put ''x'') newMemoryStorage
        [\<lparr>rv_Value = Some (1::nat), rv_Timestamp = 4\<rparr>, \<lparr>rv_Value = Some 2, rv_Timestamp = 3\<rparr>]) ''x'' =
        Some r \<and> rv_Timestamp r = 4"
proof -
  have "Max (insert 0 (rv_Timestamp ` set [\<lparr>rv_Value = Some (1::nat), rv_Timestamp = 4\<rparr>,
      \<lparr>rv_Value = Some 2, rv_Timestamp = 3\<rparr>])) = 4"
    by (simp add: max_def)
  moreover have "\<not> storageLocked (newMemoryStorage :: nat memoryStorage)"
    "mem_value ''x'' (newMemoryStorage :: nat memoryStorage) = zero_RegisterValue"
    by (simp_all add: newMemoryStorage_def mem_value_def)
  ultimately show ?thesis
    using memory_storage_newest_wins [of newMemoryStorage "''x''" "[\<lparr>rv_Value = Some (1::nat), rv_Timestamp = 4\<rparr>,
      \<lparr>rv_Value = Some 2, rv_Timestamp = 3\<rparr>]" "''y''" zero_RegisterValue]
    by (auto simp: zero_RegisterValue_def)
qed

end
