(* ===== verification/Reconfiguration.thy ===== *)
theory Reconfiguration
  imports Register
begin

text \<open>
  \<^verbatim>\<open>pkg/server/reconfiguration.go\<close>, \<^verbatim>\<open>pkg/server/admin.go\<close> and the server's side of
  \<^verbatim>\<open>viewgenerator.go\<close>: the goroutines and request handlers that take a server from one view to
  the next, as functions from a server to what it sends and the server after it. A function
  that waits inside \<^verbatim>\<open>gotInstallSeqQuorum\<close> stops there and records where in \<open>installPhase\<close>; the
  rest of the code after the wait is a function of its own. \<open>server_step\<close> puts all of them
  together: one event is one request, or one turn of one goroutine.
\<close>

type_synonym 'a transition = "'a server_out list \<times> 'a Server"

section \<open>Starting a reconfiguration\<close>

definition hasUpdatesToCurrentView :: "'a Server \<Rightarrow> bool" where
  "hasUpdatesToCurrentView s \<longleftrightarrow> card (recv s) \<noteq> 0"

definition getInitialViewSeq :: "'a Server \<Rightarrow> ViewSeq" where
  "getInitialViewSeq s =
     (let updates = foldl (\<lambda>acc u. acc @ [u]) [] (range_keys (recv s));
          newV = NewCopyWithUpdates (currentView s) updates
      in [newV])"

text \<open>\<^verbatim>\<open>go s.generateViewSequence...\<close>: the goroutine is queued with its arguments.\<close>

definition startReconfiguration :: "'a Server \<Rightarrow> 'a transition" where
  "startReconfiguration s =
     (if \<not> hasUpdatesToCurrentView s then ([ResetReconfigurationTimer], s)
      else if installPhase s \<noteq> Receiving then ([], s)
      else
        let initialViewSeq = getInitialViewSeq s in
        ([], s\<lparr>generations := generations s @ [(currentView s, initialViewSeq)]\<rparr>))"

section \<open>View generators\<close>

fun find_generator :: "View \<Rightarrow> nat \<Rightarrow> viewGeneratorInstance list \<Rightarrow> nat option" where
  "find_generator associatedView i [] = None"
| "find_generator associatedView i (vgi # vgis) =
     (if View_Equal (vgi_AssociatedView vgi) associatedView then Some i
      else find_generator associatedView (i + 1) vgis)"

text \<open>
  The outputs of a worker: broadcasts leave the server, a generated sequence goes into the
  server's own channel.
\<close>

fun emit_worker :: "vg_out list \<Rightarrow> 'a Server \<Rightarrow> 'a transition" where
  "emit_worker [] s = ([], s)"
| "emit_worker (GeneratedViewSeqOut av seq # os) s =
     emit_worker os (s\<lparr>generatedViewSeqChan :=
       generatedViewSeqChan s @ [\<lparr>gvs_AssociatedView = av, gvs_ViewSeq = seq\<rparr>]\<rparr>)"
| "emit_worker (x # os) s =
     (case emit_worker os s of (out, t) \<Rightarrow> (GeneratorSends x # out, t))"

text \<open>
  The index of the generator in the list. A caller that passes \<^verbatim>\<open>nil\<close> (\<open>None\<close>) has a new worker
  start from the server's own updates, which needs \<^verbatim>\<open>currentViewMu\<close>: the result \<open>None\<close> is a
  call that waits for it. The code waits with \<^verbatim>\<open>viewGeneratorsMu\<close> taken, so that other callers
  wait too; the model lets them go on, which gives more interleavings, never fewer.
\<close>

definition getOrCreateViewGenerator ::
    "View \<Rightarrow> ViewSeq option \<Rightarrow> 'a Server \<Rightarrow> (nat \<times> 'a transition) option" where
  "getOrCreateViewGenerator associatedView initialSeq s =
     (case find_generator associatedView 0 (viewGenerators s) of
        Some i \<Rightarrow> Some (i, [], s)
      | None \<Rightarrow>
          if initialSeq = None \<and> installPhase s \<noteq> Receiving then None
          else
            let workerSeq = (case initialSeq of None \<Rightarrow> getInitialViewSeq s | Some seq \<Rightarrow> seq) in
            case startWorker (thisProcess s) associatedView workerSeq of
              (os, w) \<Rightarrow>
                let vgi = \<lparr>vgi_AssociatedView = associatedView, jobChan = [], vgi_worker = w\<rparr>;
                    s1 = s\<lparr>viewGenerators := viewGenerators s @ [vgi]\<rparr>
                in Some (length (viewGenerators s), emit_worker os s1))"

definition generateViewSequenceWithoutConsensus ::
    "View \<Rightarrow> ViewSeq \<Rightarrow> 'a Server \<Rightarrow> 'a transition" where
  "generateViewSequenceWithoutConsensus associatedView seq s =
     (if \<not> assertOnlyUpdatedViews associatedView seq
      then ([], s\<lparr>installPhase := Crashed ''BUG! Found an old view in view sequence''\<rparr>)
      else case getOrCreateViewGenerator associatedView
                  (if seq = [] then None else Some seq) s of
          None \<Rightarrow> ([], s\<lparr>generations := generations s @ [(associatedView, seq)]\<rparr>)
        | Some (i, t) \<Rightarrow> t)"

definition CONSENSUS_LEADER_PROCESS_POSITION :: int where
  "CONSENSUS_LEADER_PROCESS_POSITION = 0"

text \<open>
  The first process of the view proposes; every process then waits for the decision. The
  consensus itself is a parameter here: its decision arrives as \<open>consensusDecided\<close>, with
  \<open>None\<close> for a value of another type than \<^verbatim>\<open>*ViewSeq\<close>.
\<close>

definition generateViewSequenceWithConsensus ::
    "View \<Rightarrow> ViewSeq \<Rightarrow> 'a Server \<Rightarrow> 'a transition" where
  "generateViewSequenceWithConsensus associatedView seq s =
     (if \<not> assertOnlyUpdatedViews associatedView seq
      then ([], s\<lparr>installPhase := Crashed ''BUG! Found an old view in view sequence''\<rparr>)
      else (if GetProcessPosition associatedView (thisProcess s) = CONSENSUS_LEADER_PROCESS_POSITION
              then [ConsensusPropose associatedView seq] else [],
            s\<lparr>consensusWaits := consensusWaits s @ [associatedView]\<rparr>))"

definition consensusDecided :: "View \<Rightarrow> ViewSeq option \<Rightarrow> 'a Server \<Rightarrow> 'a transition" where
  "consensusDecided associatedView value s =
     (if associatedView \<notin> set (consensusWaits s) then ([], s)
      else case value of
          None \<Rightarrow> ([], s\<lparr>installPhase := Crashed ''FATAL: consensus''\<rparr>)
        | Some result \<Rightarrow> ([], s\<lparr>consensusWaits := remove1 associatedView (consensusWaits s),
            generatedViewSeqChan := generatedViewSeqChan s @
              [\<lparr>gvs_AssociatedView = associatedView, gvs_ViewSeq = result\<rparr>]\<rparr>))"

text \<open>A queued \<^verbatim>\<open>go\<close> statement runs.\<close>

definition runGeneration :: "'a Server \<Rightarrow> 'a transition" where
  "runGeneration s =
     (case generations s of [] \<Rightarrow> ([], s)
      | (av, seq) # gs \<Rightarrow>
          let s1 = s\<lparr>generations := gs\<rparr> in
          if useConsensus s then generateViewSequenceWithConsensus av seq s1
          else generateViewSequenceWithoutConsensus av seq s1)"

text \<open>The requests of \<^verbatim>\<open>ViewGeneratorRequest\<close>, and one turn of the worker of a generator.\<close>

definition add_job :: "nat \<Rightarrow> vg_job \<Rightarrow> 'a Server \<Rightarrow> 'a Server" where
  "add_job i j s = s\<lparr>viewGenerators := (viewGenerators s)
     [i := (viewGenerators s ! i)\<lparr>jobChan := jobChan (viewGenerators s ! i) @ [j]\<rparr>]\<rparr>"

definition ProposeSeqView :: "ViewSeqMsg \<Rightarrow> 'a Server \<Rightarrow> 'a transition" where
  "ProposeSeqView arg s =
     (case getOrCreateViewGenerator (vsm_AssociatedView arg) None s of
        None \<Rightarrow> ([], s)
      | Some (i, out, s1) \<Rightarrow> (out, add_job i (ViewSeqJob arg) s1))"

definition SeqConvRequest :: "SeqConvMsg \<Rightarrow> 'a Server \<Rightarrow> 'a transition" where
  "SeqConvRequest arg s =
     (case getOrCreateViewGenerator (scm_AssociatedView arg) None s of
        None \<Rightarrow> ([], s)
      | Some (i, out, s1) \<Rightarrow> (out, add_job i (SeqConvJob (scm_SeqConv arg)) s1))"

definition runWorker :: "nat \<Rightarrow> 'a Server \<Rightarrow> 'a transition" where
  "runWorker i s =
     (if \<not> i < length (viewGenerators s) then ([], s)
      else
        let vgi = viewGenerators s ! i in
        case jobChan vgi of [] \<Rightarrow> ([], s)
        | j # js \<Rightarrow>
            (case worker_step (thisProcess s) (vgi_worker vgi) j of
               (os, w) \<Rightarrow> emit_worker os (s\<lparr>viewGenerators := (viewGenerators s)
                 [i := vgi\<lparr>jobChan := js, vgi_worker := w\<rparr>]\<rparr>)))"

section \<open>Generated sequences\<close>

definition generatedViewSeqProcessing :: "'a Server \<Rightarrow> 'a transition" where
  "generatedViewSeqProcessing s =
     (case generatedViewSeqChan s of [] \<Rightarrow> ([], s)
      | newGeneratedViewSeq # gs \<Rightarrow>
          let s1 = s\<lparr>generatedViewSeqChan := gs\<rparr> in
          case GetLeastUpdatedView (gvs_ViewSeq newGeneratedViewSeq) of
            None \<Rightarrow> ([], s1\<lparr>installPhase := Crashed ''index out of range''\<rparr>)
          | Some leastUpdatedView \<Rightarrow>
              let installSeqMsg = \<lparr>ism_Sender = thisProcess s,
                    ism_InstallSeq = \<lparr>is_InstallView = leastUpdatedView,
                      is_ViewSeq = gvs_ViewSeq newGeneratedViewSeq,
                      is_AssociatedView = gvs_AssociatedView newGeneratedViewSeq\<rparr>\<rparr>;
                  processes = GetMembers (gvs_AssociatedView newGeneratedViewSeq) @
                    GetMembers leastUpdatedView;
                  mergedView = NewWithProcesses processes
              in ([BroadcastInstallSeq mergedView installSeqMsg], s1))"

section \<open>Installing a view\<close>

definition updateCurrentViewLocked :: "View \<Rightarrow> 'a Server \<Rightarrow> 'a Server" where
  "updateCurrentViewLocked newV s =
     (if \<not> MoreUpdatedThan newV (currentView s) then s
      else s\<lparr>currentView := newV\<rparr>)"

fun newer_views :: "View \<Rightarrow> ViewSeq \<Rightarrow> ViewSeq \<Rightarrow> ViewSeq" where
  "newer_views cv newSeq [] = newSeq"
| "newer_views cv newSeq (v # vs) =
     newer_views cv (if MoreUpdatedThan v cv then newSeq @ [v] else newSeq) vs"

definition installOthersViewsFromViewSeqLocked :: "InstallSeq \<Rightarrow> 'a Server \<Rightarrow> 'a Server" where
  "installOthersViewsFromViewSeqLocked installSeq s =
     (let newSeq = newer_views (currentView s) [] (is_ViewSeq installSeq) in
      s\<lparr>generations := generations s @ [(currentView s, newSeq)]\<rparr>)"

text \<open>The state this server sends to the members of the view to install.\<close>

definition syncStateMsg_of :: "InstallSeq \<Rightarrow> 'a Server \<Rightarrow> 'a SyncStateMsg" where
  "syncStateMsg_of installSeq s =
     \<lparr>ssm_Value = Value (register s), ssm_Timestamp = Timestamp (register s),
      ssm_Recv = recv s, ssm_AssociatedView = is_AssociatedView installSeq\<rparr>"

text \<open>\<open>gotInstallSeqQuorum\<close> after the state was sent: an old view ends here, a new one waits.\<close>

definition afterStateSent :: "InstallSeq \<Rightarrow> bool \<Rightarrow> 'a Server \<Rightarrow> 'a Server" where
  "afterStateSent installSeq installViewIsMoreUpdatedThanCv s =
     (if \<not> installViewIsMoreUpdatedThanCv then
        (if HasViewMoreUpdatedThan (is_ViewSeq installSeq) (currentView s)
         then (installOthersViewsFromViewSeqLocked installSeq s)\<lparr>installPhase := Receiving\<rparr>
         else s\<lparr>installPhase := Receiving\<rparr>)
      else if HasMember (is_InstallView installSeq) (thisProcess s)
        then s\<lparr>installPhase := WaitingState installSeq\<rparr>
      else s\<lparr>installPhase := WaitingViewInstalled installSeq 0\<rparr>)"

definition gotInstallSeqQuorum :: "InstallSeq \<Rightarrow> 'a Server \<Rightarrow> 'a transition" where
  "gotInstallSeqQuorum installSeq s =
     (if viewReaders s \<noteq> 0 then ([], s\<lparr>installPhase := WaitingViewLock installSeq\<rparr>)
      else
        let newer = MoreUpdatedThan (is_InstallView installSeq) (currentView s) in
        if HasMember (is_AssociatedView installSeq) (thisProcess s) then
          (if newer \<and> \<not> registerLockOnce s \<and> registerLocked s
           then ([], s\<lparr>installPhase := WaitingRegisterLock installSeq\<rparr>)
           else
             let s1 = (if newer \<and> \<not> registerLockOnce s
                       then s\<lparr>registerLockOnce := True, registerLocked := True\<rparr> else s)
             in ([BroadcastStateUpdate (is_InstallView installSeq) (syncStateMsg_of installSeq s1)],
                 afterStateSent installSeq newer s1))
        else ([], afterStateSent installSeq newer s))"

text \<open>One turn of \<^verbatim>\<open>installSeqProcessingLoop\<close>: a message is relayed and counted once per sender.\<close>

definition installSeqProcessing :: "'a Server \<Rightarrow> 'a transition" where
  "installSeqProcessing s =
     (case installSeqProcessingChan s of [] \<Rightarrow> ([], s)
      | installSeqMsg # ms \<Rightarrow>
          if installPhase s \<noteq> Receiving then ([], s)
          else
            let previous = processToInstallSeqMsgMap s (ism_Sender installSeqMsg);
                s1 = s\<lparr>installSeqProcessingChan := ms,
                       processToInstallSeqMsgMap := (processToInstallSeqMsgMap s)
                         (ism_Sender installSeqMsg \<mapsto> installSeqMsg)\<rparr>
            in
            if (case previous of None \<Rightarrow> False
                | Some previousInstallSeq \<Rightarrow> InstallSeqMsg_Equal previousInstallSeq installSeqMsg)
            then ([], s1)
            else
              let installSeq = ism_InstallSeq installSeqMsg;
                  processes = GetMembers (is_AssociatedView installSeq) @
                    GetMembers (is_InstallView installSeq);
                  mergedView = NewWithProcesses processes
              in
              case installSeqQuorumCounter_count (installSeqQuorumCounter s1) installSeq
                     (QuorumSize (is_AssociatedView installSeq)) of
                (quorum, c) \<Rightarrow>
                  let s2 = s1\<lparr>installSeqQuorumCounter := c\<rparr> in
                  case (if quorum then gotInstallSeqQuorum installSeq s2 else ([], s2)) of
                    (out, s3) \<Rightarrow> (BroadcastInstallSeq mergedView installSeqMsg # out, s3))"

section \<open>State transfer\<close>

definition State_NewCopy :: "'a State \<Rightarrow> 'a State" where
  "State_NewCopy thisState =
     \<lparr>finalValue = zero_Value\<lparr>Value := Value (finalValue thisState),
                               Timestamp := Timestamp (finalValue thisState)\<rparr>,
      st_recv = fold insert (range_keys (st_recv thisState)) {}\<rparr>"

definition new_stateUpdateQuorum :: "View \<Rightarrow> 'a stateUpdateQuorumType" where
  "new_stateUpdateQuorum associatedView =
     \<lparr>suq_associatedView = associatedView,
      suq_State = \<lparr>finalValue = zero_Value\<lparr>Timestamp := - 1\<rparr>, st_recv = {}\<rparr>,
      suq_counter = 0, resultChan = None\<rparr>"

text \<open>\<open>getStateUpdateQuorumCounter\<close>: the position of the first element for the view.\<close>

fun getStateUpdateQuorumCounter ::
    "nat \<Rightarrow> 'a stateUpdateQuorumType list \<Rightarrow> View \<Rightarrow> nat option" where
  "getStateUpdateQuorumCounter i [] associatedView = None"
| "getStateUpdateQuorumCounter i (q # qs) associatedView =
     (if \<not> View_Equal (suq_associatedView q) associatedView
      then getStateUpdateQuorumCounter (i + 1) qs associatedView else Some i)"

text \<open>Find the element for a view or append a new one: its position and the list.\<close>

definition getOrCreateStateUpdateQuorum ::
    "'a stateUpdateQuorumType list \<Rightarrow> View \<Rightarrow> nat \<times> 'a stateUpdateQuorumType list" where
  "getOrCreateStateUpdateQuorum qs associatedView =
     (case getStateUpdateQuorumCounter 0 qs associatedView of
        Some i \<Rightarrow> (i, qs)
      | None \<Rightarrow> (length qs, qs @ [new_stateUpdateQuorum associatedView]))"

definition count_stateUpdate ::
    "'a stateUpdateQuorumType \<Rightarrow> 'a SyncStateMsg \<Rightarrow> 'a stateUpdateQuorumType" where
  "count_stateUpdate q stateUpdate =
     (let q1 = q\<lparr>suq_counter := suq_counter q + 1\<rparr>;
          st = suq_State q1;
          st1 = st\<lparr>st_recv := fold insert (range_keys (ssm_Recv stateUpdate)) (st_recv st)\<rparr>;
          st2 = (if Timestamp (finalValue st1) < ssm_Timestamp stateUpdate
                 then st1\<lparr>finalValue := (finalValue st1)\<lparr>Value := ssm_Value stateUpdate,
                                          Timestamp := ssm_Timestamp stateUpdate\<rparr>\<rparr>
                 else st1);
          q2 = q1\<lparr>suq_State := st2\<rparr>
      in if suq_counter q2 = QuorumSize (ssm_AssociatedView stateUpdate)
         then q2\<lparr>resultChan := Some (State_NewCopy st2)\<rparr> else q2)"

definition stateUpdateProcessing :: "'a Server \<Rightarrow> 'a transition" where
  "stateUpdateProcessing s =
     (case syncStateMsgChan s of [] \<Rightarrow> ([], s)
      | stateUpdate # ms \<Rightarrow>
          (case getOrCreateStateUpdateQuorum (stateUpdateQuorumCounterList s)
                  (ssm_AssociatedView stateUpdate) of
             (i, qs) \<Rightarrow> ([], s\<lparr>syncStateMsgChan := ms, stateUpdateQuorumCounterList :=
                 qs[i := count_stateUpdate (qs ! i) stateUpdate]\<rparr>)))"

text \<open>
  \<open>syncState\<close>, once the state is in the channel. The state is put back into the channel when
  the function returns, so that the channel keeps it.
\<close>

definition apply_state :: "'a State \<Rightarrow> InstallSeq \<Rightarrow> 'a Server \<Rightarrow> 'a Server" where
  "apply_state state installSeq s =
     (let s1 = s\<lparr>recv := fold insert (range_keys (st_recv state)) (recv s)\<rparr>;
          s2 = s1\<lparr>register := (register s1)\<lparr>Value := Value (finalValue state),
                                          Timestamp := Timestamp (finalValue state)\<rparr>\<rparr>
      in s2\<lparr>recv := fold (\<lambda>update r. r - {update}) (GetUpdates (is_InstallView installSeq)) (recv s2)\<rparr>)"

definition requestStateChan :: "View \<Rightarrow> 'a Server \<Rightarrow> 'a State option \<times> 'a Server" where
  "requestStateChan associatedView s =
     (case getOrCreateStateUpdateQuorum (stateUpdateQuorumCounterList s) associatedView of
        (i, qs) \<Rightarrow> (resultChan (qs ! i), s\<lparr>stateUpdateQuorumCounterList := qs\<rparr>))"

text \<open>\<open>gotInstallSeqQuorum\<close> after \<open>syncState\<close> returned.\<close>

definition afterSync :: "InstallSeq \<Rightarrow> 'a Server \<Rightarrow> 'a transition" where
  "afterSync installSeq s =
     (let s1 = updateCurrentViewLocked (is_InstallView installSeq) s;
          viewInstalledMsg = \<lparr>vim_InstalledView = currentView s1\<rparr>;
          processes = GetMembersNotIn (is_AssociatedView installSeq) (is_InstallView installSeq);
          viewOfLeavingProcesses = NewWithProcesses processes;
          sent = BroadcastViewInstalled viewOfLeavingProcesses viewInstalledMsg
      in
      if HasViewMoreUpdatedThan (is_ViewSeq installSeq) (currentView s1)
      then ([sent], (installOthersViewsFromViewSeqLocked installSeq s1)\<lparr>installPhase := Receiving\<rparr>)
      else if \<not> registerLocked s1
        then ([sent], s1\<lparr>installPhase := Crashed ''sync: Unlock of unlocked RWMutex''\<rparr>)
      else
        let s2 = s1\<lparr>registerLocked := False\<rparr>;
            s3 = (if HasMember (is_AssociatedView installSeq) (thisProcess s)
                  then s2\<lparr>registerLockOnce := False\<rparr> else s2)
        in ([sent, ResetReconfigurationTimer], s3\<lparr>installPhase := Receiving\<rparr>))"

definition syncStateReady :: "'a Server \<Rightarrow> 'a transition" where
  "syncStateReady s =
     (case installPhase s of
        WaitingState installSeq \<Rightarrow>
          (case requestStateChan (is_AssociatedView installSeq) s of
             (None, s1) \<Rightarrow> ([], s1)
           | (Some state, s1) \<Rightarrow> afterSync installSeq (apply_state state installSeq s1))
      | _ \<Rightarrow> ([], s))"

text \<open>A process that is not in the new view waits for a quorum of it and exits.\<close>

definition viewInstalledProcessing :: "'a Server \<Rightarrow> 'a transition" where
  "viewInstalledProcessing s =
     (case (installPhase s, newViewInstalledChan s) of
        (WaitingViewInstalled installSeq counter, viewInstalled # ms) \<Rightarrow>
          let s1 = s\<lparr>newViewInstalledChan := ms\<rparr> in
          if View_Equal (is_InstallView installSeq) (vim_InstalledView viewInstalled) then
            (if counter + 1 = QuorumSize (is_InstallView installSeq)
             then ([], s1\<lparr>installPhase := Exited\<rparr>)
             else ([], s1\<lparr>installPhase := WaitingViewInstalled installSeq (counter + 1)\<rparr>))
          else ([], s1)
      | _ \<Rightarrow> ([], s))"

section \<open>Requests\<close>

definition Reconfig :: "ReconfigMsg \<Rightarrow> 'a Server \<Rightarrow> (go_error option) rpc \<times> 'a Server" where
  "Reconfig arg s =
     (if installPhase s \<noteq> Receiving then (WaitsForView, s)
      else if \<not> View_Equal (rm_AssociatedView arg) (currentView s)
        then (Reply (Some (ErrorString ''Reconfig request with old view'')), s)
      else if HasUpdate (currentView s) (rm_Update arg) then (Reply None, s)
      else (Reply None, s\<lparr>recv := insert (rm_Update arg) (recv s)\<rparr>))"

definition InstallSeqRequest :: "InstallSeqMsg \<Rightarrow> 'a Server \<Rightarrow> 'a Server" where
  "InstallSeqRequest arg s = s\<lparr>installSeqProcessingChan := installSeqProcessingChan s @ [arg]\<rparr>"

definition StateUpdate :: "'a SyncStateMsg \<Rightarrow> 'a Server \<Rightarrow> 'a Server" where
  "StateUpdate arg s = s\<lparr>syncStateMsgChan := syncStateMsgChan s @ [arg]\<rparr>"

definition ViewInstalled :: "ViewInstalledMsg \<Rightarrow> 'a Server \<Rightarrow> 'a Server" where
  "ViewInstalled arg s = s\<lparr>newViewInstalledChan := newViewInstalledChan s @ [arg]\<rparr>"

text \<open>\<^verbatim>\<open>AdminService.Leave\<close> calls \<^verbatim>\<open>leave\<close>, which waits for \<^verbatim>\<open>currentViewMu\<close>.\<close>

definition AdminService_Leave :: "'a Server \<Rightarrow> 'a transition" where
  "AdminService_Leave s = (if installPhase s \<noteq> Receiving then ([], s) else (leave s, s))"

section \<open>The server as a state machine\<close>

datatype 'a event =
    ReadReq ViewRef
  | WriteReq "'a Value"
  | ReconfigReq ReconfigMsg
  | InstallSeqReq InstallSeqMsg
  | StateUpdateReq "'a SyncStateMsg"
  | ViewInstalledReq ViewInstalledMsg
  | ProposeSeqViewReq ViewSeqMsg
  | SeqConvReq SeqConvMsg
  | LeaveReq
  | TimerFires
  | RunGeneration
  | RunWorker nat
  | ConsensusDecided View "ViewSeq option"
  | TakeGenerated
  | TakeInstallSeq
  | TakeStateUpdate
  | StateReady
  | TakeViewInstalled

text \<open>A handler that waits for the register keeps holding \<^verbatim>\<open>currentViewMu\<close>.\<close>

definition hold_view :: "'r rpc \<Rightarrow> 'a Server \<Rightarrow> 'a Server" where
  "hold_view r s = (case r of WaitsForRegister \<Rightarrow> s\<lparr>viewReaders := viewReaders s + 1\<rparr> | _ \<Rightarrow> s)"

fun live_step :: "'a event \<Rightarrow> 'a Server \<Rightarrow> 'a transition" where
  "live_step (ReadReq ref) s = ([], hold_view (RegisterService_Read s ref) s)"
| "live_step (WriteReq v) s =
     (case RegisterService_Write s v of (r, s1) \<Rightarrow> ([], hold_view r s1))"
| "live_step (ReconfigReq m) s = ([], snd (Reconfig m s))"
| "live_step (InstallSeqReq m) s = ([], InstallSeqRequest m s)"
| "live_step (StateUpdateReq m) s = ([], StateUpdate m s)"
| "live_step (ViewInstalledReq m) s = ([], ViewInstalled m s)"
| "live_step (ProposeSeqViewReq m) s = ProposeSeqView m s"
| "live_step (SeqConvReq m) s = SeqConvRequest m s"
| "live_step LeaveReq s = AdminService_Leave s"
| "live_step TimerFires s = startReconfiguration s"
| "live_step RunGeneration s = runGeneration s"
| "live_step (RunWorker i) s = runWorker i s"
| "live_step (ConsensusDecided av value) s = consensusDecided av value s"
| "live_step TakeGenerated s = generatedViewSeqProcessing s"
| "live_step TakeInstallSeq s = installSeqProcessing s"
| "live_step TakeStateUpdate s = stateUpdateProcessing s"
| "live_step StateReady s = syncStateReady s"
| "live_step TakeViewInstalled s = viewInstalledProcessing s"

fun is_dead :: "installPhase \<Rightarrow> bool" where
  "is_dead Exited = True"
| "is_dead (Crashed e) = True"
| "is_dead _ = False"

definition server_step :: "'a event \<Rightarrow> 'a Server \<Rightarrow> 'a transition" where
  "server_step e s = (if is_dead (installPhase s) then ([], s) else live_step e s)"

fun server_run :: "'a event list \<Rightarrow> 'a Server \<Rightarrow> 'a transition" where
  "server_run [] s = ([], s)"
| "server_run (e # es) s =
     (case server_step e s of (o1, s1) \<Rightarrow>
      case server_run es s1 of (o2, s2) \<Rightarrow> (o1 @ o2, s2))"

end
