(* ===== verification/Server_Invariants.thy ===== *)
theory Server_Invariants
  imports Reconfiguration
begin

text \<open>
  The invariant of a server and the properties of its reconfiguration. \<open>good_event\<close> is what
  the server relies on: the requests it gets carry well-formed views and sequences, which
  is what every server sends. \<open>server_inv\<close> then holds after any sequence of events.
\<close>

section \<open>What servers exchange\<close>

definition good_isq :: "InstallSeq \<Rightarrow> bool" where
  "good_isq isq \<longleftrightarrow>
     wf_view (is_InstallView isq) \<and> wf_view (is_AssociatedView isq) \<and> good_seq (is_ViewSeq isq)"

definition good_ssm :: "'a SyncStateMsg \<Rightarrow> bool" where
  "good_ssm m \<longleftrightarrow> wf_view (ssm_AssociatedView m) \<and> finite (ssm_Recv m)"

definition good_gvs :: "generatedViewSeq \<Rightarrow> bool" where
  "good_gvs g \<longleftrightarrow>
     wf_view (gvs_AssociatedView g) \<and> good_seq (gvs_ViewSeq g) \<and> gvs_ViewSeq g \<noteq> []"

fun good_event :: "'a event \<Rightarrow> bool" where
  "good_event (InstallSeqReq m) = good_isq (ism_InstallSeq m)"
| "good_event (StateUpdateReq m) = good_ssm m"
| "good_event (ProposeSeqViewReq m) = good_msg m"
| "good_event (SeqConvReq m) = (wf_view (scm_AssociatedView m) \<and> good_job (SeqConvJob (scm_SeqConv m)))"
| "good_event (ConsensusDecided av value) =
     (case value of None \<Rightarrow> False | Some seq \<Rightarrow> wf_view av \<and> good_seq seq \<and> seq \<noteq> [])"
| "good_event _ = True"

section \<open>The invariant\<close>

definition core_inv :: "'a Server \<Rightarrow> bool" where
  "core_inv s \<longleftrightarrow> wf_view (currentView s) \<and> finite (recv s) \<and> recv s \<inter> Entries (currentView s) = {}"

definition generation_ok :: "View \<times> ViewSeq \<Rightarrow> bool" where
  "generation_ok g \<longleftrightarrow>
     wf_view (fst g) \<and> good_seq (snd g) \<and> snd g \<noteq> [] \<and> assertOnlyUpdatedViews (fst g) (snd g)"

definition vgi_ok :: "viewGeneratorInstance \<Rightarrow> bool" where
  "vgi_ok vgi \<longleftrightarrow>
     wf_view (vgi_AssociatedView vgi) \<and> worker_inv (vgi_worker vgi) \<and>
     w_AssociatedView (vgi_worker vgi) = vgi_AssociatedView vgi \<and>
     (\<forall>j \<in> set (jobChan vgi). good_job j)"

definition suq_ok :: "'a stateUpdateQuorumType \<Rightarrow> bool" where
  "suq_ok q \<longleftrightarrow>
     wf_view (suq_associatedView q) \<and> finite (st_recv (suq_State q)) \<and>
     (\<forall>st. resultChan q = Some st \<longrightarrow> finite (st_recv st))"

definition chan_inv :: "'a Server \<Rightarrow> bool" where
  "chan_inv s \<longleftrightarrow>
     (\<forall>g \<in> set (generations s). generation_ok g) \<and>
     (\<forall>vgi \<in> set (viewGenerators s). vgi_ok vgi) \<and>
     (\<forall>g \<in> set (generatedViewSeqChan s). good_gvs g) \<and>
     (\<forall>m \<in> set (installSeqProcessingChan s). good_isq (ism_InstallSeq m)) \<and>
     (\<forall>m \<in> set (syncStateMsgChan s). good_ssm m) \<and>
     (\<forall>q \<in> set (stateUpdateQuorumCounterList s). suq_ok q)"

fun phase_ok :: "'a Server \<Rightarrow> installPhase \<Rightarrow> bool" where
  "phase_ok s (WaitingState isq) =
     (good_isq isq \<and> MoreUpdatedThan (is_InstallView isq) (currentView s) \<and> viewReaders s = 0)"
| "phase_ok s (WaitingViewInstalled isq n) = (viewReaders s = 0)"
| "phase_ok s (Crashed e) = (e = ''sync: Unlock of unlocked RWMutex'')"
| "phase_ok s _ = True"

definition server_inv :: "'a Server \<Rightarrow> bool" where
  "server_inv s \<longleftrightarrow> core_inv s \<and> chan_inv s \<and> phase_ok s (installPhase s) \<and>
     (viewReaders s \<noteq> 0 \<longrightarrow> registerLocked s)"

text \<open>Which fields each part of the invariant does not depend on.\<close>

lemma phase_ok_frame [simp]:
  "phase_ok (s\<lparr>register := x1\<rparr>) p = phase_ok s p"
  "phase_ok (s\<lparr>registerLocked := x2\<rparr>) p = phase_ok s p"
  "phase_ok (s\<lparr>recv := x3\<rparr>) p = phase_ok s p"
  "phase_ok (s\<lparr>viewGenerators := x4\<rparr>) p = phase_ok s p"
  "phase_ok (s\<lparr>registerLockOnce := x5\<rparr>) p = phase_ok s p"
  "phase_ok (s\<lparr>generatedViewSeqChan := x6\<rparr>) p = phase_ok s p"
  "phase_ok (s\<lparr>installSeqProcessingChan := x7\<rparr>) p = phase_ok s p"
  "phase_ok (s\<lparr>syncStateMsgChan := x8\<rparr>) p = phase_ok s p"
  "phase_ok (s\<lparr>newViewInstalledChan := x9\<rparr>) p = phase_ok s p"
  "phase_ok (s\<lparr>installPhase := x10\<rparr>) p = phase_ok s p"
  "phase_ok (s\<lparr>processToInstallSeqMsgMap := x11\<rparr>) p = phase_ok s p"
  "phase_ok (s\<lparr>installSeqQuorumCounter := x12\<rparr>) p = phase_ok s p"
  "phase_ok (s\<lparr>stateUpdateQuorumCounterList := x13\<rparr>) p = phase_ok s p"
  "phase_ok (s\<lparr>generations := x14\<rparr>) p = phase_ok s p"
  "phase_ok (s\<lparr>consensusWaits := x15\<rparr>) p = phase_ok s p"
  by (cases p; simp)+

lemma core_inv_frame [simp]:
  "core_inv (s\<lparr>register := x16\<rparr>) = core_inv s"
  "core_inv (s\<lparr>registerLocked := x17\<rparr>) = core_inv s"
  "core_inv (s\<lparr>viewGenerators := x18\<rparr>) = core_inv s"
  "core_inv (s\<lparr>registerLockOnce := x19\<rparr>) = core_inv s"
  "core_inv (s\<lparr>generatedViewSeqChan := x20\<rparr>) = core_inv s"
  "core_inv (s\<lparr>installSeqProcessingChan := x21\<rparr>) = core_inv s"
  "core_inv (s\<lparr>syncStateMsgChan := x22\<rparr>) = core_inv s"
  "core_inv (s\<lparr>newViewInstalledChan := x23\<rparr>) = core_inv s"
  "core_inv (s\<lparr>installPhase := x24\<rparr>) = core_inv s"
  "core_inv (s\<lparr>processToInstallSeqMsgMap := x25\<rparr>) = core_inv s"
  "core_inv (s\<lparr>installSeqQuorumCounter := x26\<rparr>) = core_inv s"
  "core_inv (s\<lparr>stateUpdateQuorumCounterList := x27\<rparr>) = core_inv s"
  "core_inv (s\<lparr>generations := x28\<rparr>) = core_inv s"
  "core_inv (s\<lparr>consensusWaits := x29\<rparr>) = core_inv s"
  "core_inv (s\<lparr>viewReaders := x30\<rparr>) = core_inv s"
  by (simp_all add: core_inv_def)

lemma chan_inv_frame [simp]:
  "chan_inv (s\<lparr>register := x31\<rparr>) = chan_inv s"
  "chan_inv (s\<lparr>registerLocked := x32\<rparr>) = chan_inv s"
  "chan_inv (s\<lparr>recv := x33\<rparr>) = chan_inv s"
  "chan_inv (s\<lparr>registerLockOnce := x34\<rparr>) = chan_inv s"
  "chan_inv (s\<lparr>newViewInstalledChan := x35\<rparr>) = chan_inv s"
  "chan_inv (s\<lparr>installPhase := x36\<rparr>) = chan_inv s"
  "chan_inv (s\<lparr>processToInstallSeqMsgMap := x37\<rparr>) = chan_inv s"
  "chan_inv (s\<lparr>installSeqQuorumCounter := x38\<rparr>) = chan_inv s"
  "chan_inv (s\<lparr>consensusWaits := x39\<rparr>) = chan_inv s"
  "chan_inv (s\<lparr>viewReaders := x40\<rparr>) = chan_inv s"
  "chan_inv (s\<lparr>currentView := x41\<rparr>) = chan_inv s"
  by (simp_all add: chan_inv_def)

lemmas server_inv_defs = server_inv_def core_inv_def chan_inv_def

lemma initServer_inv: "wf_view v \<Longrightarrow> server_inv (initServer addr v)"
  by (simp add: server_inv_defs)

section \<open>Lists and folds of the handlers\<close>

lemma foldl_snoc [simp]: "foldl (\<lambda>acc u. acc @ [u]) ys xs = ys @ xs"
  by (induction xs arbitrary: ys) auto

lemma fold_insert_eq [simp]: "fold insert xs A = A \<union> set xs"
  by (induction xs arbitrary: A) auto

lemma fold_delete_eq [simp]: "fold (\<lambda>x r. r - {x}) xs A = A - set xs"
  by (induction xs arbitrary: A) auto

lemma newer_views_eq: "newer_views cv acc vs = acc @ filter (\<lambda>v. MoreUpdatedThan v cv) vs"
  by (induction vs arbitrary: acc) auto

lemma good_seq_filter: "good_seq seq \<Longrightarrow> good_seq (filter P seq)"
  by (auto simp: good_seq_def chain_seq_def)

lemma good_seq_single [simp]: "good_seq [v] \<longleftrightarrow> wf_view v"
  by (auto simp: good_seq_def chain_seq_def)

lemma getInitialViewSeq_eq:
  "getInitialViewSeq s = [NewCopyWithUpdates (currentView s) (range_keys (recv s))]"
  by (simp add: getInitialViewSeq_def)

lemma generation_ok_initial:
  assumes "core_inv s"
  shows "generation_ok (currentView s, getInitialViewSeq s)"
  using assms by (simp add: generation_ok_def getInitialViewSeq_eq core_inv_def)

lemma generation_ok_others:
  assumes "wf_view cv" "good_seq seq" "HasViewMoreUpdatedThan seq cv"
  shows "generation_ok (cv, newer_views cv [] seq)"
proof -
  have "filter (\<lambda>v. MoreUpdatedThan v cv) seq \<noteq> []"
    using assms(3) by (auto simp: HasViewMoreUpdatedThan_iff filter_empty_conv)
  moreover have "\<forall>w \<in> set seq. MoreUpdatedThan w cv \<longrightarrow> \<not> LessUpdatedThan w cv"
    using assms(1) good_seqD(1) [OF assms(2)] by (auto simp: psubset_eq)
  ultimately show ?thesis
    using assms by (simp add: generation_ok_def newer_views_eq good_seq_filter
        assertOnlyUpdatedViews_iff)
qed

section \<open>Every operation keeps the invariant\<close>

text \<open>What a server sends is what the others rely on.\<close>

fun good_server_out :: "'a server_out \<Rightarrow> bool" where
  "good_server_out (BroadcastInstallSeq v m) = good_isq (ism_InstallSeq m)"
| "good_server_out (BroadcastStateUpdate v m) = good_ssm m"
| "good_server_out (GeneratorSends x) = good_out x"
| "good_server_out (ConsensusPropose v seq) = (wf_view v \<and> good_seq seq \<and> seq \<noteq> [])"
| "good_server_out _ = True"

abbreviation keeps_inv :: "'a transition \<Rightarrow> bool" where
  "keeps_inv t \<equiv> server_inv (snd t) \<and> (\<forall>x \<in> set (fst t). good_server_out x)"

fun gvs_of :: "vg_out \<Rightarrow> generatedViewSeq list" where
  "gvs_of (GeneratedViewSeqOut av seq) = [\<lparr>gvs_AssociatedView = av, gvs_ViewSeq = seq\<rparr>]"
| "gvs_of _ = []"

lemma emit_worker_eq:
  "emit_worker os s =
     (map GeneratorSends (filter (\<lambda>x. gvs_of x = []) os),
      s\<lparr>generatedViewSeqChan := generatedViewSeqChan s @ concat (map gvs_of os)\<rparr>)"
  by (induction os s rule: emit_worker.induct) auto

lemma good_gvs_of: "good_out x \<Longrightarrow> g \<in> set (gvs_of x) \<Longrightarrow> good_gvs g"
  by (cases x) (auto simp: good_gvs_def)

lemma emit_worker_inv:
  assumes "server_inv s" "\<forall>x \<in> set os. good_out x"
  shows "keeps_inv (emit_worker os s)"
  using assms good_gvs_of by (auto simp: emit_worker_eq server_inv_def chan_inv_def)

lemma find_generator_bound: "find_generator v i vgis = Some n \<Longrightarrow> n < i + length vgis"
  by (induction vgis arbitrary: i) (fastforce split: if_splits)+

lemma getOrCreateViewGenerator_inv:
  assumes "server_inv s" "wf_view v" "\<And>seq. initial = Some seq \<Longrightarrow> good_seq seq"
    and "getOrCreateViewGenerator v initial s = Some (i, t)"
  shows "keeps_inv t \<and> i < length (viewGenerators (snd t))"
proof (cases "find_generator v 0 (viewGenerators s)")
  case None
  define seq where "seq = (case initial of None \<Rightarrow> getInitialViewSeq s | Some seq \<Rightarrow> seq)"
  obtain os w where st: "startWorker (thisProcess s) v seq = (os, w)" by fastforce
  let ?s1 = "s\<lparr>viewGenerators := viewGenerators s @
    [\<lparr>vgi_AssociatedView = v, jobChan = [], vgi_worker = w\<rparr>]\<rparr>"
  have "good_seq seq"
    using assms(1,3) by (auto simp: seq_def getInitialViewSeq_eq server_inv_def core_inv_def
        split: option.split)
  with startWorker_inv [OF assms(2), of seq "thisProcess s"] st
  have w: "worker_inv w" "w_AssociatedView w = v" "\<forall>x \<in> set os. good_out x" by simp_all
  then have "server_inv ?s1"
    using assms(1,2) by (simp add: server_inv_def chan_inv_def vgi_ok_def)
  moreover have "t = emit_worker os ?s1" "i = length (viewGenerators s)"
    using assms(4) None st by (auto simp: getOrCreateViewGenerator_def seq_def Let_def split: if_splits)
  ultimately show ?thesis
    using emit_worker_inv [of ?s1 os] w(3) by (simp add: emit_worker_eq)
next
  case (Some n)
  with assms find_generator_bound [OF Some] show ?thesis
    by (auto simp: getOrCreateViewGenerator_def)
qed

lemma add_job_inv:
  assumes "server_inv s" "i < length (viewGenerators s)" "good_job j"
  shows "server_inv (add_job i j s)"
proof -
  have "vgi_ok (viewGenerators s ! i)"
    using assms by (simp add: server_inv_def chan_inv_def)
  then have "vgi_ok ((viewGenerators s ! i)\<lparr>jobChan := jobChan (viewGenerators s ! i) @ [j]\<rparr>)"
    using assms(3) by (auto simp: vgi_ok_def)
  with assms(1) show ?thesis
    by (auto simp: add_job_def server_inv_def chan_inv_def dest!: set_update_subset_insert [THEN subsetD])
qed

lemma ProposeSeqView_inv:
  assumes "server_inv s" "good_msg m"
  shows "keeps_inv (ProposeSeqView m s)"
  using assms getOrCreateViewGenerator_inv [OF assms(1), of "vsm_AssociatedView m" None]
  by (auto simp: ProposeSeqView_def good_msg_def add_job_inv split: option.split)

lemma SeqConvRequest_inv:
  assumes "server_inv s" "wf_view (scm_AssociatedView m)" "good_job (SeqConvJob (scm_SeqConv m))"
  shows "keeps_inv (SeqConvRequest m s)"
  using assms getOrCreateViewGenerator_inv [OF assms(1,2), of None]
  by (auto simp: SeqConvRequest_def add_job_inv simp del: good_job.simps split: option.split)

lemma runWorker_inv:
  assumes "server_inv s"
  shows "keeps_inv (runWorker i s)"
proof (cases "i < length (viewGenerators s) \<and> jobChan (viewGenerators s ! i) \<noteq> []")
  case True
  define vgi where "vgi = viewGenerators s ! i"
  obtain j js where j: "jobChan vgi = j # js" using True by (cases "jobChan vgi") (auto simp: vgi_def)
  have "vgi_ok vgi" using assms True by (auto simp: vgi_def server_inv_def chan_inv_def)
  then have ok: "worker_inv (vgi_worker vgi)" "good_job j" using j by (auto simp: vgi_ok_def)
  obtain os w where st: "worker_step (thisProcess s) (vgi_worker vgi) j = (os, w)" by fastforce
  with worker_step_inv [OF ok, of "thisProcess s"]
  have w: "worker_inv w" "\<forall>x \<in> set os. good_out x" "w_AssociatedView w = w_AssociatedView (vgi_worker vgi)"
    by simp_all
  then have "vgi_ok (vgi\<lparr>jobChan := js, vgi_worker := w\<rparr>)"
    using \<open>vgi_ok vgi\<close> j by (simp add: vgi_ok_def)
  then have "server_inv (s\<lparr>viewGenerators := (viewGenerators s)[i := vgi\<lparr>jobChan := js, vgi_worker := w\<rparr>]\<rparr>)"
    using assms by (auto simp: server_inv_def chan_inv_def dest!: set_update_subset_insert [THEN subsetD])
  from emit_worker_inv [OF this w(2)] show ?thesis
    using True j st by (simp add: runWorker_def vgi_def [symmetric] Let_def)
qed (use assms in \<open>auto simp: runWorker_def Let_def split: list.split\<close>)

lemma runGeneration_inv:
  assumes "server_inv s"
  shows "keeps_inv (runGeneration s)"
proof (cases "generations s")
  case (Cons g gs)
  obtain av seq where g: "g = (av, seq)" by fastforce
  let ?s1 = "s\<lparr>generations := gs\<rparr>"
  have inv: "server_inv ?s1" and ok: "generation_ok (av, seq)"
    using assms Cons g by (simp_all add: server_inv_def chan_inv_def)
  then have av: "wf_view av" "good_seq seq" "seq \<noteq> []" "assertOnlyUpdatedViews av seq"
    by (simp_all add: generation_ok_def)
  obtain i t where t: "getOrCreateViewGenerator av (Some seq) ?s1 = Some (i, t)"
    by (fastforce simp: getOrCreateViewGenerator_def split: option.split prod.split)
  have "keeps_inv t" using getOrCreateViewGenerator_inv [OF inv av(1) _ t] av(2) by simp
  moreover have "server_inv (?s1\<lparr>consensusWaits := consensusWaits ?s1 @ [av]\<rparr>)"
    using inv by (simp add: server_inv_def)
  ultimately show ?thesis
    using Cons g av t by (simp add: runGeneration_def generateViewSequenceWithConsensus_def
        generateViewSequenceWithoutConsensus_def Let_def)
qed (use assms in \<open>simp add: runGeneration_def\<close>)

lemma consensusDecided_inv:
  assumes "server_inv s" "wf_view av" "good_seq seq" "seq \<noteq> []"
  shows "keeps_inv (consensusDecided av (Some seq) s)"
  using assms by (simp add: consensusDecided_def server_inv_def chan_inv_def good_gvs_def)

lemma generatedViewSeqProcessing_inv:
  assumes "server_inv s"
  shows "keeps_inv (generatedViewSeqProcessing s)"
proof (cases "generatedViewSeqChan s")
  case (Cons g gs)
  have g: "good_gvs g" and inv: "server_inv (s\<lparr>generatedViewSeqChan := gs\<rparr>)"
    using assms Cons by (simp_all add: server_inv_def chan_inv_def)
  then have seq: "good_seq (gvs_ViewSeq g)" "gvs_ViewSeq g \<noteq> []" by (simp_all add: good_gvs_def)
  obtain v where v: "GetLeastUpdatedView (gvs_ViewSeq g) = Some v" "v \<in> set (gvs_ViewSeq g)"
    using GetLeastUpdatedView_least [of "gvs_ViewSeq g"] good_seqD [OF seq(1)] seq(2) by metis
  then have "wf_view v" using good_seqD(1) [OF seq(1)] by simp
  then show ?thesis
    using Cons v inv g seq by (simp add: generatedViewSeqProcessing_def good_isq_def good_gvs_def Let_def)
qed (use assms in \<open>simp add: generatedViewSeqProcessing_def\<close>)

lemma startReconfiguration_inv: "server_inv s \<Longrightarrow> keeps_inv (startReconfiguration s)"
  using generation_ok_initial [of s]
  by (simp add: startReconfiguration_def server_inv_def chan_inv_def Let_def)

lemma installOthers_inv:
  assumes "server_inv s" "good_isq isq" "HasViewMoreUpdatedThan (is_ViewSeq isq) (currentView s)"
  shows "server_inv (installOthersViewsFromViewSeqLocked isq s)"
  using assms generation_ok_others [of "currentView s" "is_ViewSeq isq"]
  by (simp add: installOthersViewsFromViewSeqLocked_def server_inv_def core_inv_def chan_inv_def
      good_isq_def Let_def)

lemma server_inv_Receiving: "server_inv s \<Longrightarrow> server_inv (s\<lparr>installPhase := Receiving\<rparr>)"
  by (simp add: server_inv_def)

lemma afterStateSent_inv:
  assumes "server_inv s" "good_isq isq" "viewReaders s = 0"
    and "newer = MoreUpdatedThan (is_InstallView isq) (currentView s)"
  shows "server_inv (afterStateSent isq newer s)"
proof (cases newer)
  case False
  then show ?thesis
    using assms(1,2)
    by (auto simp: afterStateSent_def intro: server_inv_Receiving installOthers_inv)
next
  case True
  with assms show ?thesis
    by (simp add: afterStateSent_def server_inv_def)
qed

lemma syncStateMsg_good: "server_inv s \<Longrightarrow> good_isq isq \<Longrightarrow> good_ssm (syncStateMsg_of isq s)"
  by (simp add: syncStateMsg_of_def good_ssm_def good_isq_def server_inv_def core_inv_def)

lemma gotInstallSeqQuorum_inv:
  assumes "server_inv s" "good_isq isq"
  shows "keeps_inv (gotInstallSeqQuorum isq s)"
proof -
  let ?newer = "MoreUpdatedThan (is_InstallView isq) (currentView s)"
  let ?l = "s\<lparr>registerLockOnce := True, registerLocked := True\<rparr>"
  have l: "server_inv ?l" using assms(1) by (simp add: server_inv_def)
  have "server_inv (s\<lparr>installPhase := WaitingViewLock isq\<rparr>)"
    "server_inv (s\<lparr>installPhase := WaitingRegisterLock isq\<rparr>)"
    using assms(1) by (simp_all add: server_inv_def)
  moreover have "viewReaders s = 0 \<Longrightarrow> server_inv (afterStateSent isq ?newer s)"
    "viewReaders s = 0 \<Longrightarrow> server_inv (afterStateSent isq ?newer ?l)"
    using afterStateSent_inv [OF assms] afterStateSent_inv [OF l assms(2)] by simp_all
  ultimately show ?thesis
    using syncStateMsg_good [OF assms] syncStateMsg_good [OF l assms(2)]
    by (cases ?newer) (simp_all add: gotInstallSeqQuorum_def Let_def)
qed

lemma installSeqProcessing_inv:
  assumes "server_inv s"
  shows "keeps_inv (installSeqProcessing s)"
proof (cases "installSeqProcessingChan s")
  case (Cons m ms)
  let ?isq = "ism_InstallSeq m"
  let ?s1 = "s\<lparr>installSeqProcessingChan := ms,
     processToInstallSeqMsgMap := (processToInstallSeqMsgMap s)(ism_Sender m \<mapsto> m)\<rparr>"
  have good: "good_isq ?isq" and inv: "server_inv ?s1"
    using assms Cons by (simp_all add: server_inv_def chan_inv_def)
  obtain q c where c: "installSeqQuorumCounter_count (installSeqQuorumCounter s) ?isq
      (QuorumSize (is_AssociatedView ?isq)) = (q, c)" by fastforce
  have "server_inv (?s1\<lparr>installSeqQuorumCounter := c\<rparr>)" using inv by (simp add: server_inv_def)
  with gotInstallSeqQuorum_inv [OF this good] show ?thesis
    using assms inv good c Cons
    by (auto simp: installSeqProcessing_def Let_def split: option.split prod.split)
qed (use assms in \<open>simp add: installSeqProcessing_def\<close>)

lemma getStateUpdateQuorumCounter_bound:
  "getStateUpdateQuorumCounter i qs v = Some n \<Longrightarrow> i \<le> n \<and> n < i + length qs"
  by (induction qs arbitrary: i) (fastforce split: if_splits)+

lemma new_stateUpdateQuorum_ok: "wf_view v \<Longrightarrow> suq_ok (new_stateUpdateQuorum v)"
  by (simp add: new_stateUpdateQuorum_def suq_ok_def)

lemma getOrCreateStateUpdateQuorum_ok:
  assumes "getOrCreateStateUpdateQuorum qs v = (i, qs1)" "\<forall>q \<in> set qs. suq_ok q" "wf_view v"
  shows "i < length qs1 \<and> (\<forall>q \<in> set qs1. suq_ok q)"
  using assms getStateUpdateQuorumCounter_bound [of 0 qs v]
  by (auto simp: getOrCreateStateUpdateQuorum_def new_stateUpdateQuorum_ok split: option.splits)

lemma count_stateUpdate_ok:
  "suq_ok q \<Longrightarrow> good_ssm m \<Longrightarrow> suq_ok (count_stateUpdate q m)"
  by (simp add: suq_ok_def count_stateUpdate_def good_ssm_def State_NewCopy_def Let_def)

lemma stateUpdateProcessing_inv:
  assumes "server_inv s"
  shows "keeps_inv (stateUpdateProcessing s)"
proof (cases "syncStateMsgChan s")
  case (Cons m ms)
  obtain i qs where qs: "getOrCreateStateUpdateQuorum (stateUpdateQuorumCounterList s)
      (ssm_AssociatedView m) = (i, qs)" by fastforce
  have m: "good_ssm m" "\<forall>q \<in> set (stateUpdateQuorumCounterList s). suq_ok q"
    using assms Cons by (simp_all add: server_inv_def chan_inv_def)
  with getOrCreateStateUpdateQuorum_ok [OF qs]
  have "i < length qs" and ok: "\<forall>q \<in> set qs. suq_ok q" by (simp_all add: good_ssm_def)
  then have "suq_ok (count_stateUpdate (qs ! i) m)" using m(1) by (simp add: count_stateUpdate_ok)
  with ok have "\<forall>q \<in> set (qs[i := count_stateUpdate (qs ! i) m]). suq_ok q"
    by (auto dest!: set_update_subset_insert [THEN subsetD])
  then show ?thesis
    using assms Cons qs by (simp add: stateUpdateProcessing_def server_inv_def chan_inv_def)
qed (use assms in \<open>simp add: stateUpdateProcessing_def\<close>)

lemma apply_state_eq:
  assumes "finite (st_recv st)" "finite (Entries (is_InstallView isq))"
  shows "apply_state st isq s =
    s\<lparr>recv := (recv s \<union> st_recv st) - Entries (is_InstallView isq),
      register := (register s)\<lparr>Value := Value (finalValue st), Timestamp := Timestamp (finalValue st)\<rparr>\<rparr>"
  using assms by (simp add: apply_state_def Let_def)

lemma requestStateChan_inv:
  assumes "server_inv s" "wf_view v" "requestStateChan v s = (r, s1)"
  shows "server_inv s1 \<and> (\<forall>st. r = Some st \<longrightarrow> finite (st_recv st)) \<and>
    (\<exists>qs. s1 = s\<lparr>stateUpdateQuorumCounterList := qs\<rparr>)"
proof -
  obtain i qs where qs: "getOrCreateStateUpdateQuorum (stateUpdateQuorumCounterList s) v = (i, qs)"
    by fastforce
  with getOrCreateStateUpdateQuorum_ok [OF qs] assms
  have "i < length qs" "\<forall>q \<in> set qs. suq_ok q" by (simp_all add: server_inv_def chan_inv_def)
  then have "suq_ok (qs ! i)" by simp
  moreover have "r = resultChan (qs ! i)" "s1 = s\<lparr>stateUpdateQuorumCounterList := qs\<rparr>"
    using assms(3) qs by (simp_all add: requestStateChan_def)
  ultimately show ?thesis
    using assms(1) \<open>\<forall>q \<in> set qs. suq_ok q\<close>
    by (auto simp: server_inv_def chan_inv_def suq_ok_def)
qed

lemma afterSync_inv:
  assumes "core_inv (updateCurrentViewLocked (is_InstallView isq) s)" "chan_inv s" "good_isq isq"
    "viewReaders s = 0"
  shows "keeps_inv (afterSync isq s)"
proof -
  define s1 where "s1 = updateCurrentViewLocked (is_InstallView isq) s"
  have inv: "server_inv (s1\<lparr>installPhase := Receiving\<rparr>)"
    using assms by (simp add: s1_def updateCurrentViewLocked_def server_inv_def)
  have s1: "viewReaders s1 = 0" "core_inv s1" "chan_inv s1"
    using assms by (simp_all add: s1_def updateCurrentViewLocked_def)
  have "server_inv ((installOthersViewsFromViewSeqLocked isq s1)\<lparr>installPhase := Receiving\<rparr>)"
    if "HasViewMoreUpdatedThan (is_ViewSeq isq) (currentView s1)"
    using installOthers_inv [OF inv assms(3)] that
    by (simp add: installOthersViewsFromViewSeqLocked_def server_inv_def chan_inv_def Let_def)
  then show ?thesis
    using s1 by (simp add: afterSync_def s1_def [symmetric] Let_def server_inv_def)
qed

lemma syncStateReady_inv:
  assumes "server_inv s"
  shows "keeps_inv (syncStateReady s)"
proof (cases "\<exists>isq. installPhase s = WaitingState isq")
  case True
  then obtain isq where isq: "installPhase s = WaitingState isq" by blast
  then have good: "good_isq isq" and newer: "MoreUpdatedThan (is_InstallView isq) (currentView s)"
    and readers: "viewReaders s = 0"
    using assms by (simp_all add: server_inv_def)
  obtain r s1 where r: "requestStateChan (is_AssociatedView isq) s = (r, s1)" by fastforce
  with requestStateChan_inv [OF assms _ r] good obtain qs
    where inv: "server_inv s1" and fin: "\<forall>st. r = Some st \<longrightarrow> finite (st_recv st)"
    and s1: "s1 = s\<lparr>stateUpdateQuorumCounterList := qs\<rparr>" by (auto simp: good_isq_def)
  have "keeps_inv (afterSync isq (apply_state st isq s1))" if "r = Some st" for st
  proof (rule afterSync_inv)
    have eq: "apply_state st isq s1 = s1\<lparr>recv := (recv s \<union> st_recv st) - Entries (is_InstallView isq),
      register := (register s)\<lparr>Value := Value (finalValue st), Timestamp := Timestamp (finalValue st)\<rparr>\<rparr>"
      using fin that good by (simp add: apply_state_eq good_isq_def s1)
    show "core_inv (updateCurrentViewLocked (is_InstallView isq) (apply_state st isq s1))"
      using inv newer good fin that unfolding eq
      by (simp add: s1 updateCurrentViewLocked_def core_inv_def server_inv_def good_isq_def
          Diff_Int_distrib2 del: MoreUpdatedThan_wf_iff)
    show "chan_inv (apply_state st isq s1)" using inv unfolding eq by (simp add: server_inv_def)
    show "viewReaders (apply_state st isq s1) = 0" using readers unfolding eq by (simp add: s1)
  qed (rule good)
  with inv r isq show ?thesis by (auto simp: syncStateReady_def split: option.split)
qed (use assms in \<open>auto simp: syncStateReady_def split: installPhase.split\<close>)

lemma viewInstalledProcessing_inv: "server_inv s \<Longrightarrow> keeps_inv (viewInstalledProcessing s)"
  by (auto simp: viewInstalledProcessing_def server_inv_def Let_def
      split: installPhase.split list.split)

lemma Reconfig_inv: "server_inv s \<Longrightarrow> server_inv (snd (Reconfig m s))"
  by (auto simp: Reconfig_def server_inv_def core_inv_def chan_inv_def HasUpdate_def)

lemma hold_view_inv:
  assumes "server_inv s" "installPhase s = Receiving" "r = WaitsForRegister \<Longrightarrow> registerLocked s"
  shows "server_inv (hold_view r s)"
  using assms by (cases r) (auto simp: hold_view_def server_inv_def)

lemma Write_inv:
  assumes "server_inv s"
  shows "server_inv (snd (live_step (WriteReq v) s))"
proof -
  have "server_inv (s\<lparr>register := r\<rparr>)" for r using assms by (simp add: server_inv_def)
  then show ?thesis
    using assms by (simp add: RegisterService_Write_def hold_view_inv split: rpc.split)
      (simp add: hold_view_def)
qed

lemma Read_inv: "server_inv s \<Longrightarrow> server_inv (hold_view (RegisterService_Read s ref) s)"
  by (simp add: RegisterService_Read_def hold_view_inv) (simp add: hold_view_def)

lemma requests_inv:
  "server_inv s \<Longrightarrow> good_isq (ism_InstallSeq m) \<Longrightarrow> server_inv (InstallSeqRequest m s)"
  "server_inv s \<Longrightarrow> good_ssm ssm \<Longrightarrow> server_inv (StateUpdate ssm s)"
  "server_inv s \<Longrightarrow> server_inv (ViewInstalled vim s)"
  by (auto simp: InstallSeqRequest_def StateUpdate_def ViewInstalled_def server_inv_def chan_inv_def)

lemma live_step_inv:
  assumes "server_inv s" "good_event e"
  shows "keeps_inv (live_step e s)"
proof (cases e)
  case (WriteReq v)
  then show ?thesis using Write_inv [OF assms(1), of v] by (simp split: prod.split)
next
  case (SeqConvReq m)
  then show ?thesis using SeqConvRequest_inv [OF assms(1), of m] assms(2) by simp
next
  case (ConsensusDecided av decided)
  with assms show ?thesis by (auto simp: consensusDecided_inv split: option.splits)
qed (use assms in \<open>simp_all add: Read_inv Reconfig_inv requests_inv ProposeSeqView_inv
      SeqConvRequest_inv runGeneration_inv runWorker_inv startReconfiguration_inv
      generatedViewSeqProcessing_inv installSeqProcessing_inv stateUpdateProcessing_inv
      syncStateReady_inv viewInstalledProcessing_inv AdminService_Leave_def leave_def Let_def\<close>)

lemma server_run_Cons:
  "fst (server_run (e # es) s) = fst (server_step e s) @ fst (server_run es (snd (server_step e s)))"
  "snd (server_run (e # es) s) = snd (server_run es (snd (server_step e s)))"
  by (simp_all split: prod.split)

declare server_run.simps(2) [simp del] server_run_Cons [simp]

lemma server_run_inv:
  assumes "server_inv s" "\<forall>e \<in> set es. good_event e"
  shows "keeps_inv (server_run es s)"
  using assms
proof (induction es arbitrary: s)
  case (Cons e es)
  have "keeps_inv (server_step e s)"
    using Cons.prems live_step_inv [of s e] by (simp add: server_step_def)
  with Cons show ?case by auto
qed simp

section \<open>What the operations leave alone\<close>

text \<open>
  The fields that only an installation and the handlers of the register change: the process,
  the view, the register with its lock, the readers and whether consensus is used.
\<close>

definition core_of :: "'a Server \<Rightarrow> Process \<times> View \<times> bool \<times> 'a Value \<times> bool \<times> bool \<times> nat" where
  "core_of s = (thisProcess s, currentView s, useConsensus s, register s, registerLocked s,
     registerLockOnce s, viewReaders s)"

lemma getOrCreateViewGenerator_core:
  "getOrCreateViewGenerator v initial s = Some (i, t) \<Longrightarrow>
   core_of (snd t) = core_of s \<and> installPhase (snd t) = installPhase s"
  by (auto simp: getOrCreateViewGenerator_def emit_worker_eq core_of_def Let_def
      split: option.splits if_splits prod.splits)

lemma generator_requests_core:
  "core_of (snd (ProposeSeqView m s)) = core_of s"
  "core_of (snd (SeqConvRequest c s)) = core_of s"
  by (auto simp: ProposeSeqView_def SeqConvRequest_def add_job_def split: option.split
      dest!: getOrCreateViewGenerator_core) (simp_all add: core_of_def)

lemma runGeneration_core: "core_of (snd (runGeneration s)) = core_of s"
  by (auto simp: runGeneration_def generateViewSequenceWithConsensus_def
      generateViewSequenceWithoutConsensus_def Let_def split: list.split option.split
      dest!: getOrCreateViewGenerator_core) (simp_all add: core_of_def)

lemma runWorker_core: "core_of (snd (runWorker i s)) = core_of s"
  by (simp add: runWorker_def emit_worker_eq core_of_def Let_def split: list.split prod.split)

lemma loops_core:
  "core_of (snd (startReconfiguration s)) = core_of s"
  "core_of (snd (generatedViewSeqProcessing s)) = core_of s"
  "core_of (snd (stateUpdateProcessing s)) = core_of s"
  "core_of (snd (viewInstalledProcessing s)) = core_of s"
  "core_of (snd (consensusDecided av d s)) = core_of s"
  "core_of (snd (Reconfig m s)) = core_of s"
  by (simp_all add: startReconfiguration_def generatedViewSeqProcessing_def stateUpdateProcessing_def
      viewInstalledProcessing_def consensusDecided_def Reconfig_def core_of_def Let_def
      split: list.split option.split prod.split installPhase.split)

lemma afterStateSent_core: "core_of (afterStateSent isq newer s) = core_of s"
  by (simp add: afterStateSent_def installOthersViewsFromViewSeqLocked_def core_of_def Let_def)

end
