(* ===== verification/Installation.thy ===== *)
theory Installation
  imports Server_Invariants
begin

text \<open>
  What a reconfiguration does to a server: every run keeps the invariant, its view only
  grows, installing a view replaces view, register and pending updates as one step, and it
  never proposes to consensus.
\<close>

section \<open>Frame of the installation\<close>

lemma gotInstallSeqQuorum_frame:
  "currentView (snd (gotInstallSeqQuorum isq s)) = currentView s"
  "thisProcess (snd (gotInstallSeqQuorum isq s)) = thisProcess s"
  "useConsensus (snd (gotInstallSeqQuorum isq s)) = useConsensus s"
  "viewReaders (snd (gotInstallSeqQuorum isq s)) = viewReaders s"
  "register (snd (gotInstallSeqQuorum isq s)) = register s"
  "registerLocked s \<Longrightarrow> registerLocked (snd (gotInstallSeqQuorum isq s))"
  by (simp_all add: gotInstallSeqQuorum_def afterStateSent_def
      installOthersViewsFromViewSeqLocked_def Let_def)

lemma installSeqProcessing_frame:
  "currentView (snd (installSeqProcessing s)) = currentView s"
  "thisProcess (snd (installSeqProcessing s)) = thisProcess s"
  "useConsensus (snd (installSeqProcessing s)) = useConsensus s"
  "viewReaders (snd (installSeqProcessing s)) = viewReaders s"
  "registerLocked s \<Longrightarrow> registerLocked (snd (installSeqProcessing s))"
  by (simp_all add: installSeqProcessing_def gotInstallSeqQuorum_frame case_prod_beta Let_def
      split: list.split option.split)

lemma installSeqProcessing_register: "register (snd (installSeqProcessing s)) = register s"
  by (simp add: installSeqProcessing_def gotInstallSeqQuorum_frame case_prod_beta Let_def
      split: list.split option.split)

lemma core_ofD:
  assumes "core_of t = core_of s"
  shows "thisProcess t = thisProcess s" "currentView t = currentView s"
    "useConsensus t = useConsensus s" "registerLocked t = registerLocked s"
    "viewReaders t = viewReaders s" "register t = register s"
    "registerLockOnce t = registerLockOnce s"
  using assms by (simp_all add: core_of_def)

lemmas core_eqs = generator_requests_core runGeneration_core runWorker_core loops_core
lemmas core_frames = core_eqs [THEN core_ofD(1)] core_eqs [THEN core_ofD(2)]
  core_eqs [THEN core_ofD(3)] core_eqs [THEN core_ofD(4)] core_eqs [THEN core_ofD(5)]

lemma register_requests_frame:
  "currentView (snd (live_step (WriteReq v) s)) = currentView s"
  "thisProcess (snd (live_step (WriteReq v) s)) = thisProcess s"
  "useConsensus (snd (live_step (WriteReq v) s)) = useConsensus s"
  "registerLocked (snd (live_step (WriteReq v) s)) = registerLocked s"
  "viewReaders s \<le> viewReaders (snd (live_step (WriteReq v) s))"
  "currentView (snd (live_step (ReadReq r) s)) = currentView s"
  "thisProcess (snd (live_step (ReadReq r) s)) = thisProcess s"
  "useConsensus (snd (live_step (ReadReq r) s)) = useConsensus s"
  "registerLocked (snd (live_step (ReadReq r) s)) = registerLocked s"
  "viewReaders s \<le> viewReaders (snd (live_step (ReadReq r) s))"
  by (simp_all add: RegisterService_Write_def RegisterService_Read_def hold_view_def)

lemma queue_requests_frame:
  "core_of (InstallSeqRequest m1 s) = core_of s" "core_of (StateUpdate m2 s) = core_of s"
  "core_of (ViewInstalled m3 s) = core_of s" "core_of (snd (AdminService_Leave s)) = core_of s"
  by (simp_all add: InstallSeqRequest_def StateUpdate_def ViewInstalled_def AdminService_Leave_def
      core_of_def)

lemmas queue_frames = queue_requests_frame [THEN core_ofD(1)] queue_requests_frame [THEN core_ofD(2)]
  queue_requests_frame [THEN core_ofD(3)] queue_requests_frame [THEN core_ofD(4)]
  queue_requests_frame [THEN core_ofD(5)]

text \<open>Only the end of an installation changes the view or releases the register.\<close>

lemma live_step_frame:
  assumes "e \<noteq> StateReady"
  shows "currentView (snd (live_step e s)) = currentView s \<and>
    thisProcess (snd (live_step e s)) = thisProcess s \<and>
    useConsensus (snd (live_step e s)) = useConsensus s \<and>
    (registerLocked s \<longrightarrow> registerLocked (snd (live_step e s))) \<and>
    viewReaders s \<le> viewReaders (snd (live_step e s))"
proof (cases e)
  case (ReadReq r)
  then show ?thesis using register_requests_frame(6-10) [where r = r and s = s] by simp
next
  case (WriteReq v)
  then show ?thesis using register_requests_frame(1-5) [where v = v and s = s] by (simp del: live_step.simps)
qed (use assms in \<open>simp_all add: core_frames queue_frames installSeqProcessing_frame\<close>)

lemma requestStateChan_frame: "core_of (snd (requestStateChan v s)) = core_of s"
  by (simp add: requestStateChan_def core_of_def split: prod.split)

lemma afterSync_frame:
  "currentView (snd (afterSync isq s)) = currentView (updateCurrentViewLocked (is_InstallView isq) s)"
  "thisProcess (snd (afterSync isq s)) = thisProcess s"
  "useConsensus (snd (afterSync isq s)) = useConsensus s"
  by (simp_all add: afterSync_def updateCurrentViewLocked_def installOthersViewsFromViewSeqLocked_def
      Let_def)

lemma apply_state_frame:
  "currentView (apply_state st isq s) = currentView s"
  "thisProcess (apply_state st isq s) = thisProcess s"
  "useConsensus (apply_state st isq s) = useConsensus s"
  by (simp_all add: apply_state_def Let_def)

lemma syncStateReady_frame:
  "thisProcess (snd (syncStateReady s)) = thisProcess s"
  "useConsensus (snd (syncStateReady s)) = useConsensus s"
  using requestStateChan_frame [of _ s, THEN core_ofD(1)] requestStateChan_frame [of _ s, THEN core_ofD(3)]
  by (auto simp: syncStateReady_def afterSync_frame apply_state_frame
      split: installPhase.split prod.split option.split) (metis snd_conv)+

lemma requestStateChan_recv: "recv (snd (requestStateChan v s)) = recv s"
  by (simp add: requestStateChan_def split: prod.split)

text \<open>The end of an installation changes nothing or brings a strictly newer view.\<close>

lemma syncStateReady_grows:
  assumes "server_inv s"
  shows "fst (syncStateReady s) = [] \<and> core_of (snd (syncStateReady s)) = core_of s \<and>
      recv (snd (syncStateReady s)) = recv s \<or>
    Entries (currentView s) \<subset> Entries (currentView (snd (syncStateReady s)))"
proof (cases "\<exists>isq. installPhase s = WaitingState isq")
  case True
  then obtain isq where isq: "installPhase s = WaitingState isq" by blast
  then have newer: "MoreUpdatedThan (is_InstallView isq) (currentView s)"
    and wf: "wf_view (is_InstallView isq)" "wf_view (currentView s)"
    using assms by (simp_all add: server_inv_def core_inv_def good_isq_def)
  obtain r s1 where r: "requestStateChan (is_AssociatedView isq) s = (r, s1)" by fastforce
  then have "core_of s1 = core_of s" "recv s1 = recv s"
    using requestStateChan_frame [of "is_AssociatedView isq" s] requestStateChan_recv [of "is_AssociatedView isq" s]
    by simp_all
  then show ?thesis
    using isq r newer wf core_ofD(2) [of s1 s]
    by (cases r) (auto simp: syncStateReady_def afterSync_frame apply_state_frame updateCurrentViewLocked_def)
qed (auto simp: syncStateReady_def split: installPhase.split)

lemma syncStateReady_view:
  assumes "server_inv s"
  shows "Entries (currentView s) \<subseteq> Entries (currentView (snd (syncStateReady s)))"
  using syncStateReady_grows [OF assms] core_ofD(2) [of "snd (syncStateReady s)" s] by auto

lemma server_step_view:
  "server_inv s \<Longrightarrow> Entries (currentView s) \<subseteq> Entries (currentView (snd (server_step e s)))"
  using live_step_frame [of e s] syncStateReady_view [of s]
  by (cases "e = StateReady") (auto simp: server_step_def)

lemma server_run_view:
  assumes "server_inv s" "\<forall>e \<in> set es. good_event e"
  shows "Entries (currentView s) \<subseteq> Entries (currentView (snd (server_run es s)))"
  using assms
proof (induction es arbitrary: s)
  case (Cons e es)
  have "server_inv (snd (server_step e s))"
    using server_run_inv [of s "[e]"] Cons.prems by simp
  with Cons server_step_view [of s e] show ?case by fastforce
qed simp

lemma server_run_fixed:
  "thisProcess (snd (server_run es s)) = thisProcess s \<and>
   useConsensus (snd (server_run es s)) = useConsensus s"
proof (induction es arbitrary: s)
  case (Cons e es)
  have "thisProcess (snd (server_step e s)) = thisProcess s \<and>
      useConsensus (snd (server_step e s)) = useConsensus s"
    using live_step_frame [of e s] syncStateReady_frame [of s]
    by (cases "e = StateReady") (auto simp: server_step_def)
  with Cons show ?case by simp
qed simp

lemma NewServer_inv:
  assumes "NewServer (Some addr) g v c = Created out s" "wf_view v"
  shows "server_inv s"
proof -
  have "server_inv (initServer addr v)" "server_inv (initServer addr v \<lparr>registerLocked := True\<rparr>)"
    using initServer_inv [OF assms(2), of addr] by (simp_all add: server_inv_def)
  with assms(1) show ?thesis by (auto simp: NewServer_def Let_def split: if_splits)
qed

section \<open>Properties of any run\<close>

text \<open>A server started by New keeps its invariant through every sequence of requests and
  goroutine turns: its view stays well formed, no update waits that the view already has,
  every message it sends is well formed (so what servers rely on is what servers send), and
  the only way it dies is the runtime error of unlocking an unlocked mutex, never the
  assertion against old views nor an index out of range.\<close>

theorem server_invariant:
  assumes "NewServer (Some addr) g v c = Created out s" "wf_view v" "\<forall>e \<in> set es. good_event e"
  shows "wf_view (currentView (snd (server_run es s))) \<and>
    recv (snd (server_run es s)) \<inter> Entries (currentView (snd (server_run es s))) = {} \<and>
    (\<forall>x \<in> set (fst (server_run es s)). good_server_out x) \<and>
    (\<forall>err. installPhase (snd (server_run es s)) = Crashed err \<longrightarrow>
       err = ''sync: Unlock of unlocked RWMutex'')"
proof -
  have "keeps_inv (server_run es s)"
    using server_run_inv [OF NewServer_inv [OF assms(1,2)] assms(3)] .
  then show ?thesis by (auto simp: server_inv_def core_inv_def)
qed

theorem server_invariant_witness:
  "\<exists>s :: nat Server. NewServer (Some ''b'') False (NewWithProcesses [Process ''a'']) True =
       Created (joinLocked s) s \<and>
     recv (snd (server_run [ReconfigReq \<lparr>rm_Update = Update Join (Process ''b''),
        rm_AssociatedView = NewWithProcesses [Process ''a'']\<rparr>, TimerFires, RunGeneration] s)) \<inter>
       Entries (currentView (snd (server_run [ReconfigReq \<lparr>rm_Update = Update Join (Process ''b''),
        rm_AssociatedView = NewWithProcesses [Process ''a'']\<rparr>, TimerFires, RunGeneration] s))) = {}"
proof -
  let ?v = "NewWithProcesses [Process ''a'']"
  let ?s = "initServer ''b'' ?v \<lparr>registerLocked := True\<rparr> :: nat Server"
  have new: "NewServer (Some ''b'') False ?v True = Created (joinLocked ?s) ?s"
    by (simp add: NewServer_def HasMember_def joinLocked_def Let_def)
  show ?thesis
    using server_invariant [OF new, of "[ReconfigReq \<lparr>rm_Update = Update Join (Process ''b''),
        rm_AssociatedView = ?v\<rparr>, TimerFires, RunGeneration]"] new
    by (intro exI [of _ ?s]) (simp del: server_run_Cons)
qed

text \<open>The current view of a server only grows: whatever happens between two moments, the later
  view holds every update of the earlier one, so the view of an error reply is never older
  than one the server reported before.\<close>

theorem server_view_only_grows:
  assumes "NewServer (Some addr) g v c = Created out s" "wf_view v"
    "\<forall>e \<in> set es. good_event e" "\<forall>e \<in> set fs. good_event e"
  shows "\<not> LessUpdatedThan (currentView (snd (server_run fs (snd (server_run es s)))))
      (currentView (snd (server_run es s)))"
proof -
  let ?t = "snd (server_run es s)"
  have inv: "server_inv ?t" using server_run_inv [OF NewServer_inv [OF assms(1,2)] assms(3)] by blast
  then have "Entries (currentView ?t) \<subseteq> Entries (currentView (snd (server_run fs ?t)))"
    using server_run_view assms(4) by blast
  moreover have "server_inv (snd (server_run fs ?t))" using server_run_inv [OF inv assms(4)] by blast
  ultimately show ?thesis using inv by (simp add: server_inv_def core_inv_def)
qed

theorem server_view_only_grows_witness:
  "\<exists>s :: nat Server. \<not> LessUpdatedThan (currentView (snd (server_run [TimerFires] (snd (server_run
      [LeaveReq] s))))) (currentView (snd (server_run [LeaveReq] s)))"
proof -
  let ?v = "NewWithProcesses [Process ''a'']"
  have new: "NewServer (Some ''a'') False ?v False =
      Created [] (initServer ''a'' ?v :: nat Server)"
    by (simp add: NewServer_def HasMember_def Let_def)
  show ?thesis
    using server_view_only_grows [OF new, of "[LeaveReq]" "[TimerFires]"]
    by (intro exI [of _ "initServer ''a'' ?v"]) (simp del: server_run_Cons)
qed

lemma no_consensus_step:
  assumes "\<not> useConsensus s"
  shows "ConsensusPropose w seq \<notin> set (fst (live_step e s))"
proof (cases e)
  case RunGeneration
  then show ?thesis
    using assms
    by (auto simp: runGeneration_def generateViewSequenceWithoutConsensus_def
        getOrCreateViewGenerator_def emit_worker_eq Let_def split: list.split option.splits prod.split
        if_splits)
qed (auto simp: RegisterService_Write_def ProposeSeqView_def SeqConvRequest_def
      getOrCreateViewGenerator_def AdminService_Leave_def leave_def startReconfiguration_def
      runWorker_def emit_worker_eq consensusDecided_def generatedViewSeqProcessing_def
      installSeqProcessing_def gotInstallSeqQuorum_def stateUpdateProcessing_def syncStateReady_def
      afterSync_def viewInstalledProcessing_def Let_def case_prod_beta
      split: list.splits option.splits prod.splits if_splits installPhase.splits)

lemma no_consensus_run:
  "\<not> useConsensus s \<Longrightarrow> ConsensusPropose w seq \<notin> set (fst (server_run es s))"
proof (induction es arbitrary: s)
  case (Cons e es)
  have "useConsensus (snd (server_step e s)) = useConsensus s"
    using server_run_fixed [of "[e]" s] by simp
  with Cons no_consensus_step [of s w seq e] show ?case by (auto simp: server_step_def)
qed simp

text \<open>Whatever New is told about consensus, the server it makes never uses it: the two servers
  are the same, and no run of either ever proposes a value to consensus.\<close>

theorem consensus_never_used:
  "NewServer listenAddr g v True = (NewServer listenAddr g v False :: 'a new_result) \<and>
   (NewServer listenAddr g v c = Created out (s :: 'a Server) \<longrightarrow>
      ConsensusPropose w seq \<notin> set (fst (server_run es s)))"
proof -
  have "NewServer listenAddr g v c = Created out s \<Longrightarrow> \<not> useConsensus s" for s :: "'a Server"
    by (auto simp: NewServer_def Let_def split: option.splits if_splits)
  then show ?thesis using no_consensus_run [of s w seq es] by (auto simp: NewServer_def)
qed

theorem consensus_never_used_witness:
  "\<exists>s :: nat Server. NewServer (Some ''a'') False (NewWithProcesses [Process ''a'']) True = Created [] s \<and>
     (\<forall>w seq es. ConsensusPropose w seq \<notin> set (fst (server_run es s)))"
proof -
  have "NewServer (Some ''a'') False (NewWithProcesses [Process ''a'']) True =
      Created [] (initServer ''a'' (NewWithProcesses [Process ''a'']) :: nat Server)"
    by (simp add: NewServer_def HasMember_def Let_def)
  then show ?thesis using consensus_never_used by blast
qed

section \<open>Installing one view\<close>

lemma requestStateChan_eq:
  "requestStateChan v s = (r, s1) \<Longrightarrow> core_of s1 = core_of s \<and> recv s1 = recv s \<and>
   generations s1 = generations s \<and> installPhase s1 = installPhase s"
  by (auto simp: requestStateChan_def core_of_def split: prod.splits)

text \<open>C9: A server of the old and the new view installs a newer view in one step: it first locks
  the register and sends its state to the members of the new view; once the transferred
  state is there, the view, the register and the waiting updates change together, the
  members that leave are told, and the register is released unless the sequence has a still
  newer view, for which the next generation is queued.\<close>

theorem install_view_completes:
  assumes "good_isq isq" "wf_view (currentView s)" "MoreUpdatedThan (is_InstallView isq) (currentView s)"
    and "HasMember (is_AssociatedView isq) (thisProcess s)" "HasMember (is_InstallView isq) (thisProcess s)"
    and "installPhase s = Receiving" "viewReaders s = 0" "registerLocked s = registerLockOnce s"
    and "requestStateChan (is_AssociatedView isq) (snd (gotInstallSeqQuorum isq s)) = (Some st, s1)"
    and "finite (st_recv st)"
  defines "further \<equiv> HasViewMoreUpdatedThan (is_ViewSeq isq) (is_InstallView isq)"
    and "t \<equiv> syncStateReady (snd (gotInstallSeqQuorum isq s))"
  shows "fst (gotInstallSeqQuorum isq s) = [BroadcastStateUpdate (is_InstallView isq)
      \<lparr>ssm_Value = Value (register s), ssm_Timestamp = Timestamp (register s), ssm_Recv = recv s,
       ssm_AssociatedView = is_AssociatedView isq\<rparr>] \<and>
    registerLocked (snd (gotInstallSeqQuorum isq s)) \<and>
    currentView (snd t) = is_InstallView isq \<and> installPhase (snd t) = Receiving \<and>
    Value (register (snd t)) = Value (finalValue st) \<and>
    Timestamp (register (snd t)) = Timestamp (finalValue st) \<and>
    recv (snd t) = (recv s \<union> st_recv st) - Entries (is_InstallView isq) \<and>
    registerLocked (snd t) = further \<and> registerLockOnce (snd t) = further \<and>
    generations (snd t) = generations s @
      (if further then [(is_InstallView isq, filter (\<lambda>w. MoreUpdatedThan w (is_InstallView isq))
         (is_ViewSeq isq))] else [])"
proof -
  let ?l = "s\<lparr>registerLockOnce := True, registerLocked := True\<rparr>"
  let ?w = "(if registerLockOnce s then s else ?l)\<lparr>installPhase := WaitingState isq\<rparr>"
  have got: "gotInstallSeqQuorum isq s =
      ([BroadcastStateUpdate (is_InstallView isq) (syncStateMsg_of isq s)], ?w)"
    using assms(3-8) by (simp add: gotInstallSeqQuorum_def afterStateSent_def syncStateMsg_of_def Let_def)
  have fin: "finite (Entries (is_InstallView isq))" using assms(1) by (simp add: good_isq_def)
  have core: "core_of s1 = core_of ?w" "recv s1 = recv s" "generations s1 = generations s"
    using requestStateChan_eq [OF assms(9)] got by simp_all
  note c = core_ofD [OF core(1)]
  have t: "t = afterSync isq (apply_state st isq s1)"
    using assms(9) got by (simp add: t_def syncStateReady_def)
  have "registerLocked s1" "registerLockOnce s1" "currentView s1 = currentView s"
    "thisProcess s1 = thisProcess s"
    using c assms(8) by simp_all
  then show ?thesis
    using got core(2,3) assms(3,4,8) fin assms(10)
    by (simp add: t afterSync_def apply_state_eq updateCurrentViewLocked_def further_def
        installOthersViewsFromViewSeqLocked_def newer_views_eq syncStateMsg_of_def Let_def)
qed

theorem install_view_completes_witness:
  "let v = NewWithProcesses [Process ''a'']; w = NewWithProcesses [Process ''a'', Process ''b''];
       st = \<lparr>finalValue = zero_Value\<lparr>Value := Some (5::nat), Timestamp := 7\<rparr>, st_recv = {}\<rparr>;
       s = initServer ''a'' v \<lparr>stateUpdateQuorumCounterList :=
             [(new_stateUpdateQuorum v)\<lparr>resultChan := Some st\<rparr>]\<rparr>;
       isq = \<lparr>is_InstallView = w, is_ViewSeq = [w], is_AssociatedView = v\<rparr>;
       t = snd (syncStateReady (snd (gotInstallSeqQuorum isq s)))
   in currentView t = w \<and> Timestamp (register t) = 7"
proof -
  let ?v = "NewWithProcesses [Process ''a'']" and ?w = "NewWithProcesses [Process ''a'', Process ''b'']"
  let ?st = "\<lparr>finalValue = zero_Value\<lparr>Value := Some (5::nat), Timestamp := 7\<rparr>, st_recv = {}\<rparr>"
  let ?s = "initServer ''a'' ?v \<lparr>stateUpdateQuorumCounterList :=
             [(new_stateUpdateQuorum ?v)\<lparr>resultChan := Some ?st\<rparr>]\<rparr>"
  let ?isq = "\<lparr>is_InstallView = ?w, is_ViewSeq = [?w], is_AssociatedView = ?v\<rparr>"
  have newer: "MoreUpdatedThan ?w ?v" by (auto simp: NewWithProcesses_eq)
  have "stateUpdateQuorumCounterList (snd (gotInstallSeqQuorum ?isq ?s)) =
      [(new_stateUpdateQuorum ?v)\<lparr>resultChan := Some ?st\<rparr>]"
    using newer by (simp add: gotInstallSeqQuorum_def afterStateSent_def HasMember_def Let_def
        del: MoreUpdatedThan_wf_iff)
  then obtain s1 where r: "requestStateChan ?v (snd (gotInstallSeqQuorum ?isq ?s)) = (Some ?st, s1)"
    by (simp add: requestStateChan_def getOrCreateStateUpdateQuorum_def new_stateUpdateQuorum_def)
  show ?thesis
    using install_view_completes [of ?isq ?s ?st s1] newer r
    by (simp add: good_isq_def HasMember_def zero_Value_def Let_def del: MoreUpdatedThan_wf_iff)
qed

end
