(* ===== verification/State_Transfer.thy ===== *)
theory State_Transfer
  imports Installation
begin

text \<open>
  The state update loop of \<^verbatim>\<open>reconfiguration.go\<close>. The accumulated state of one associated view
  is a timestamped cell (an interpretation of \<open>timestamped_cell\<close>); messages of different
  associated views do not disturb each other; and the state a joining server reads is the
  newest one of a quorum, which therefore holds every write that a quorum of the old view
  had accepted when it sent its state.
\<close>

section \<open>One accumulator\<close>

interpretation acc: timestamped_cell count_stateUpdate "\<lambda>_. True"
    "\<lambda>q. Timestamp (finalValue (suq_State q))" "\<lambda>q. Value (finalValue (suq_State q))"
    ssm_Timestamp ssm_Value
  by unfold_locales (simp_all add: count_stateUpdate_def Let_def)

lemma count_stateUpdate_simps:
  "suq_counter (count_stateUpdate q m) = suq_counter q + 1"
  "suq_associatedView (count_stateUpdate q m) = suq_associatedView q"
  "finite (ssm_Recv m) \<Longrightarrow> st_recv (suq_State (count_stateUpdate q m)) = st_recv (suq_State q) \<union> ssm_Recv m"
  "resultChan (count_stateUpdate q m) =
     (if suq_counter q + 1 = QuorumSize (ssm_AssociatedView m)
      then Some (State_NewCopy (suq_State (count_stateUpdate q m))) else resultChan q)"
  by (simp_all add: count_stateUpdate_def Let_def)

abbreviation accumulate :: "View \<Rightarrow> 'a SyncStateMsg list \<Rightarrow> 'a stateUpdateQuorumType" where
  "accumulate av ms \<equiv> foldl count_stateUpdate (new_stateUpdateQuorum av) ms"

lemma accumulate_counter: "suq_counter (accumulate av ms) = length ms"
  by (induction ms rule: rev_induct) (simp_all add: count_stateUpdate_simps new_stateUpdateQuorum_def)

lemma accumulate_view [simp]: "suq_associatedView (accumulate av ms) = av"
  by (induction ms rule: rev_induct) (simp_all add: count_stateUpdate_simps new_stateUpdateQuorum_def)

lemma accumulate_recv:
  "\<forall>m \<in> set ms. finite (ssm_Recv m) \<Longrightarrow>
   st_recv (suq_State (accumulate av ms)) = (\<Union>m \<in> set ms. ssm_Recv m)"
  by (induction ms rule: rev_induct) (auto simp: count_stateUpdate_simps new_stateUpdateQuorum_def)

text \<open>The result is the state after exactly a quorum of messages, and later ones do not change it.\<close>

lemma accumulate_result:
  assumes "\<forall>m \<in> set ms. ssm_AssociatedView m = av"
  shows "resultChan (accumulate av ms) =
    (if QuorumSize av \<le> length ms
     then Some (State_NewCopy (suq_State (accumulate av (take (QuorumSize av) ms)))) else None)"
  using assms
proof (induction ms rule: rev_induct)
  case (snoc m ms)
  show ?case
  proof (cases "length ms + 1 = QuorumSize av")
    case True
    then have "take (QuorumSize av) (ms @ [m]) = ms @ [m]" by simp
    with True snoc.prems show ?thesis
      by (simp add: count_stateUpdate_simps(4) accumulate_counter)
  next
    case False
    then have "QuorumSize av \<le> length (ms @ [m]) \<longleftrightarrow> QuorumSize av \<le> length ms" by auto
    with False snoc show ?thesis
      by (simp add: count_stateUpdate_simps(4) accumulate_counter)
  qed
qed (simp add: new_stateUpdateQuorum_def QuorumSize_eq)

lemma State_NewCopy_eq:
  "finite (st_recv st) \<Longrightarrow> st_recv (State_NewCopy st) = st_recv st"
  "Value (finalValue (State_NewCopy st)) = Value (finalValue st)"
  "Timestamp (finalValue (State_NewCopy st)) = Timestamp (finalValue st)"
  by (simp_all add: State_NewCopy_def)

section \<open>The list of accumulators\<close>

definition suq_lookup :: "'a stateUpdateQuorumType list \<Rightarrow> View \<Rightarrow> 'a stateUpdateQuorumType" where
  "suq_lookup qs av = (case getOrCreateStateUpdateQuorum qs av of (i, qs1) \<Rightarrow> qs1 ! i)"

abbreviation wf_suqs :: "'a stateUpdateQuorumType list \<Rightarrow> bool" where
  "wf_suqs qs \<equiv> \<forall>q \<in> set qs. wf_view (suq_associatedView q)"

lemma getStateUpdateQuorumCounter_shift:
  "getStateUpdateQuorumCounter (Suc i) qs av = map_option Suc (getStateUpdateQuorumCounter i qs av)"
  by (induction qs arbitrary: i) auto

lemma suq_lookup_simps:
  "suq_lookup [] av = new_stateUpdateQuorum av"
  "suq_lookup (q # qs) av = (if View_Equal (suq_associatedView q) av then q else suq_lookup qs av)"
  by (auto simp: suq_lookup_def getOrCreateStateUpdateQuorum_def getStateUpdateQuorumCounter_shift
      split: option.split)

definition suq_count ::
    "'a stateUpdateQuorumType list \<Rightarrow> 'a SyncStateMsg \<Rightarrow> 'a stateUpdateQuorumType list" where
  "suq_count qs m = (case getOrCreateStateUpdateQuorum qs (ssm_AssociatedView m) of
     (i, qs1) \<Rightarrow> qs1[i := count_stateUpdate (qs1 ! i) m])"

lemma suq_count_simps:
  "suq_count [] m = [count_stateUpdate (new_stateUpdateQuorum (ssm_AssociatedView m)) m]"
  "suq_count (q # qs) m =
     (if View_Equal (suq_associatedView q) (ssm_AssociatedView m) then count_stateUpdate q m # qs
      else q # suq_count qs m)"
  by (auto simp: suq_count_def getOrCreateStateUpdateQuorum_def getStateUpdateQuorumCounter_shift
      split: option.split)

lemma suq_count_wf:
  "wf_suqs qs \<Longrightarrow> wf_view (ssm_AssociatedView m) \<Longrightarrow> wf_suqs (suq_count qs m)"
  by (induction qs) (auto simp: suq_count_simps count_stateUpdate_simps new_stateUpdateQuorum_def)

lemma suq_lookup_count:
  assumes "wf_suqs qs" "wf_view (ssm_AssociatedView m)" "wf_view av"
  shows "suq_lookup (suq_count qs m) av =
    (if ssm_AssociatedView m = av then count_stateUpdate (suq_lookup qs av) m else suq_lookup qs av)"
  using assms
  by (induction qs)
    (auto simp: suq_count_simps suq_lookup_simps count_stateUpdate_simps new_stateUpdateQuorum_def)

text \<open>Receiving and processing a list of state messages, one after the other.\<close>

definition receive_states :: "'a SyncStateMsg list \<Rightarrow> 'a Server \<Rightarrow> 'a Server" where
  "receive_states ms s = foldl (\<lambda>s m. snd (stateUpdateProcessing (StateUpdate m s))) s ms"

lemma receive_state:
  "syncStateMsgChan s = [] \<Longrightarrow> snd (stateUpdateProcessing (StateUpdate m s)) =
   s\<lparr>stateUpdateQuorumCounterList := suq_count (stateUpdateQuorumCounterList s) m\<rparr>"
  by (simp add: stateUpdateProcessing_def StateUpdate_def suq_count_def split: prod.split)

lemma receive_states_eq:
  "syncStateMsgChan s = [] \<Longrightarrow> receive_states ms s =
   s\<lparr>stateUpdateQuorumCounterList := foldl suq_count (stateUpdateQuorumCounterList s) ms\<rparr>"
proof (induction ms arbitrary: s)
  case (Cons m ms)
  let ?s1 = "s\<lparr>stateUpdateQuorumCounterList := suq_count (stateUpdateQuorumCounterList s) m\<rparr>"
  have "receive_states (m # ms) s = receive_states ms ?s1"
    using receive_state [OF Cons.prems] by (simp add: receive_states_def)
  with Cons.IH [of ?s1] Cons.prems show ?case by simp
qed (simp add: receive_states_def)

lemma suq_lookup_fold:
  assumes "\<forall>m \<in> set ms. wf_view (ssm_AssociatedView m)" "wf_view av" "wf_suqs qs"
  shows "suq_lookup (foldl suq_count qs ms) av =
    foldl count_stateUpdate (suq_lookup qs av) (filter (\<lambda>m. ssm_AssociatedView m = av) ms)"
  using assms
proof (induction ms arbitrary: qs)
  case (Cons m ms)
  then have "wf_suqs (suq_count qs m)" using suq_count_wf [of qs m] by simp
  with Cons show ?case by (simp add: suq_lookup_count)
qed simp

text \<open>What \<open>syncState\<close> finds, whatever messages of other views came in between.\<close>

lemma requestStateChan_result:
  assumes "syncStateMsgChan s = []" "stateUpdateQuorumCounterList s = []"
    and "\<forall>m \<in> set ms. wf_view (ssm_AssociatedView m)" "wf_view av"
    and "filter (\<lambda>m. ssm_AssociatedView m = av) ms = ns @ rest" "length ns = QuorumSize av"
  shows "fst (requestStateChan av (receive_states ms s)) =
    Some (State_NewCopy (suq_State (accumulate av ns)))"
proof -
  have "fst (requestStateChan av (receive_states ms s)) =
      resultChan (suq_lookup (foldl suq_count [] ms) av)"
    using assms(1,2) by (simp add: receive_states_eq requestStateChan_def suq_lookup_def
        split: prod.split)
  also have "\<dots> = resultChan (accumulate av (ns @ rest))"
    using suq_lookup_fold [of ms av "[]"] assms(3-5) by (simp add: suq_lookup_simps)
  also have "\<dots> = Some (State_NewCopy (suq_State (accumulate av ns)))"
  proof -
    have "\<forall>m \<in> set (ns @ rest). ssm_AssociatedView m = av"
      unfolding assms(5) [symmetric] by simp
    from accumulate_result [OF this] show ?thesis using assms(6) by simp
  qed
  finally show ?thesis .
qed

section \<open>Properties\<close>

lemma accumulate_newest:
  fixes ms :: "'a SyncStateMsg list"
  assumes "ms \<noteq> []" "\<forall>m \<in> set ms. 0 \<le> ssm_Timestamp m"
  shows "\<exists>m \<in> set ms. Timestamp (finalValue (suq_State (accumulate av ms))) = ssm_Timestamp m \<and>
      Value (finalValue (suq_State (accumulate av ms))) = ssm_Value m"
    and "\<forall>m \<in> set ms. ssm_Timestamp m \<le> Timestamp (finalValue (suq_State (accumulate av ms)))"
proof -
  let ?q = "accumulate av ms"
  have init: "Timestamp (finalValue (suq_State (new_stateUpdateQuorum av :: 'a stateUpdateQuorumType))) = - 1"
    by (simp add: new_stateUpdateQuorum_def)
  have ts: "Timestamp (finalValue (suq_State ?q)) = Max (insert (- 1) (ssm_Timestamp ` set ms))"
    using acc.stamp_fold_Max [of "new_stateUpdateQuorum av" ms] init by simp
  then show ge: "\<forall>m \<in> set ms. ssm_Timestamp m \<le> Timestamp (finalValue (suq_State ?q))" by simp
  obtain m where "m \<in> set ms" using assms(1) by (cases ms) auto
  then have "0 \<le> Timestamp (finalValue (suq_State ?q))" using assms(2) ge by force
  then show "\<exists>m \<in> set ms. Timestamp (finalValue (suq_State ?q)) = ssm_Timestamp m \<and>
      Value (finalValue (suq_State ?q)) = ssm_Value m"
    using acc.fold_content [of "new_stateUpdateQuorum av" ms] init by (auto dest: nth_mem)
qed

text \<open>C5: State transfer loses no write: when the first quorum of state messages for the old view
  came from distinct members of it, then, however they interleave with messages of other
  views, the state a server of the new view reads is that of one of them, is at least as
  new as any write that a quorum of the old view had accepted, and includes every update
  that was waiting at a quorum of the old view.\<close>

theorem state_transfer_keeps_writes:
  fixes servers :: "Process \<Rightarrow> 'a Server"
  assumes "syncStateMsgChan s = []" "stateUpdateQuorumCounterList s = []"
    and "wf_view (is_AssociatedView isq)" "\<forall>m \<in> set ms. wf_view (ssm_AssociatedView m)"
    and "filter (\<lambda>m. ssm_AssociatedView m = is_AssociatedView isq) ms =
      map (\<lambda>p. syncStateMsg_of isq (servers p)) senders @ rest"
    and "distinct senders" "set senders \<subseteq> Members (is_AssociatedView isq)"
      "length senders = QuorumSize (is_AssociatedView isq)"
    and "\<forall>p \<in> set senders. 0 \<le> Timestamp (register (servers p)) \<and> finite (recv (servers p))"
    and "W \<subseteq> Members (is_AssociatedView isq)" "QuorumSize (is_AssociatedView isq) \<le> card W"
      "\<forall>p \<in> W. t \<le> Timestamp (register (servers p)) \<and> u \<in> recv (servers p)"
  shows "\<exists>st. fst (requestStateChan (is_AssociatedView isq) (receive_states ms s)) = Some st \<and>
    t \<le> Timestamp (finalValue st) \<and> u \<in> st_recv st \<and>
    (\<exists>p \<in> set senders. Timestamp (finalValue st) = Timestamp (register (servers p)) \<and>
       Value (finalValue st) = Value (register (servers p)))"
proof -
  let ?av = "is_AssociatedView isq"
  let ?ns = "map (\<lambda>p. syncStateMsg_of isq (servers p)) senders"
  let ?st = "suq_State (accumulate ?av ?ns)"
  have ssm: "ssm_Timestamp (syncStateMsg_of isq r) = Timestamp (register r)"
    "ssm_Value (syncStateMsg_of isq r) = Value (register r)"
    "ssm_Recv (syncStateMsg_of isq r) = recv r" for r :: "'a Server"
    by (simp_all add: syncStateMsg_of_def)
  have "card (set senders) = QuorumSize ?av" using assms(6,8) by (simp add: distinct_card)
  then obtain p where p: "p \<in> W" "p \<in> set senders"
    using vq.quorums_meet [of ?av W "set senders"] assms(3,7,10,11) by (metis order_refl)
  have ns: "?ns \<noteq> []" "\<forall>m \<in> set ?ns. 0 \<le> ssm_Timestamp m" "\<forall>m \<in> set ?ns. finite (ssm_Recv m)"
    using p(2) assms(9) by (auto simp: ssm)
  have recv: "st_recv ?st = (\<Union>q \<in> set senders. recv (servers q))"
    using accumulate_recv [OF ns(3)] by (simp add: ssm)
  have "finite (st_recv ?st)" unfolding recv using assms(9) by simp
  then have copy: "st_recv (State_NewCopy ?st) = st_recv ?st" by (rule State_NewCopy_eq)
  have "t \<le> Timestamp (register (servers p))" "u \<in> recv (servers p)" using p(1) assms(12) by auto
  moreover have "Timestamp (register (servers p)) \<le> Timestamp (finalValue ?st)"
    using accumulate_newest(2) [OF ns(1,2), of ?av] p(2) by (auto simp: ssm)
  ultimately have "t \<le> Timestamp (finalValue ?st)" "u \<in> st_recv ?st"
    using p(2) recv by auto
  moreover have "\<exists>p \<in> set senders. Timestamp (finalValue ?st) = Timestamp (register (servers p)) \<and>
      Value (finalValue ?st) = Value (register (servers p))"
    using accumulate_newest(1) [OF ns(1,2), of ?av] by (auto simp: ssm)
  moreover have "fst (requestStateChan ?av (receive_states ms s)) = Some (State_NewCopy ?st)"
    using requestStateChan_result [OF assms(1,2,4,3,5)] assms(8) by simp
  ultimately show ?thesis using State_NewCopy_eq(2,3) [of ?st] copy by auto
qed

theorem state_transfer_keeps_writes_witness:
  "let v = NewWithProcesses [Process ''a'', Process ''b'', Process ''c''];
       u = Update Join (Process ''d'');
       isq = \<lparr>is_InstallView = NewCopyWithUpdates v [u], is_ViewSeq = [NewCopyWithUpdates v [u]],
              is_AssociatedView = v\<rparr>;
       r = initServer ''a'' v \<lparr>register := zero_Value\<lparr>Value := Some (5::nat), Timestamp := 3\<rparr>,
             recv := {u}\<rparr>
   in \<exists>st. fst (requestStateChan v (receive_states
           [syncStateMsg_of isq r, syncStateMsg_of isq r] (initServer ''d'' v))) = Some st \<and>
         3 \<le> Timestamp (finalValue st) \<and> u \<in> st_recv st"
proof -
  let ?v = "NewWithProcesses [Process ''a'', Process ''b'', Process ''c'']"
  let ?u = "Update Join (Process ''d'')"
  let ?isq = "\<lparr>is_InstallView = NewCopyWithUpdates ?v [?u], is_ViewSeq = [NewCopyWithUpdates ?v [?u]],
              is_AssociatedView = ?v\<rparr>"
  let ?r = "initServer ''a'' ?v \<lparr>register := zero_Value\<lparr>Value := Some (5::nat), Timestamp := 3\<rparr>,
             recv := {?u}\<rparr>"
  have q: "QuorumSize ?v = 2" by (simp add: QuorumSize_eq NumberOfMembers_def)
  have "ssm_AssociatedView (syncStateMsg_of ?isq ?r) = ?v" by (simp add: syncStateMsg_of_def)
  then show ?thesis
    using state_transfer_keeps_writes [of "initServer ''d'' ?v" ?isq
        "[syncStateMsg_of ?isq ?r, syncStateMsg_of ?isq ?r]" "\<lambda>_. ?r"
        "[Process ''a'', Process ''b'']" "[]" "{Process ''b'', Process ''c''}" 3 ?u] q
    by (auto simp: Let_def)
qed

end
