(* ===== verification/Install_Locks.thy ===== *)
theory Install_Locks
  imports State_Transfer
begin

text \<open>
  The two mutexes of an installation. \<^verbatim>\<open>gotInstallSeqQuorum\<close> takes \<^verbatim>\<open>currentViewMu\<close> and then
  \<^verbatim>\<open>register.mu\<close>, and keeps \<^verbatim>\<open>register.mu\<close> from one view of a sequence to the next; a request
  handler takes them in the same order but keeps the first while it waits for the second;
  and a joining server starts with \<^verbatim>\<open>register.mu\<close> taken outside of \<^verbatim>\<open>registerLockOnce\<close>. The
  theorems show both consequences: a server that never answers again.
\<close>

section \<open>Requests that wait with the view lock\<close>

lemma reader_step:
  assumes "server_inv s" "viewReaders s \<noteq> 0"
  shows "viewReaders (snd (server_step e s)) \<noteq> 0 \<and> registerLocked (snd (server_step e s)) \<and>
    currentView (snd (server_step e s)) = currentView s"
proof (cases "e = StateReady")
  case True
  have "syncStateReady s = ([], s)"
    using assms by (auto simp: server_inv_def syncStateReady_def split: installPhase.split)
  with True assms show ?thesis by (auto simp: server_step_def server_inv_def)
next
  case False
  have "registerLocked s" using assms by (simp add: server_inv_def)
  with live_step_frame [OF False, of s] assms(2) show ?thesis by (auto simp: server_step_def)
qed

lemma reader_run:
  assumes "server_inv s" "viewReaders s \<noteq> 0" "\<forall>e \<in> set es. good_event e"
  shows "viewReaders (snd (server_run es s)) \<noteq> 0 \<and> registerLocked (snd (server_run es s)) \<and>
    currentView (snd (server_run es s)) = currentView s"
  using assms
proof (induction es arbitrary: s)
  case Nil
  then show ?case by (simp add: server_inv_def)
next
  case (Cons e es)
  have "server_inv (snd (server_step e s))" using server_run_inv [of s "[e]"] Cons.prems by simp
  with Cons reader_step [of s e] show ?case by simp
qed

text \<open>C38: A server whose register is locked between two views of a sequence is wedged by a single
  read for its current view: the handler keeps the view lock while it waits for the
  register, the next installation waits for the view lock, so whatever happens afterwards
  the view never changes, the register is never released and no read for that view is
  answered.\<close>

theorem read_wedges_reconfiguration:
  assumes "NewServer (Some addr) g v c = Created out s0" "wf_view v" "\<forall>e \<in> set es. good_event e"
    and "s = snd (server_run es s0)" "installPhase s = Receiving" "registerLocked s"
    and "\<forall>e \<in> set fs. good_event e"
    and "t = snd (server_run (ReadReq (VRef (currentView s)) # fs) s)"
  shows "currentView t = currentView s \<and> registerLocked t \<and>
    (\<forall>r. RegisterService_Read t (VRef (currentView s)) \<noteq> Reply r)"
proof -
  let ?s1 = "snd (server_step (ReadReq (VRef (currentView s))) s)"
  have inv: "server_inv s"
    using server_run_inv [OF NewServer_inv [OF assms(1,2)] assms(3)] assms(4) by simp
  have "server_inv ?s1" using server_run_inv [OF inv, of "[ReadReq (VRef (currentView s))]"] by simp
  moreover have "viewReaders ?s1 \<noteq> 0" "currentView ?s1 = currentView s"
    using assms(5,6) by (simp_all add: server_step_def hold_view_def RegisterService_Read_def)
  ultimately show ?thesis
    using reader_run [of ?s1 fs] assms(7,8) by (simp add: RegisterService_Read_def)
qed

theorem read_wedges_reconfiguration_witness:
  "let v = NewWithProcesses [Process ''a'']; s = initServer ''b'' v \<lparr>registerLocked := True\<rparr>;
       t = snd (server_run [ReadReq (VRef v), TimerFires] (s :: nat Server))
   in currentView t = v \<and> registerLocked t"
proof -
  let ?v = "NewWithProcesses [Process ''a'']"
  let ?s = "initServer ''b'' ?v \<lparr>registerLocked := True\<rparr> :: nat Server"
  have new: "NewServer (Some ''b'') False ?v False = Created (joinLocked (initServer ''b'' ?v)) ?s"
    by (simp add: NewServer_def HasMember_def Let_def)
  show ?thesis
    using read_wedges_reconfiguration [OF new, of "[]" ?s "[TimerFires]"
        "snd (server_run [ReadReq (VRef ?v), TimerFires] ?s)"]
    by (simp add: Let_def del: server_run_Cons)
qed

section \<open>Joining through more than one view\<close>

lemma getOrCreate_phase:
  "getOrCreateViewGenerator v initial s = Some (i, t) \<Longrightarrow> installPhase (snd t) = installPhase s"
  by (rule getOrCreateViewGenerator_core [THEN conjunct2])

lemma stuck_phase:
  assumes "installPhase s = WaitingRegisterLock isq"
  shows "installPhase (snd (live_step e s)) = WaitingRegisterLock isq \<or>
    installPhase (snd (live_step e s)) \<in>
      {Crashed ''BUG! Found an old view in view sequence'', Crashed ''FATAL: consensus'',
       Crashed ''index out of range''}"
proof (cases e)
  case RunGeneration
  then show ?thesis
    using assms
    by (auto simp: runGeneration_def generateViewSequenceWithoutConsensus_def
        generateViewSequenceWithConsensus_def Let_def split: list.split option.split
        dest!: getOrCreate_phase)
next
  case (ProposeSeqViewReq m)
  then show ?thesis
    using assms by (auto simp: ProposeSeqView_def add_job_def split: option.split dest!: getOrCreate_phase)
next
  case (SeqConvReq m)
  then show ?thesis
    using assms by (auto simp: SeqConvRequest_def add_job_def split: option.split dest!: getOrCreate_phase)
qed (use assms in \<open>auto simp: RegisterService_Write_def RegisterService_Read_def hold_view_def
      Reconfig_def InstallSeqRequest_def StateUpdate_def ViewInstalled_def AdminService_Leave_def
      startReconfiguration_def runWorker_def emit_worker_eq consensusDecided_def
      generatedViewSeqProcessing_def installSeqProcessing_def stateUpdateProcessing_def
      syncStateReady_def viewInstalledProcessing_def case_prod_beta Let_def
      split: list.split option.split\<close>)

lemma stuck_step:
  assumes "server_inv s" "good_event e" "installPhase s = WaitingRegisterLock isq"
  shows "installPhase (snd (server_step e s)) = WaitingRegisterLock isq"
proof -
  have "phase_ok (snd (live_step e s)) (installPhase (snd (live_step e s)))"
    using live_step_inv [OF assms(1,2)] by (simp add: server_inv_def)
  with stuck_phase [OF assms(3), of e] assms(3) show ?thesis by (auto simp: server_step_def)
qed

lemma stuck_run:
  assumes "server_inv s" "\<forall>e \<in> set es. good_event e" "installPhase s = WaitingRegisterLock isq"
  shows "installPhase (snd (server_run es s)) = WaitingRegisterLock isq"
  using assms
proof (induction es arbitrary: s)
  case (Cons e es)
  have "server_inv (snd (server_step e s))" using server_run_inv [of s "[e]"] Cons.prems by simp
  with Cons stuck_step [of s e isq] show ?case by simp
qed simp

text \<open>The first installation of a joining server whose sequence goes on leaves its register locked.\<close>

lemma joiner_first_install:
  assumes "server_inv s" "registerLocked s" "\<not> registerLockOnce s" "viewReaders s = 0"
    and "good_isq isq" "MoreUpdatedThan (is_InstallView isq) (currentView s)"
    and "\<not> HasMember (is_AssociatedView isq) (thisProcess s)"
      "HasMember (is_InstallView isq) (thisProcess s)"
    and "HasViewMoreUpdatedThan (is_ViewSeq isq) (is_InstallView isq)"
    and "requestStateChan (is_AssociatedView isq) (snd (gotInstallSeqQuorum isq s)) = (Some st, s1)"
    and "t = snd (syncStateReady (snd (gotInstallSeqQuorum isq s)))"
  shows "server_inv t \<and> currentView t = is_InstallView isq \<and> installPhase t = Receiving \<and>
    registerLocked t \<and> \<not> registerLockOnce t \<and> viewReaders t = 0 \<and> thisProcess t = thisProcess s"
proof -
  have got: "snd (gotInstallSeqQuorum isq s) = s\<lparr>installPhase := WaitingState isq\<rparr>"
    using assms(4,6,7,8) by (simp add: gotInstallSeqQuorum_def afterStateSent_def Let_def)
  note core = requestStateChan_eq [OF assms(10)]
  have "t = snd (afterSync isq (apply_state st isq s1))"
    using assms(10,11) got by (simp add: syncStateReady_def)
  moreover have "server_inv t"
    using syncStateReady_inv gotInstallSeqQuorum_inv [OF assms(1,5)] assms(11) by blast
  ultimately show ?thesis
    using core assms(2-4,6,9) got
    by (simp add: core_of_def afterSync_def apply_state_def updateCurrentViewLocked_def
        installOthersViewsFromViewSeqLocked_def Let_def)
qed

text \<open>C37: A server that joins through a sequence of more than one view never serves: New locked its
  register outside of registerLockOnce, the first installation leaves it locked because a
  newer view follows, and the second installation, of which the server is now an old
  member, tries to lock it again while it holds the view lock. After that, whatever happens,
  the installation waits and no request is answered.\<close>

theorem joining_through_two_views_deadlocks:
  assumes "server_inv s" "registerLocked s" "\<not> registerLockOnce s" "viewReaders s = 0"
    and "good_isq isq" "MoreUpdatedThan (is_InstallView isq) (currentView s)"
    and "\<not> HasMember (is_AssociatedView isq) (thisProcess s)"
      "HasMember (is_InstallView isq) (thisProcess s)"
    and "HasViewMoreUpdatedThan (is_ViewSeq isq) (is_InstallView isq)"
    and "requestStateChan (is_AssociatedView isq) (snd (gotInstallSeqQuorum isq s)) = (Some st, s1)"
    and "good_isq isq2" "is_AssociatedView isq2 = is_InstallView isq"
      "MoreUpdatedThan (is_InstallView isq2) (is_InstallView isq)"
    and "\<forall>e \<in> set es. good_event e"
    and "t = snd (server_run es (snd (gotInstallSeqQuorum isq2
           (snd (syncStateReady (snd (gotInstallSeqQuorum isq s)))))))"
  shows "installPhase t = WaitingRegisterLock isq2 \<and> RegisterService_Read t ref = WaitsForView \<and>
    RegisterService_Write t w = (WaitsForView, t)"
proof -
  define s2 where "s2 = snd (syncStateReady (snd (gotInstallSeqQuorum isq s)))"
  note s2 = joiner_first_install [OF assms(1-10) s2_def]
  then have "installPhase (snd (gotInstallSeqQuorum isq2 s2)) = WaitingRegisterLock isq2"
    using assms(8,12,13) by (simp add: gotInstallSeqQuorum_def Let_def)
  then have "installPhase t = WaitingRegisterLock isq2"
    using stuck_run [OF gotInstallSeqQuorum_inv [THEN conjunct1] assms(14)] s2 assms(11,15)
    by (simp add: s2_def)
  then show ?thesis by (simp add: RegisterService_Read_def RegisterService_Write_def)
qed

theorem joining_through_two_views_deadlocks_witness:
  "let v = NewWithProcesses [Process ''a'']; w = NewWithProcesses [Process ''a'', Process ''b''];
       x = NewWithProcesses [Process ''a'', Process ''b'', Process ''c''];
       st = \<lparr>finalValue = zero_Value, st_recv = {}\<rparr>;
       s = initServer ''b'' v \<lparr>registerLocked := True, stateUpdateQuorumCounterList :=
             [(new_stateUpdateQuorum v)\<lparr>resultChan := Some st\<rparr>]\<rparr>;
       isq = \<lparr>is_InstallView = w, is_ViewSeq = [w, x], is_AssociatedView = v\<rparr>;
       isq2 = \<lparr>is_InstallView = x, is_ViewSeq = [x], is_AssociatedView = w\<rparr>;
       t = snd (gotInstallSeqQuorum isq2 (snd (syncStateReady (snd (gotInstallSeqQuorum isq
             (s :: nat Server))))))
   in installPhase t = WaitingRegisterLock isq2"
proof -
  let ?v = "NewWithProcesses [Process ''a'']" and ?w = "NewWithProcesses [Process ''a'', Process ''b'']"
  let ?x = "NewWithProcesses [Process ''a'', Process ''b'', Process ''c'']"
  let ?st = "\<lparr>finalValue = zero_Value, st_recv = {}\<rparr> :: nat State"
  let ?s = "initServer ''b'' ?v \<lparr>registerLocked := True, stateUpdateQuorumCounterList :=
             [(new_stateUpdateQuorum ?v)\<lparr>resultChan := Some ?st\<rparr>]\<rparr>"
  let ?isq = "\<lparr>is_InstallView = ?w, is_ViewSeq = [?w, ?x], is_AssociatedView = ?v\<rparr>"
  let ?isq2 = "\<lparr>is_InstallView = ?x, is_ViewSeq = [?x], is_AssociatedView = ?w\<rparr>"
  have newer: "MoreUpdatedThan ?w ?v" "MoreUpdatedThan ?x ?w"
    using NewWithProcesses_more [of "[Process ''a'']" "[Process ''a'', Process ''b'']" "Process ''b''"]
      NewWithProcesses_more [of "[Process ''a'', Process ''b'']"
        "[Process ''a'', Process ''b'', Process ''c'']" "Process ''c''"]
    by (simp_all del: MoreUpdatedThan_wf_iff)
  have wx: "Entries ?w \<subseteq> Entries ?x" "?w \<noteq> ?x" using newer(2) by auto
  have inv: "server_inv ?s"
    by (simp add: server_inv_def core_inv_def chan_inv_def suq_ok_def new_stateUpdateQuorum_def)
  have good: "good_isq ?isq" "good_isq ?isq2"
    using wx by (simp_all add: good_isq_def good_seq_def chain_seq_def)
  have "gotInstallSeqQuorum ?isq ?s = ([], ?s\<lparr>installPhase := WaitingState ?isq\<rparr>)"
    using newer(1) by (simp add: gotInstallSeqQuorum_def afterStateSent_def HasMember_def Let_def
        del: MoreUpdatedThan_wf_iff)
  then obtain s1 where r: "requestStateChan ?v (snd (gotInstallSeqQuorum ?isq ?s)) = (Some ?st, s1)"
    by (simp add: requestStateChan_def getOrCreateStateUpdateQuorum_def new_stateUpdateQuorum_def)
  have mem: "\<not> HasMember ?v (Process ''b'')" "HasMember ?w (Process ''b'')"
    "HasViewMoreUpdatedThan [?w, ?x] ?w"
    using newer(2) by (simp_all add: HasMember_def)
  have "installPhase (snd (server_run [] (snd (gotInstallSeqQuorum ?isq2
      (snd (syncStateReady (snd (gotInstallSeqQuorum ?isq ?s)))))))) = WaitingRegisterLock ?isq2"
    by (rule joining_through_two_views_deadlocks [THEN conjunct1, OF inv _ _ _ good(1) _ _ _ _ _ good(2) _ _ _ refl])
      (use newer mem r in \<open>simp_all del: MoreUpdatedThan_wf_iff\<close>)
  then show ?thesis by (simp only: Let_def server_run.simps snd_conv)
qed

end
