(* ===== verification/Install_Quorums.thy ===== *)
theory Install_Quorums
  imports Install_Locks
begin

text \<open>
  Which install-seq messages make a server install a view. When every process sends
  install-seq messages with one content, an installation starts only after a quorum of
  different processes sent it. The loop remembers only the last message of a process, so
  two contents in turn are counted again and again: a theorem shows a quorum made of the
  messages of one process.
\<close>

section \<open>What the other goroutines do not touch\<close>

fun installing :: "installPhase \<Rightarrow> InstallSeq option" where
  "installing (WaitingViewLock isq) = Some isq"
| "installing (WaitingRegisterLock isq) = Some isq"
| "installing (WaitingState isq) = Some isq"
| "installing (WaitingViewInstalled isq n) = Some isq"
| "installing _ = None"

definition ballot ::
    "'a Server \<Rightarrow> InstallSeqMsg list \<times> (Process \<Rightarrow> InstallSeqMsg option) \<times> InstallSeq counter" where
  "ballot s = (installSeqProcessingChan s, processToInstallSeqMsgMap s, installSeqQuorumCounter s)"

lemma getOrCreate_ballot:
  "getOrCreateViewGenerator v initial s = Some (i, t) \<Longrightarrow> ballot (snd t) = ballot s"
  by (auto simp: getOrCreateViewGenerator_def emit_worker_eq ballot_def Let_def
      split: option.splits if_splits prod.splits)

lemma getOrCreate_installing:
  "getOrCreateViewGenerator v initial s = Some (i, t) \<Longrightarrow>
   installing (installPhase (snd t)) = installing (installPhase s)"
  using getOrCreate_phase by metis

lemma other_steps_ballot:
  assumes "e \<noteq> TakeInstallSeq" "\<And>m. e \<noteq> InstallSeqReq m"
  shows "ballot (snd (live_step e s)) = ballot s"
proof (cases e)
  case RunGeneration
  then show ?thesis
    by (auto simp: runGeneration_def generateViewSequenceWithoutConsensus_def
        generateViewSequenceWithConsensus_def Let_def split: list.split option.split
        dest!: getOrCreate_ballot) (simp_all add: ballot_def)
next
  case (ProposeSeqViewReq m)
  then show ?thesis
    by (auto simp: ProposeSeqView_def add_job_def split: option.split dest!: getOrCreate_ballot)
      (simp add: ballot_def)
next
  case (SeqConvReq m)
  then show ?thesis
    by (auto simp: SeqConvRequest_def add_job_def split: option.split dest!: getOrCreate_ballot)
      (simp add: ballot_def)
qed (use assms in \<open>auto simp: ballot_def RegisterService_Write_def RegisterService_Read_def
      hold_view_def Reconfig_def StateUpdate_def ViewInstalled_def AdminService_Leave_def
      startReconfiguration_def runWorker_def emit_worker_eq consensusDecided_def
      generatedViewSeqProcessing_def stateUpdateProcessing_def syncStateReady_def afterSync_def
      apply_state_def updateCurrentViewLocked_def installOthersViewsFromViewSeqLocked_def
      requestStateChan_def viewInstalledProcessing_def case_prod_beta Let_def
      split: list.split option.split installPhase.split rpc.split\<close>)

lemma other_steps_installing:
  assumes "e \<noteq> TakeInstallSeq" "installing (installPhase (snd (live_step e s))) = Some isq"
  shows "installing (installPhase s) = Some isq"
proof (cases e)
  case RunGeneration
  then show ?thesis
    using assms(2)
    by (auto simp: runGeneration_def generateViewSequenceWithoutConsensus_def
        generateViewSequenceWithConsensus_def Let_def split: list.splits option.splits if_splits
        dest!: getOrCreate_installing)
next
  case (ProposeSeqViewReq m)
  then show ?thesis
    using assms(2)
    by (auto simp: ProposeSeqView_def add_job_def split: option.splits dest!: getOrCreate_installing)
next
  case (SeqConvReq m)
  then show ?thesis
    using assms(2)
    by (auto simp: SeqConvRequest_def add_job_def split: option.splits dest!: getOrCreate_installing)
qed (use assms in \<open>auto simp: RegisterService_Write_def RegisterService_Read_def InstallSeqRequest_def
      hold_view_def Reconfig_def StateUpdate_def ViewInstalled_def AdminService_Leave_def
      startReconfiguration_def runWorker_def emit_worker_eq consensusDecided_def
      generatedViewSeqProcessing_def stateUpdateProcessing_def syncStateReady_def afterSync_def
      apply_state_def updateCurrentViewLocked_def installOthersViewsFromViewSeqLocked_def
      requestStateChan_def viewInstalledProcessing_def case_prod_beta Let_def
      split: list.splits option.splits installPhase.splits if_splits\<close>)

section \<open>Counting senders\<close>

definition voters :: "InstallSeqMsg list \<Rightarrow> InstallSeq \<Rightarrow> Process set" where
  "voters H isq = ism_Sender ` {m \<in> set H. InstallSeq_agree (ism_InstallSeq m) isq}"

definition counted :: "'a Server \<Rightarrow> InstallSeq \<Rightarrow> Process set" where
  "counted s isq = {p. \<exists>m. processToInstallSeqMsgMap s p = Some m \<and> InstallSeq_agree (ism_InstallSeq m) isq}"

definition one_content :: "InstallSeqMsg list \<Rightarrow> bool" where
  "one_content H \<longleftrightarrow> (\<forall>m \<in> set H. good_isq (ism_InstallSeq m) \<and>
     (\<forall>n \<in> set H. ism_Sender m = ism_Sender n \<longrightarrow> InstallSeq_agree (ism_InstallSeq m) (ism_InstallSeq n)))"

definition ballot_inv :: "InstallSeqMsg list \<Rightarrow> 'a Server \<Rightarrow> bool" where
  "ballot_inv H s \<longleftrightarrow>
     set (installSeqProcessingChan s) \<subseteq> set H \<and>
     (\<forall>p m. processToInstallSeqMsgMap s p = Some m \<longrightarrow> m \<in> set H \<and> ism_Sender m = p) \<and>
     counter_invar InstallSeq_agree good_InstallSeq (installSeqQuorumCounter s) \<and>
     (\<forall>isq. tally_by InstallSeq_agree (installSeqQuorumCounter s) isq = card (counted s isq)) \<and>
     (\<forall>isq. installing (installPhase s) = Some isq \<longrightarrow>
        QuorumSize (is_AssociatedView isq) \<le> card (voters H isq))"

lemma good_isq_InstallSeq: "good_isq isq \<Longrightarrow> good_InstallSeq isq"
  by (auto simp: good_isq_def good_InstallSeq_def good_seq_def)

lemma counted_voters: "ballot_inv H s \<Longrightarrow> counted s isq \<subseteq> voters H isq"
  by (auto simp: ballot_inv_def counted_def voters_def)

lemma finite_voters [simp]: "finite (voters H isq)"
  by (simp add: voters_def)

lemma installing_got:
  "installing (installPhase (snd (gotInstallSeqQuorum isq s))) = Some isq2 \<Longrightarrow>
   isq2 = isq \<or> installing (installPhase s) = Some isq2"
  by (auto simp: gotInstallSeqQuorum_def afterStateSent_def installOthersViewsFromViewSeqLocked_def
      Let_def split: if_splits)

lemma counter_fits_good:
  assumes "counter_invar InstallSeq_agree good_InstallSeq c" "good_InstallSeq isq"
  shows "counter_fits InstallSeq_Equal InstallSeq_agree good_InstallSeq c isq"
  using assms by (auto simp: counter_invar_def counter_fits_def InstallSeq_Equal_iff)

lemma got_ballot: "ballot (snd (gotInstallSeqQuorum isq s)) = ballot s"
  by (simp add: ballot_def gotInstallSeqQuorum_def afterStateSent_def
      installOthersViewsFromViewSeqLocked_def Let_def)

lemma ballotD:
  assumes "ballot t = ballot s"
  shows "installSeqProcessingChan t = installSeqProcessingChan s"
    "processToInstallSeqMsgMap t = processToInstallSeqMsgMap s"
    "installSeqQuorumCounter t = installSeqQuorumCounter s" "counted t isq = counted s isq"
  using assms by (simp_all add: ballot_def counted_def)

lemma ballot_inv_transfer:
  assumes "ballot_inv H s" "ballot t = ballot s"
    and "\<And>isq. installing (installPhase t) = Some isq \<Longrightarrow> QuorumSize (is_AssociatedView isq) \<le> card (voters H isq)"
  shows "ballot_inv H t"
  using assms(1,3) unfolding ballot_inv_def ballotD [OF assms(2)] by blast

text \<open>A first message of its sender is counted: the tally of its content goes up by one sender.\<close>

lemma count_new_sender:
  assumes inv: "ballot_inv H s" and phase: "installPhase s = Receiving"
    and chan: "installSeqProcessingChan s = m # ms" and good: "good_isq (ism_InstallSeq m)"
    and new: "processToInstallSeqMsgMap s (ism_Sender m) = None"
  shows "ballot_inv H (snd (installSeqProcessing s))"
proof -
  let ?isq = "ism_InstallSeq m" and ?c = "installSeqQuorumCounter s"
  let ?q = "QuorumSize (is_AssociatedView ?isq)"
  obtain b c where count: "installSeqQuorumCounter_count ?c ?isq ?q = (b, c)" by fastforce
  let ?s2 = "s\<lparr>installSeqProcessingChan := ms,
     processToInstallSeqMsgMap := (processToInstallSeqMsgMap s)(ism_Sender m \<mapsto> m),
     installSeqQuorumCounter := c\<rparr>"
  let ?t = "snd (if b then gotInstallSeqQuorum ?isq ?s2 else ([], ?s2))"
  have t: "snd (installSeqProcessing s) = ?t"
    using chan phase new count by (simp add: installSeqProcessing_def case_prod_beta Let_def)
  have m: "m \<in> set H" using inv chan by (auto simp: ballot_inv_def)
  have ci: "counter_invar InstallSeq_agree good_InstallSeq ?c"
    and tally: "\<And>isq. tally_by InstallSeq_agree ?c isq = card (counted s isq)"
    using inv by (simp_all add: ballot_inv_def)
  note fits = counter_fits_good [OF ci good_isq_InstallSeq [OF good]]
  have cb: "count_by InstallSeq_Equal ?c ?isq ?q = (b, c)"
    using count by (simp add: installSeqQuorumCounter_count_def)
  have ci': "counter_invar InstallSeq_agree good_InstallSeq c"
    using isc.invar_count [OF ci fits, of ?q] cb by simp
  have counted2: "counted ?s2 isq =
      (if InstallSeq_agree ?isq isq then insert (ism_Sender m) (counted s isq) else counted s isq)" for isq
    using new by (auto simp: counted_def)
  have notin: "ism_Sender m \<notin> counted s isq" for isq using new by (simp add: counted_def)
  have fin: "finite (counted s isq)" for isq
    by (rule finite_subset [OF counted_voters [OF inv] finite_voters])
  have card2: "card (counted ?s2 isq) = card (counted s isq) + (if InstallSeq_agree ?isq isq then 1 else 0)"
    for isq unfolding counted2 using card_insert_disjoint [OF fin notin] by (cases "InstallSeq_agree ?isq isq") simp_all
  have tally': "tally_by InstallSeq_agree c isq = card (counted ?s2 isq)" for isq
    using isc.tally_count [OF ci fits, of ?q isq] unfolding cb snd_conv tally card2 .
  have inv2: "ballot_inv H ?s2"
    using inv chan m ci' tally' phase by (auto simp: ballot_inv_def)
  have quorum: "?q \<le> card (voters H ?isq)" if b
  proof -
    have "tally_by InstallSeq_agree ?c ?isq + 1 = ?q"
      using isc.count_fires [OF ci fits, of ?q] cb that by simp
    then have "?q = card (counted ?s2 ?isq)"
      unfolding card2 tally using isc.agree_refl [of ?isq] by simp
    then show ?thesis using card_mono [OF finite_voters counted_voters [OF inv2]] by metis
  qed
  show ?thesis
  proof (cases b)
    case True
    have "ballot_inv H (snd (gotInstallSeqQuorum ?isq ?s2))"
    proof (rule ballot_inv_transfer [OF inv2 got_ballot])
      fix isq assume "installing (installPhase (snd (gotInstallSeqQuorum ?isq ?s2))) = Some isq"
      then have "isq = ?isq" using installing_got [of ?isq ?s2 isq] phase by simp
      then show "QuorumSize (is_AssociatedView isq) \<le> card (voters H isq)" using quorum True by simp
    qed
    then show ?thesis using True t by simp
  qed (use inv2 t in simp)
qed

lemma counted_same:
  assumes "processToInstallSeqMsgMap s p = Some n"
    and "InstallSeq_agree (ism_InstallSeq m) isq \<longleftrightarrow> InstallSeq_agree (ism_InstallSeq n) isq"
  shows "counted (s\<lparr>installSeqProcessingChan := ms, processToInstallSeqMsgMap :=
    (processToInstallSeqMsgMap s)(p \<mapsto> m)\<rparr>) isq = counted s isq"
  using assms by (auto simp: counted_def)

lemma take_ballot_inv:
  assumes "ballot_inv H s" "one_content H"
  shows "ballot_inv H (snd (installSeqProcessing s))"
proof (cases "installSeqProcessingChan s = [] \<or> installPhase s \<noteq> Receiving")
  case True
  then have "installSeqProcessing s = ([], s)"
    by (auto simp: installSeqProcessing_def split: list.split)
  with assms(1) show ?thesis by simp
next
  case False
  then obtain m ms where chan: "installSeqProcessingChan s = m # ms" and phase: "installPhase s = Receiving"
    by (cases "installSeqProcessingChan s") auto
  have m: "m \<in> set H" using assms(1) chan by (auto simp: ballot_inv_def)
  then have good: "good_isq (ism_InstallSeq m)" using assms(2) by (simp add: one_content_def)
  show ?thesis
  proof (cases "processToInstallSeqMsgMap s (ism_Sender m)")
    case None
    then show ?thesis using count_new_sender [OF assms(1) phase chan good] by simp
  next
    case (Some n)
    have n: "n \<in> set H" "ism_Sender n = ism_Sender m"
      using assms(1) Some by (simp_all add: ballot_inv_def)
    then have agree: "InstallSeq_agree (ism_InstallSeq n) (ism_InstallSeq m)"
      and goodn: "good_isq (ism_InstallSeq n)"
      using assms(2) m by (simp_all add: one_content_def)
    then have "InstallSeqMsg_Equal n m"
      using n(2) good by (simp add: InstallSeqMsg_Equal_def InstallSeq_Equal_iff good_isq_InstallSeq)
    then have t: "snd (installSeqProcessing s) = s\<lparr>installSeqProcessingChan := ms,
        processToInstallSeqMsgMap := (processToInstallSeqMsgMap s)(ism_Sender m \<mapsto> m)\<rparr>"
      using chan phase Some by (simp add: installSeqProcessing_def Let_def)
    have same: "InstallSeq_agree (ism_InstallSeq m) isq \<longleftrightarrow> InstallSeq_agree (ism_InstallSeq n) isq" for isq
      using agree isc.agree_sym isc.agree_trans by blast
    have "counted (snd (installSeqProcessing s)) isq = counted s isq" for isq
      unfolding t by (rule counted_same [OF Some same])
    with assms(1) chan m phase show ?thesis by (auto simp: t ballot_inv_def)
  qed
qed

lemma other_ballot_inv:
  assumes "ballot_inv H s" "e \<noteq> TakeInstallSeq" "\<And>m. e = InstallSeqReq m \<Longrightarrow> m \<in> set H"
  shows "ballot_inv H (snd (live_step e s))"
proof (cases "\<exists>m. e = InstallSeqReq m")
  case True
  then obtain m where "e = InstallSeqReq m" by blast
  with assms(1,3) show ?thesis
    by (auto simp: InstallSeqRequest_def ballot_inv_def counted_def)
next
  case False
  then have "ballot (snd (live_step e s)) = ballot s" using other_steps_ballot [OF assms(2)] by blast
  then show ?thesis
    using ballot_inv_transfer [OF assms(1)] other_steps_installing [OF assms(2)] assms(1)
    by (metis ballot_inv_def)
qed

lemma run_ballot_inv:
  assumes "ballot_inv H s" "one_content H" "\<And>m. InstallSeqReq m \<in> set es \<Longrightarrow> m \<in> set H"
  shows "ballot_inv H (snd (server_run es s))"
  using assms
proof (induction es arbitrary: s)
  case (Cons e es)
  have "ballot_inv H (snd (live_step e s))"
  proof (cases "e = TakeInstallSeq")
    case True
    then show ?thesis using take_ballot_inv [OF Cons.prems(1,2)] by simp
  next
    case False
    then show ?thesis using other_ballot_inv [OF Cons.prems(1)] Cons.prems(3) by auto
  qed
  then have "ballot_inv H (snd (server_step e s))"
    using Cons.prems(1) by (simp add: server_step_def)
  then show ?case using Cons by simp
qed simp

fun install_requests :: "'a event list \<Rightarrow> InstallSeqMsg list" where
  "install_requests [] = []"
| "install_requests (InstallSeqReq m # es) = m # install_requests es"
| "install_requests (_ # es) = install_requests es"

lemma install_requests_set: "m \<in> set (install_requests es) \<longleftrightarrow> InstallSeqReq m \<in> set es"
  by (induction es rule: install_requests.induct) auto

lemma NewServer_ballot:
  assumes "NewServer (Some addr) g v c = Created out s"
  shows "ballot_inv H s"
proof -
  have "counter_invar InstallSeq_agree good_InstallSeq empty_counter" by (rule isc.invar_start)
  then have "ballot_inv H (initServer addr v)" "ballot_inv H (initServer addr v \<lparr>registerLocked := True\<rparr>)"
    by (simp_all add: ballot_inv_def counted_def isc.tally_start)
  with assms show ?thesis by (auto simp: NewServer_def Let_def split: if_splits)
qed

section \<open>Properties\<close>

text \<open>C10: As long as each process sends install-seq messages of one content only (repeated and
  relayed at will), a server starts to install a view only after a quorum of different
  processes of which each sent exactly that install-seq.\<close>

theorem install_needs_quorum:
  assumes "NewServer (Some addr) g v c = Created out s" "one_content (install_requests es)"
    and "installing (installPhase (snd (server_run es s))) = Some isq"
  shows "QuorumSize (is_AssociatedView isq) \<le>
    card (ism_Sender ` {m. InstallSeqReq m \<in> set es \<and> InstallSeq_agree (ism_InstallSeq m) isq})"
proof -
  have "ballot_inv (install_requests es) (snd (server_run es s))"
    using run_ballot_inv [OF NewServer_ballot [OF assms(1)] assms(2)] by (simp add: install_requests_set)
  then show ?thesis
    using assms(3) by (simp add: ballot_inv_def voters_def install_requests_set)
qed

text \<open>A concrete pair of installations: three members, then a fourth, then a fifth.\<close>

definition iv0 :: View where "iv0 = NewWithProcesses [Process ''a'', Process ''b'', Process ''c'']"
definition iv1 :: View where
  "iv1 = NewWithProcesses [Process ''a'', Process ''b'', Process ''c'', Process ''d'']"
definition iv2 :: View where
  "iv2 = NewWithProcesses [Process ''a'', Process ''b'', Process ''c'', Process ''d'', Process ''e'']"

definition install1 :: InstallSeq where
  "install1 = \<lparr>is_InstallView = iv1, is_ViewSeq = [iv1], is_AssociatedView = iv0\<rparr>"
definition install2 :: InstallSeq where
  "install2 = \<lparr>is_InstallView = iv2, is_ViewSeq = [iv2], is_AssociatedView = iv1\<rparr>"

lemma iv_wf [simp]: "wf_view iv0" "wf_view iv1" "wf_view iv2"
  by (simp_all add: iv0_def iv1_def iv2_def)

lemma iv_members:
  "Members iv0 = {Process ''a'', Process ''b'', Process ''c''}"
  "Members iv1 = {Process ''a'', Process ''b'', Process ''c'', Process ''d''}"
  "QuorumSize iv0 = 2" "QuorumSize iv1 = 3"
  by (simp_all add: iv0_def iv1_def QuorumSize_eq NumberOfMembers_def)

lemma iv_more: "MoreUpdatedThan iv1 iv0" "MoreUpdatedThan iv2 iv1"
  unfolding iv0_def iv1_def iv2_def
  by (rule NewWithProcesses_more [where p = "Process ''d''"]; simp)
     (rule NewWithProcesses_more [where p = "Process ''e''"]; simp)

lemma iv_distinct: "iv0 \<noteq> iv1" "iv1 \<noteq> iv2" "iv0 \<noteq> iv2"
  using iv_more by auto

lemma install_equal:
  "InstallSeq_Equal install1 install1" "\<not> InstallSeq_Equal install1 install2"
  "\<not> InstallSeq_Equal install2 install1" "InstallSeq_Equal install2 install2"
  using iv_distinct by (auto simp: InstallSeq_Equal_def install1_def install2_def)

lemma install_sel:
  "is_InstallView install1 = iv1" "is_AssociatedView install1 = iv0"
  "is_InstallView install2 = iv2" "is_AssociatedView install2 = iv1"
  "is_ViewSeq install1 = [iv1]" "is_ViewSeq install2 = [iv2]"
  by (simp_all add: install1_def install2_def)

lemmas install_eval = installSeqProcessing_def InstallSeqRequest_def server_step_def
  InstallSeqMsg_Equal_def installSeqQuorumCounter_count_def count_by_def empty_counter_def
  gotInstallSeqQuorum_def afterStateSent_def HasMember_def install_equal install_sel iv_members
  iv_more Let_def

theorem install_needs_quorum_witness:
  "QuorumSize iv0 \<le> card (ism_Sender ` {m. InstallSeqReq m \<in> set
      [InstallSeqReq \<lparr>ism_Sender = Process ''b'', ism_InstallSeq = install1\<rparr>,
       InstallSeqReq \<lparr>ism_Sender = Process ''c'', ism_InstallSeq = install1\<rparr>,
       TakeInstallSeq, TakeInstallSeq :: nat event] \<and> InstallSeq_agree (ism_InstallSeq m) install1})"
proof -
  let ?b = "\<lparr>ism_Sender = Process ''b'', ism_InstallSeq = install1\<rparr>"
  let ?c = "\<lparr>ism_Sender = Process ''c'', ism_InstallSeq = install1\<rparr>"
  let ?es = "[InstallSeqReq ?b, InstallSeqReq ?c, TakeInstallSeq, TakeInstallSeq] :: nat event list"
  let ?s = "initServer ''a'' iv0 :: nat Server"
  have new: "NewServer (Some ''a'') False iv0 False = Created [] ?s"
    by (simp add: NewServer_def HasMember_def iv_members Let_def)
  have "one_content (install_requests ?es)"
    by (simp add: one_content_def isc.agree_refl good_isq_def install_sel)
  moreover have "installing (installPhase (snd (server_run ?es ?s))) = Some install1"
    by (simp add: install_eval del: MoreUpdatedThan_wf_iff)
  ultimately show ?thesis
    using install_needs_quorum [OF new, of ?es install1] by (simp only: install_sel)
qed

text \<open>The install-seq loop can be made to install a view by one process: it only remembers the
  last message of each sender, so when the messages of process b for two successive
  installations arrive in turn (an old one being relayed by a third process), the first
  installation reaches its quorum of two with one sender.\<close>

theorem install_quorum_of_one_sender:
  "let m1 = \<lparr>ism_Sender = Process ''b'', ism_InstallSeq = install1\<rparr>;
       m2 = \<lparr>ism_Sender = Process ''b'', ism_InstallSeq = install2\<rparr>;
       es = [InstallSeqReq m1, InstallSeqReq m2, InstallSeqReq m1,
             TakeInstallSeq, TakeInstallSeq, TakeInstallSeq] :: nat event list
   in installPhase (snd (server_run es (initServer ''a'' iv0))) = WaitingState install1 \<and>
      QuorumSize (is_AssociatedView install1) = 2 \<and>
      set (map ism_Sender (install_requests es)) = {Process ''b''}"
  by (simp add: install_eval del: MoreUpdatedThan_wf_iff)

end
