(* ===== verification/Generator_Network.thy ===== *)
theory Generator_Network
  imports View_Generator
begin

text \<open>
  The view generators of all members of one associated view, connected by a network: the
  broadcasts of \<^verbatim>\<open>viewgenerator.go\<close> put a message into the inbox of every destination, a step
  starts a worker with its own initial sequence or hands one message of an inbox to its
  worker. Messages arrive in any order, at most once, and possibly never. The invariant of
  the workers lifts to every reachable state; a concrete execution with five members shows
  what the invariant does not give.
\<close>

section \<open>Network and steps\<close>

record vg_net =
  net_workers :: "Process \<Rightarrow> Worker option"
  net_inbox :: "Process \<Rightarrow> vg_job list"
  net_generated :: "(Process \<times> ViewSeq) list"

definition net_init :: vg_net where
  "net_init = \<lparr>net_workers = (\<lambda>_. None), net_inbox = (\<lambda>_. []), net_generated = []\<rparr>"

text \<open>The destinations of a worker's output: \<^verbatim>\<open>broadcastViewSequence\<close> leaves out this process.\<close>

fun vg_dests :: "Process \<Rightarrow> vg_out \<Rightarrow> (Process \<times> vg_job) list" where
  "vg_dests self (BroadcastViewSequence destinationView m) =
     map (\<lambda>q. (q, ViewSeqJob m)) (GetMembers (NewCopyWithUpdates destinationView [Update Leave self]))"
| "vg_dests self (BroadcastViewSequenceConv destinationView m) =
     map (\<lambda>q. (q, SeqConvJob (scm_SeqConv m))) (GetMembers destinationView)"
| "vg_dests self (GeneratedViewSeqOut v seq) = []"

fun vg_result :: "Process \<Rightarrow> vg_out \<Rightarrow> (Process \<times> ViewSeq) list" where
  "vg_result self (GeneratedViewSeqOut v seq) = [(self, seq)]"
| "vg_result self _ = []"

definition post :: "Process \<times> vg_job \<Rightarrow> (Process \<Rightarrow> vg_job list) \<Rightarrow> (Process \<Rightarrow> vg_job list)" where
  "post pj inbox = inbox(fst pj := inbox (fst pj) @ [snd pj])"

definition net_emit :: "Process \<Rightarrow> vg_out list \<Rightarrow> vg_net \<Rightarrow> vg_net" where
  "net_emit self out s = s\<lparr>
     net_inbox := fold post (concat (map (vg_dests self) out)) (net_inbox s),
     net_generated := net_generated s @ concat (map (vg_result self) out)\<rparr>"

definition net_start :: "View \<Rightarrow> (Process \<Rightarrow> ViewSeq) \<Rightarrow> Process \<Rightarrow> vg_net \<Rightarrow> vg_net" where
  "net_start av initialSeq p s =
     (case startWorker p av (initialSeq p) of
        (out, w) \<Rightarrow> net_emit p out (s\<lparr>net_workers := (net_workers s)(p \<mapsto> w)\<rparr>))"

definition net_deliver :: "Process \<Rightarrow> nat \<Rightarrow> Worker \<Rightarrow> vg_net \<Rightarrow> vg_net" where
  "net_deliver p i w s =
     (case worker_step p w (net_inbox s p ! i) of
        (out, w1) \<Rightarrow> net_emit p out
          (s\<lparr>net_workers := (net_workers s)(p \<mapsto> w1),
             net_inbox := (net_inbox s)(p := take i (net_inbox s p) @ drop (i + 1) (net_inbox s p))\<rparr>))"

inductive vg_reach :: "View \<Rightarrow> (Process \<Rightarrow> ViewSeq) \<Rightarrow> vg_net \<Rightarrow> bool" for av initialSeq where
  vg_init: "vg_reach av initialSeq net_init"
| vg_start: "vg_reach av initialSeq s \<Longrightarrow> p \<in> Members av \<Longrightarrow> net_workers s p = None \<Longrightarrow>
    vg_reach av initialSeq (net_start av initialSeq p s)"
| vg_deliver: "vg_reach av initialSeq s \<Longrightarrow> net_workers s p = Some w \<Longrightarrow>
    i < length (net_inbox s p) \<Longrightarrow> vg_reach av initialSeq (net_deliver p i w s)"

section \<open>The invariant of the network\<close>

definition net_inv :: "vg_net \<Rightarrow> bool" where
  "net_inv s \<longleftrightarrow>
     (\<forall>p w. net_workers s p = Some w \<longrightarrow> worker_inv w) \<and>
     (\<forall>p. \<forall>j \<in> set (net_inbox s p). good_job j) \<and>
     (\<forall>(p, seq) \<in> set (net_generated s). good_seq seq \<and> seq \<noteq> [])"

lemma set_fold_post:
  "set (fold post pjs inbox q) = set (inbox q) \<union> snd ` {pj \<in> set pjs. fst pj = q}"
  by (induction pjs arbitrary: inbox) (auto simp: post_def image_iff)

lemma vg_dests_good: "good_out x \<Longrightarrow> pj \<in> set (vg_dests p x) \<Longrightarrow> good_job (snd pj)"
  by (cases x) auto

lemma vg_result_good:
  "good_out x \<Longrightarrow> r \<in> set (vg_result p x) \<Longrightarrow> good_seq (snd r) \<and> snd r \<noteq> []"
  by (cases x) auto

lemma net_emit_inv:
  assumes "net_inv s" "\<forall>x \<in> set out. good_out x"
  shows "net_inv (net_emit p out s)"
  using assms vg_dests_good vg_result_good
  unfolding net_inv_def net_emit_def by (fastforce simp: set_fold_post)

lemma net_start_inv:
  assumes "net_inv s" "wf_view av" "good_seq (initialSeq p)"
  shows "net_inv (net_start av initialSeq p s)"
proof -
  obtain out w where st: "startWorker p av (initialSeq p) = (out, w)"
    by (cases "startWorker p av (initialSeq p)") auto
  with startWorker_inv [OF assms(2,3), of p] have "worker_inv w" "\<forall>x \<in> set out. good_out x"
    by simp_all
  moreover have "net_inv (s\<lparr>net_workers := (net_workers s)(p \<mapsto> w)\<rparr>)"
    using assms(1) calculation(1) by (simp add: net_inv_def)
  ultimately show ?thesis using st by (simp add: net_start_def net_emit_inv)
qed

lemma net_deliver_inv:
  assumes "net_inv s" "net_workers s p = Some w" "i < length (net_inbox s p)"
  shows "net_inv (net_deliver p i w s)"
proof -
  obtain out w1 where st: "worker_step p w (net_inbox s p ! i) = (out, w1)"
    by (cases "worker_step p w (net_inbox s p ! i)") auto
  have "net_inbox s p ! i \<in> set (net_inbox s p)" using assms(3) by simp
  then have "worker_inv w" "good_job (net_inbox s p ! i)"
    using assms(1,2) unfolding net_inv_def by blast+
  with worker_step_inv [of w "net_inbox s p ! i" p] st
  have "worker_inv w1" "\<forall>x \<in> set out. good_out x" by simp_all
  moreover have "set (take i (net_inbox s p) @ drop (i + 1) (net_inbox s p)) \<subseteq> set (net_inbox s p)"
    using set_take_subset set_drop_subset by fastforce
  ultimately have "net_inv (s\<lparr>net_workers := (net_workers s)(p \<mapsto> w1),
      net_inbox := (net_inbox s)(p := take i (net_inbox s p) @ drop (i + 1) (net_inbox s p))\<rparr>)"
    using assms(1) unfolding net_inv_def by auto
  with \<open>\<forall>x \<in> set out. good_out x\<close> st show ?thesis by (simp add: net_deliver_def net_emit_inv)
qed

lemma vg_reach_inv:
  assumes "vg_reach av initialSeq s" "wf_view av" "\<forall>p \<in> Members av. good_seq (initialSeq p)"
  shows "net_inv s"
  using assms(1)
proof induction
  case vg_init
  then show ?case by (simp add: net_inv_def net_init_def)
qed (use assms(2,3) in \<open>auto intro: net_start_inv net_deliver_inv\<close>)

section \<open>Properties\<close>

text \<open>C11: In every reachable state of the network of view generators, whatever the delivery
  order, every generated view sequence is a non-empty chain of different well-formed views,
  so the server that processes it finds the least updated of them and does not panic.\<close>

theorem generated_sequences_are_chains:
  assumes "wf_view av" "\<forall>p \<in> Members av. good_seq (initialSeq p)"
    and "vg_reach av initialSeq s" "(p, seq) \<in> set (net_generated s)"
  shows "seq \<noteq> [] \<and> chain_seq seq \<and> (\<forall>v \<in> set seq. wf_view v) \<and> distinct seq \<and>
    (\<exists>v. GetLeastUpdatedView seq = Some v \<and> v \<in> set seq \<and> (\<forall>w \<in> set seq. Entries v \<subseteq> Entries w))"
proof -
  have good: "good_seq seq" "seq \<noteq> []"
    using vg_reach_inv [OF assms(3,1,2)] assms(4) by (auto simp: net_inv_def)
  note seq = good_seqD [OF good(1)]
  obtain v where "GetLeastUpdatedView seq = Some v" "v \<in> set seq" "\<forall>w \<in> set seq. Entries v \<subseteq> Entries w"
    by (rule GetLeastUpdatedView_least [OF seq(1,3) good(2)])
  with good(2) seq show ?thesis by blast
qed

datatype vg_event = Start Process | Deliver Process nat

fun vg_ok :: "View \<Rightarrow> vg_net \<Rightarrow> vg_event \<Rightarrow> bool" where
  "vg_ok av s (Start p) = (p \<in> Members av \<and> net_workers s p = None)"
| "vg_ok av s (Deliver p i) = (net_workers s p \<noteq> None \<and> i < length (net_inbox s p))"

fun vg_exec :: "View \<Rightarrow> (Process \<Rightarrow> ViewSeq) \<Rightarrow> vg_net \<Rightarrow> vg_event \<Rightarrow> vg_net" where
  "vg_exec av initialSeq s (Start p) = net_start av initialSeq p s"
| "vg_exec av initialSeq s (Deliver p i) = net_deliver p i (the (net_workers s p)) s"

fun vg_run :: "View \<Rightarrow> (Process \<Rightarrow> ViewSeq) \<Rightarrow> vg_net \<Rightarrow> vg_event list \<Rightarrow> vg_net option" where
  "vg_run av initialSeq s [] = Some s"
| "vg_run av initialSeq s (e # es) =
     (if vg_ok av s e then vg_run av initialSeq (vg_exec av initialSeq s e) es else None)"

lemma vg_run_reach:
  "vg_reach av initialSeq s \<Longrightarrow> vg_run av initialSeq s es = Some t \<Longrightarrow> vg_reach av initialSeq t"
proof (induction es arbitrary: s)
  case (Cons e es)
  then have "vg_reach av initialSeq (vg_exec av initialSeq s e)"
    by (cases e) (auto intro: vg_start vg_deliver split: if_splits)
  with Cons show ?case by (simp split: if_splits)
qed simp

lemma vg_run_append:
  "vg_run av initialSeq s (es @ fs) = Option.bind (vg_run av initialSeq s es) (\<lambda>t. vg_run av initialSeq t fs)"
  by (induction es arbitrary: s) simp_all

end
