(* ===== verification/Generator_Split.thy ===== *)
theory Generator_Split
  imports Generator_Network
begin

text \<open>
  An execution of the view generators of a five-member view in which two sequences are
  generated whose least updated views are incomparable: members 1, 2 and 3 want to add
  process 6, members 4 and 5 want to add process 7.
\<close>

abbreviation "m1 \<equiv> Process ''1''"
abbreviation "m2 \<equiv> Process ''2''"
abbreviation "m3 \<equiv> Process ''3''"
abbreviation "m4 \<equiv> Process ''4''"
abbreviation "m5 \<equiv> Process ''5''"

definition ex_av :: View where
  "ex_av = NewWithProcesses [m1, m2, m3, m4, m5]"

definition ex_a :: View where
  "ex_a = NewCopyWithUpdates ex_av [Update Join (Process ''6'')]"

definition ex_b :: View where
  "ex_b = NewCopyWithUpdates ex_av [Update Join (Process ''7'')]"

definition ex_ab :: View where
  "ex_ab = NewCopyWithUpdates ex_av [Update Join (Process ''6''), Update Join (Process ''7'')]"

definition ex_init :: "Process \<Rightarrow> ViewSeq" where
  "ex_init p = (if p \<in> {m4, m5} then [ex_b] else [ex_a])"

lemma ex_wf [simp]: "wf_view ex_av" "wf_view ex_a" "wf_view ex_b" "wf_view ex_ab"
  by (simp_all add: ex_av_def ex_a_def ex_b_def ex_ab_def)

lemma ex_entries:
  "Entries ex_av = Update Join ` {m1, m2, m3, m4, m5}"
  "Entries ex_a = Update Join ` {m1, m2, m3, m4, m5, Process ''6''}"
  "Entries ex_b = Update Join ` {m1, m2, m3, m4, m5, Process ''7''}"
  "Entries ex_ab = Update Join ` {m1, m2, m3, m4, m5, Process ''6'', Process ''7''}"
proof -
  show av: "Entries ex_av = Update Join ` {m1, m2, m3, m4, m5}"
    by (auto simp: ex_av_def NewWithProcesses_eq)
  show "Entries ex_a = Update Join ` {m1, m2, m3, m4, m5, Process ''6''}"
    "Entries ex_b = Update Join ` {m1, m2, m3, m4, m5, Process ''7''}"
    "Entries ex_ab = Update Join ` {m1, m2, m3, m4, m5, Process ''6'', Process ''7''}"
    by (auto simp: ex_a_def ex_b_def ex_ab_def av)
qed

lemma ex_less:
  "LessUpdatedThan ex_a ex_b" "LessUpdatedThan ex_b ex_a" "LessUpdatedThan ex_a ex_ab"
  "LessUpdatedThan ex_b ex_ab" "\<not> LessUpdatedThan ex_ab ex_a" "\<not> LessUpdatedThan ex_ab ex_b"
  "\<not> LessUpdatedThan ex_a ex_a" "\<not> LessUpdatedThan ex_b ex_b" "\<not> LessUpdatedThan ex_ab ex_ab"
  "\<not> LessUpdatedThan ex_a (NewWithUpdates [])" "\<not> LessUpdatedThan ex_b (NewWithUpdates [])"
  "\<not> LessUpdatedThan ex_ab (NewWithUpdates [])"
  "\<not> LessUpdatedThan (NewWithUpdates []) (NewWithUpdates [])"
  by (simp_all add: ex_entries)

lemma ex_incl:
  "\<not> Entries ex_a \<subseteq> Entries ex_b" "\<not> Entries ex_b \<subseteq> Entries ex_a"
  "\<not> Entries ex_ab \<subseteq> Entries ex_a" "\<not> Entries ex_ab \<subseteq> Entries ex_b"
  "Entries ex_a \<subseteq> Entries ex_ab" "Entries ex_b \<subseteq> Entries ex_ab"
  by (simp_all add: ex_entries)

lemma ex_more:
  "\<not> MoreUpdatedThan ex_a ex_b" "\<not> MoreUpdatedThan ex_b ex_a" "\<not> MoreUpdatedThan ex_a ex_ab"
  "\<not> MoreUpdatedThan ex_b ex_ab" "MoreUpdatedThan ex_ab ex_a" "MoreUpdatedThan ex_ab ex_b"
  "\<not> MoreUpdatedThan ex_a ex_a" "\<not> MoreUpdatedThan ex_b ex_b" "\<not> MoreUpdatedThan ex_ab ex_ab"
  using ex_incl by (simp_all add: psubset_eq)

lemma ex_distinct:
  "ex_a \<noteq> ex_b" "ex_b \<noteq> ex_a" "ex_a \<noteq> ex_ab" "ex_ab \<noteq> ex_a" "ex_b \<noteq> ex_ab" "ex_ab \<noteq> ex_b"
  using ex_incl by auto

lemma ex_equal:
  "\<not> View_Equal ex_a ex_b" "\<not> View_Equal ex_b ex_a" "\<not> View_Equal ex_a ex_ab"
  "\<not> View_Equal ex_b ex_ab" "\<not> View_Equal ex_ab ex_a" "\<not> View_Equal ex_ab ex_b"
  "View_Equal ex_a ex_a" "View_Equal ex_b ex_b" "View_Equal ex_ab ex_ab" "View_Equal ex_av ex_av"
  by (simp_all add: ex_distinct)

lemma ex_merge:
  "NewWithUpdates (GetUpdates ex_a @ GetUpdates ex_b) = ex_ab"
  "NewWithUpdates (GetUpdates ex_b @ GetUpdates ex_a) = ex_ab"
  "NewWithUpdates (GetUpdates ex_ab @ GetUpdates ex_a) = ex_ab"
  by (rule wf_view_eqI; auto simp: ex_entries)+

lemma ex_members: "Members ex_av = {m1, m2, m3, m4, m5}" "QuorumSize ex_av = 3"
  by (auto simp: ex_av_def QuorumSize_eq NumberOfMembers_def)

lemma ex_all: "GetMembers ex_av = [m1, m2, m3, m4, m5]"
proof -
  have "range_keys (set [m1, m2, m3, m4, m5]) = [m1, m2, m3, m4, m5]"
    by (rule range_keys_sorted) (simp_all add: less_eq_Process_def Process_Less_def)
  then show ?thesis by (simp add: GetMembers_def ex_members)
qed

lemma ex_others_members:
  "Members (NewCopyWithUpdates ex_av [Update Leave p]) = {m1, m2, m3, m4, m5} - {p}"
proof -
  have "Members (NewCopyWithUpdates ex_av [Update Leave p]) =
      members_of (Entries ex_av \<union> {Update Leave p})"
    by (simp add: wf_view_caches(1))
  then show ?thesis by (auto simp: members_of_def ex_entries)
qed

lemma ex_others:
  "GetMembers (NewCopyWithUpdates ex_av [Update Leave m1]) = [m2, m3, m4, m5]"
  "GetMembers (NewCopyWithUpdates ex_av [Update Leave m2]) = [m1, m3, m4, m5]"
  "GetMembers (NewCopyWithUpdates ex_av [Update Leave m3]) = [m1, m2, m4, m5]"
  "GetMembers (NewCopyWithUpdates ex_av [Update Leave m4]) = [m1, m2, m3, m5]"
  "GetMembers (NewCopyWithUpdates ex_av [Update Leave m5]) = [m1, m2, m3, m4]"
proof -
  have sorted: "range_keys (set xs) = xs" if "sorted xs" "distinct xs" for xs :: "Process list"
    using that by (rule range_keys_sorted)
  show "GetMembers (NewCopyWithUpdates ex_av [Update Leave m1]) = [m2, m3, m4, m5]"
    "GetMembers (NewCopyWithUpdates ex_av [Update Leave m2]) = [m1, m3, m4, m5]"
    "GetMembers (NewCopyWithUpdates ex_av [Update Leave m3]) = [m1, m2, m4, m5]"
    "GetMembers (NewCopyWithUpdates ex_av [Update Leave m4]) = [m1, m2, m3, m5]"
    "GetMembers (NewCopyWithUpdates ex_av [Update Leave m5]) = [m1, m2, m3, m4]"
    using sorted [of "[m2, m3, m4, m5]"] sorted [of "[m1, m3, m4, m5]"]
      sorted [of "[m1, m2, m4, m5]"] sorted [of "[m1, m2, m3, m5]"] sorted [of "[m1, m2, m3, m4]"]
    by (simp_all add: GetMembers_def ex_others_members less_eq_Process_def Process_Less_def
        insert_Diff_if)
qed

lemmas ex_tables = ex_less ex_more ex_equal ex_merge ex_all ex_others ex_members ex_init_def

lemmas ex_eval = ex_tables net_start_def net_deliver_def net_emit_def post_def startWorker_def
  countViewSeq_def viewSeqQuorumCounter_count_def seqConvQuorumCounter_count_def count_by_def
  SameButDifferentSender_def ViewSeq_Equal_def onViewSeqMsg_def newProposal_def
  GetMostUpdatedView_def ViewSeq_Append_def onSeqConv_def SeqConv_Equal_def empty_counter_def
  Let_def net_init_def

definition ex_schedule :: "vg_event list" where
  "ex_schedule =
    [Start m1, Start m2, Start m3, Start m4, Start m5,
     Deliver m1 2, Deliver m1 2, Deliver m4 1, Deliver m4 2, Deliver m5 1, Deliver m5 2,
     Deliver m4 3, Deliver m4 4, Deliver m5 3, Deliver m5 4, Deliver m1 3, Deliver m1 4,
     Deliver m2 0, Deliver m2 0, Deliver m3 0, Deliver m3 0, Deliver m1 0, Deliver m1 0,
     Deliver m2 11, Deliver m2 11, Deliver m2 13, Deliver m4 4, Deliver m4 4, Deliver m4 4]"

lemma ex_run:
  "map_option net_generated (vg_run ex_av ex_init net_init ex_schedule) =
     Some [(m2, [ex_a]), (m4, [ex_ab, ex_b])]"
  by (simp add: ex_schedule_def ex_eval
      del: LessUpdatedThan_wf_iff MoreUpdatedThan_wf_iff View_Equal_wf_iff)

lemma ex_reach:
  obtains s where "vg_reach ex_av ex_init s"
    "net_generated s = [(m2, [ex_a]), (m4, [ex_ab, ex_b])]"
proof (cases "vg_run ex_av ex_init net_init ex_schedule")
  case None
  then show thesis using ex_run by (simp only: option.map option.distinct)
next
  case (Some s)
  have "net_generated s = [(m2, [ex_a]), (m4, [ex_ab, ex_b])]"
    using ex_run by (simp only: Some option.map option.inject)
  with that [of s] vg_run_reach [OF vg_init Some] show thesis by blast
qed

lemma ex_good: "good_seq (ex_init p)"
  by (simp add: ex_init_def good_seq_def chain_seq_def)

theorem generated_sequences_are_chains_witness:
  "(\<exists>v. GetLeastUpdatedView [ex_ab, ex_b] = Some v \<and> v \<in> {ex_ab, ex_b}) \<and> wf_view ex_ab \<and> chain_seq [ex_ab, ex_b]"
proof -
  obtain s where "vg_reach ex_av ex_init s" "(m4, [ex_ab, ex_b]) \<in> set (net_generated s)"
    by (rule ex_reach) (simp add: that)
  then have "chain_seq [ex_ab, ex_b] \<and> (\<forall>v \<in> set [ex_ab, ex_b]. wf_view v) \<and>
      (\<exists>v. GetLeastUpdatedView [ex_ab, ex_b] = Some v \<and> v \<in> set [ex_ab, ex_b])"
    using generated_sequences_are_chains [of ex_av ex_init s m4 "[ex_ab, ex_b]"] ex_good ex_wf by blast
  then show ?thesis by (simp only: list.set insert_iff empty_iff) blast
qed

text \<open>C34: The view generators do not agree on where a reconfiguration goes: there is a reachable
  state of five workers in which one has generated a sequence that starts at the view with
  process 6 and another a sequence that starts at the view with process 7, two views
  neither of which holds the updates of the other.\<close>

theorem generated_sequences_can_diverge:
  "\<exists>s. vg_reach ex_av ex_init s \<and>
     (m2, [ex_a]) \<in> set (net_generated s) \<and> (m4, [ex_ab, ex_b]) \<in> set (net_generated s) \<and>
     GetLeastUpdatedView [ex_a] = Some ex_a \<and> GetLeastUpdatedView [ex_ab, ex_b] = Some ex_b \<and>
     LessUpdatedThan ex_a ex_b \<and> LessUpdatedThan ex_b ex_a"
proof -
  have "GetLeastUpdatedView [ex_a] = Some ex_a" "GetLeastUpdatedView [ex_ab, ex_b] = Some ex_b"
    by (simp_all add: GetLeastUpdatedView_def ex_less ex_more
        del: LessUpdatedThan_wf_iff MoreUpdatedThan_wf_iff View_Equal_wf_iff)
  with ex_reach ex_less(1,2) show ?thesis by (metis list.set_intros)
qed

end
