(* ===== verification/Reconfig_Progress.thy ===== *)
theory Reconfig_Progress
  imports Install_Quorums Generator_Split
begin

text \<open>
  How a reconfiguration gets going and ends: a request to join or leave becomes a proposal of
  a strictly newer view, unless the view already has a generator, and a leaving server waits for
  exactly a quorum of the new view. Two executions end without a new view: a member without
  updates of its own proposes the current view, which can be generated and then leads nowhere;
  and members that converge on the same views in different orders generate nothing while the
  third member is down.
\<close>

section \<open>From a request to a proposal\<close>

lemma startWorker_proposes:
  "seq \<noteq> [] \<Longrightarrow> \<exists>os w. startWorker p v seq =
     (BroadcastViewSequence v \<lparr>vsm_Sender = p, vsm_AssociatedView = v, vsm_ProposedSeq = seq,
        vsm_LastConvergedSeq = []\<rparr> # os, w)"
  by (simp add: startWorker_def case_prod_beta Let_def)

lemma request_view:
  assumes "server_inv s" "u \<notin> Entries (currentView s)"
  defines "w \<equiv> NewCopyWithUpdates (currentView s) (range_keys (insert u (recv s)))"
  shows "wf_view w" "MoreUpdatedThan w (currentView s)" "Entries w = Entries (currentView s) \<union> recv s \<union> {u}"
    "assertOnlyUpdatedViews (currentView s) [w]"
  using assms by (auto simp: server_inv_def core_inv_def)

lemma request_turns:
  assumes "server_inv s" "installPhase s = Receiving" "\<not> useConsensus s" "generations s = []"
    and "u \<notin> Entries (currentView s)"
  shows "server_run [ReconfigReq \<lparr>rm_Update = u, rm_AssociatedView = currentView s\<rparr>, TimerFires, RunGeneration] s =
    server_step RunGeneration (s\<lparr>recv := insert u (recv s), generations :=
      [(currentView s, [NewCopyWithUpdates (currentView s) (range_keys (insert u (recv s)))])]\<rparr>)"
  using assms by (simp add: server_step_def Reconfig_def HasUpdate_def startReconfiguration_def
      hasUpdatesToCurrentView_def getInitialViewSeq_eq server_inv_def core_inv_def server_run.simps(2) Let_def
      split: prod.split)

text \<open>C20: What a request to join or leave for the current view leads to when the server is
  receiving, works without consensus, has no generation queued, and its next turns are the
  request, the reconfiguration timer and the generation this starts. If it has no view generator for
  the current view yet, it starts one and proposes to all other members a view that is strictly
  more updated and contains the requested update together with every update that waited before.
  If it already has one, created for a proposal of another member or by an earlier turn
  of the timer, the new proposal is dropped: nothing is sent, the generator does not learn of
  the update, and the only change is that the update is pending.\<close>

theorem reconfig_request_is_proposed:
  assumes "server_inv s" "installPhase s = Receiving" "\<not> useConsensus s" "generations s = []"
    and "u \<notin> Entries (currentView s)"
    and "turns = server_run [ReconfigReq \<lparr>rm_Update = u, rm_AssociatedView = currentView s\<rparr>,
          TimerFires, RunGeneration] s"
  shows "if find_generator (currentView s) 0 (viewGenerators s) = None
    then \<exists>w. GeneratorSends (BroadcastViewSequence (currentView s)
        \<lparr>vsm_Sender = thisProcess s, vsm_AssociatedView = currentView s, vsm_ProposedSeq = [w],
         vsm_LastConvergedSeq = []\<rparr>) \<in> set (fst turns) \<and>
      wf_view w \<and> MoreUpdatedThan w (currentView s) \<and>
      Entries w = Entries (currentView s) \<union> recv s \<union> {u}
    else turns = ([], s\<lparr>recv := insert u (recv s)\<rparr>)"
proof (cases "find_generator (currentView s) 0 (viewGenerators s)")
  case None
  let ?w = "NewCopyWithUpdates (currentView s) (range_keys (insert u (recv s)))"
  obtain os wk where st: "startWorker (thisProcess s) (currentView s) [?w] =
     (BroadcastViewSequence (currentView s) \<lparr>vsm_Sender = thisProcess s, vsm_AssociatedView = currentView s,
        vsm_ProposedSeq = [?w], vsm_LastConvergedSeq = []\<rparr> # os, wk)"
    using startWorker_proposes [of "[?w]"] by blast
  have "GeneratorSends (BroadcastViewSequence (currentView s) \<lparr>vsm_Sender = thisProcess s,
      vsm_AssociatedView = currentView s, vsm_ProposedSeq = [?w], vsm_LastConvergedSeq = []\<rparr>) \<in> set (fst turns)"
    unfolding assms(6) request_turns [OF assms(1-5)] using assms(2,3) None st request_view [OF assms(1,5)]
    by (simp add: server_step_def runGeneration_def generateViewSequenceWithoutConsensus_def
        getOrCreateViewGenerator_def emit_worker_eq Let_def del: assertOnlyUpdatedViews.simps)
  then show ?thesis using None request_view [OF assms(1,5)] by auto
next
  case (Some i)
  then show ?thesis unfolding assms(6) request_turns [OF assms(1-5)] using assms(2-4) request_view [OF assms(1,5)]
    by (simp add: server_step_def runGeneration_def generateViewSequenceWithoutConsensus_def
        getOrCreateViewGenerator_def Let_def del: assertOnlyUpdatedViews.simps)
qed

theorem reconfig_request_is_proposed_witness:
  "let s = initServer ''a'' iv0 :: nat Server;
       g = \<lparr>vgi_AssociatedView = iv0, jobChan = [], vgi_worker = snd (startWorker (Process ''a'') iv0 [iv0])\<rparr>;
       u = Update Leave (Process ''b'');
       es = [ReconfigReq \<lparr>rm_Update = u, rm_AssociatedView = iv0\<rparr>, TimerFires, RunGeneration]
   in (\<exists>w. GeneratorSends (BroadcastViewSequence iv0
         \<lparr>vsm_Sender = Process ''a'', vsm_AssociatedView = iv0, vsm_ProposedSeq = [w],
          vsm_LastConvergedSeq = []\<rparr>) \<in> set (fst (server_run es s)) \<and> MoreUpdatedThan w iv0) \<and>
      server_run es (s\<lparr>viewGenerators := [g]\<rparr>) = ([], s\<lparr>viewGenerators := [g], recv := {u}\<rparr>)"
proof -
  let ?s = "initServer ''a'' iv0 :: nat Server" and ?u = "Update Leave (Process ''b'')"
  let ?g = "\<lparr>vgi_AssociatedView = iv0, jobChan = [], vgi_worker = snd (startWorker (Process ''a'') iv0 [iv0])\<rparr>"
  let ?es = "[ReconfigReq \<lparr>rm_Update = ?u, rm_AssociatedView = iv0\<rparr>, TimerFires, RunGeneration]"
  have u: "?u \<notin> Entries iv0" by (auto simp: iv0_def NewWithProcesses_eq)
  have wf: "wf_view iv0" by (simp add: iv0_def)
  have "\<exists>w. GeneratorSends (BroadcastViewSequence iv0
         \<lparr>vsm_Sender = Process ''a'', vsm_AssociatedView = iv0, vsm_ProposedSeq = [w],
          vsm_LastConvergedSeq = []\<rparr>) \<in> set (fst (server_run ?es ?s)) \<and> MoreUpdatedThan w iv0"
    using reconfig_request_is_proposed [of ?s ?u "server_run ?es ?s"] initServer_inv [of iv0] u
    by (auto simp del: server_run_Cons MoreUpdatedThan_wf_iff)
  moreover have "good_seq [iv0]" using wf by (simp add: good_seq_def chain_seq_def)
  then have "worker_inv (vgi_worker ?g)" "w_AssociatedView (vgi_worker ?g) = iv0"
    using startWorker_inv [OF wf] by simp_all
  then have "server_inv (?s\<lparr>viewGenerators := [?g]\<rparr>)"
    using initServer_inv [of iv0, where 'a = nat] wf by (simp add: server_inv_defs vgi_ok_def)
  then have "server_run ?es (?s\<lparr>viewGenerators := [?g]\<rparr>) = ([], ?s\<lparr>viewGenerators := [?g], recv := {?u}\<rparr>)"
    using reconfig_request_is_proposed [of "?s\<lparr>viewGenerators := [?g]\<rparr>" ?u "server_run ?es (?s\<lparr>viewGenerators := [?g]\<rparr>)"] u wf
    by (simp del: server_run_Cons)
  ultimately show ?thesis by (simp add: Let_def del: server_run_Cons)
qed

section \<open>Leaving\<close>

lemma view_installed_turns:
  assumes "installPhase s = WaitingViewInstalled isq n" "newViewInstalledChan s = ms"
    "n < QuorumSize (is_InstallView isq)"
  shows "installPhase (snd (server_run (replicate (length ms) TakeViewInstalled) s)) = Exited \<longleftrightarrow>
    QuorumSize (is_InstallView isq) \<le>
      n + length (filter (\<lambda>m. View_Equal (is_InstallView isq) (vim_InstalledView m)) ms)"
  using assms
proof (induction ms arbitrary: s n)
  case (Cons m ms)
  let ?eq = "View_Equal (is_InstallView isq) (vim_InstalledView m)"
  let ?s1 = "snd (server_step TakeViewInstalled s)"
  have chan: "newViewInstalledChan ?s1 = ms"
    using Cons.prems by (simp add: server_step_def viewInstalledProcessing_def Let_def)
  have dead: "installPhase t = Exited \<Longrightarrow> installPhase (snd (server_run es t)) = Exited" for t :: "'a Server" and es
    by (induction es arbitrary: t) (simp_all add: server_step_def)
  show ?case
  proof (cases "?eq \<and> n + 1 = QuorumSize (is_InstallView isq)")
    case True
    then have "installPhase ?s1 = Exited"
      using Cons.prems by (simp add: server_step_def viewInstalledProcessing_def Let_def)
    with True dead show ?thesis by simp
  next
    case False
    let ?n = "if ?eq then n + 1 else n"
    have "installPhase ?s1 = WaitingViewInstalled isq ?n"
      using Cons.prems False by (auto simp: server_step_def viewInstalledProcessing_def Let_def)
    with Cons.IH [OF this chan] False Cons.prems(3) show ?thesis by (auto split: if_splits)
  qed
qed simp

text \<open>C22: A server that is not in the new view exits exactly when a quorum of view-installed
  messages for that view arrived, not before, and messages about other views do not count.\<close>

theorem leaving_server_waits_for_quorum:
  assumes "installPhase s = Receiving" "viewReaders s = 0" "registerLocked s = registerLockOnce s"
    and "MoreUpdatedThan (is_InstallView isq) (currentView s)"
    and "\<not> HasMember (is_InstallView isq) (thisProcess s)" "newViewInstalledChan s = ms"
  shows "installPhase (snd (server_run (replicate (length ms) TakeViewInstalled)
        (snd (gotInstallSeqQuorum isq s)))) = Exited \<longleftrightarrow>
    QuorumSize (is_InstallView isq) \<le>
      length (filter (\<lambda>m. View_Equal (is_InstallView isq) (vim_InstalledView m)) ms)"
proof -
  let ?t = "snd (gotInstallSeqQuorum isq s)"
  have "installPhase ?t = WaitingViewInstalled isq 0" "newViewInstalledChan ?t = ms"
    using assms by (simp_all add: gotInstallSeqQuorum_def afterStateSent_def Let_def)
  from view_installed_turns [OF this] show ?thesis by simp
qed

theorem leaving_server_waits_for_quorum_witness:
  "let v = NewWithProcesses [Process ''a'']; w = NewCopyWithUpdates v [Update Leave (Process ''a'')];
       s = initServer ''a'' v \<lparr>newViewInstalledChan := [\<lparr>vim_InstalledView = w\<rparr>]\<rparr>;
       isq = \<lparr>is_InstallView = w, is_ViewSeq = [w], is_AssociatedView = v\<rparr>
   in installPhase (snd (server_run [TakeViewInstalled] (snd (gotInstallSeqQuorum isq (s :: nat Server))))) = Exited"
proof -
  let ?v = "NewWithProcesses [Process ''a'']"
  let ?w = "NewCopyWithUpdates ?v [Update Leave (Process ''a'')]"
  have w: "Members ?w = {}" "MoreUpdatedThan ?w ?v"
    by (auto simp: wf_view_caches(1) members_of_def NewWithProcesses_eq NewCopyWithUpdates_eq)
  then have "QuorumSize ?w = 1" by (simp add: QuorumSize_eq NumberOfMembers_def)
  then show ?thesis
    using leaving_server_waits_for_quorum [of "initServer ''a'' ?v \<lparr>newViewInstalledChan :=
        [\<lparr>vim_InstalledView = ?w\<rparr>]\<rparr> :: nat Server"
        "\<lparr>is_InstallView = ?w, is_ViewSeq = [?w], is_AssociatedView = ?v\<rparr>"] w
    by (simp add: HasMember_def Let_def del: MoreUpdatedThan_wf_iff server_run_Cons)
qed

section \<open>Proposing the current view\<close>

lemma idle_initial_seq:
  assumes "wf_view (currentView s)" "recv s = {}"
  shows "getInitialViewSeq s = [currentView s]"
proof -
  have "NewCopyWithUpdates (currentView s) [] = currentView s"
    using assms(1) by (intro wf_view_eqI) simp_all
  with assms(2) show ?thesis by (simp add: getInitialViewSeq_eq)
qed

text \<open>An execution: members 1 and 2 want to add process 6, member 3 has nothing to add.\<close>

definition ey_av :: View where
  "ey_av = NewWithProcesses [m1, m2, m3]"

definition ey_a :: View where
  "ey_a = NewWithProcesses [m1, m2, m3, Process ''6'']"

definition ey_init :: "Process \<Rightarrow> ViewSeq" where
  "ey_init p = (if p = m3 then [ey_av] else [ey_a])"

definition ey_schedule :: "vg_event list" where
  "ey_schedule = [Start m1, Start m2, Start m3, Deliver m1 1, Deliver m2 1, Deliver m1 1, Deliver m2 1,
     Deliver m1 1, Deliver m1 1, Deliver m2 1, Deliver m2 1]"

lemma ey_wf [simp]: "wf_view ey_av" "wf_view ey_a"
  by (simp_all add: ey_av_def ey_a_def)

lemma ey_more: "MoreUpdatedThan ey_a ey_av"
  unfolding ey_av_def ey_a_def by (rule NewWithProcesses_more [where p = "Process ''6''"]) simp_all

lemma ey_incl: "Entries ey_av \<subseteq> Entries ey_a" "\<not> Entries ey_a \<subseteq> Entries ey_av" "ey_a \<noteq> ey_av"
  using ey_more by auto

lemma ey_tables:
  "LessUpdatedThan ey_av ey_a" "\<not> LessUpdatedThan ey_a ey_av"
  "\<not> LessUpdatedThan ey_a ey_a" "\<not> LessUpdatedThan ey_av ey_av"
  "View_Equal ey_a ey_a" "View_Equal ey_av ey_av" "\<not> View_Equal ey_a ey_av" "\<not> View_Equal ey_av ey_a"
  "\<not> MoreUpdatedThan ey_av ey_av"
  using ey_incl by auto

lemma ey_members: "Members ey_av = {m1, m2, m3}" "QuorumSize ey_av = 2"
  by (simp_all add: ey_av_def QuorumSize_eq NumberOfMembers_def)

lemma ey_all: "GetMembers ey_av = [m1, m2, m3]"
proof -
  have "range_keys (set [m1, m2, m3]) = [m1, m2, m3]"
    by (rule range_keys_sorted) (simp_all add: less_eq_Process_def Process_Less_def)
  then show ?thesis by (simp add: GetMembers_def ey_members)
qed

lemma ey_others:
  "GetMembers (NewCopyWithUpdates ey_av [Update Leave m1]) = [m2, m3]"
  "GetMembers (NewCopyWithUpdates ey_av [Update Leave m2]) = [m1, m3]"
  "GetMembers (NewCopyWithUpdates ey_av [Update Leave m3]) = [m1, m2]"
proof -
  have ms: "Members (NewCopyWithUpdates ey_av [Update Leave p]) = {m1, m2, m3} - {p}" for p
    by (auto simp: wf_view_caches(1) members_of_def ey_av_def NewWithProcesses_eq NewCopyWithUpdates_eq)
  have sorted: "range_keys (set xs) = xs" if "sorted xs" "distinct xs" for xs :: "Process list"
    using that by (rule range_keys_sorted)
  show "GetMembers (NewCopyWithUpdates ey_av [Update Leave m1]) = [m2, m3]"
    "GetMembers (NewCopyWithUpdates ey_av [Update Leave m2]) = [m1, m3]"
    "GetMembers (NewCopyWithUpdates ey_av [Update Leave m3]) = [m1, m2]"
    using sorted [of "[m2, m3]"] sorted [of "[m1, m3]"] sorted [of "[m1, m2]"]
    by (simp_all add: GetMembers_def ms less_eq_Process_def Process_Less_def insert_Diff_if)
qed

lemma ey_run:
  "map_option net_generated (vg_run ey_av ey_init net_init ey_schedule) = Some [(m1, [ey_a, ey_av]), (m2, [ey_a, ey_av])]"
  by (simp add: ey_schedule_def ex_eval ey_tables ey_members ey_all ey_others ey_init_def
      del: LessUpdatedThan_wf_iff MoreUpdatedThan_wf_iff View_Equal_wf_iff)

lemma ey_reach:
  obtains s where "vg_reach ey_av ey_init s" "net_generated s = [(m1, [ey_a, ey_av]), (m2, [ey_a, ey_av])]"
proof (cases "vg_run ey_av ey_init net_init ey_schedule")
  case None
  then show thesis using ey_run by (simp only: option.map option.distinct)
next
  case (Some s)
  have "net_generated s = [(m1, [ey_a, ey_av]), (m2, [ey_a, ey_av])]"
    using ey_run by (simp only: Some option.map option.inject)
  with that [of s] vg_run_reach [OF vg_init Some] show thesis by blast
qed

text \<open>A server that already has a generator for its view gains nothing from such a sequence.\<close>

lemma stalled_install:
  assumes "installPhase s = Receiving" "viewReaders s = 0" "generations s = []" "\<not> useConsensus s"
    and "currentView s = ey_av" "find_generator ey_av 0 (viewGenerators s) = Some i"
  shows "snd (server_run [RunGeneration] (snd (gotInstallSeqQuorum
      \<lparr>is_InstallView = ey_av, is_ViewSeq = [ey_a, ey_av], is_AssociatedView = ey_av\<rparr> s))) = s"
proof -
  let ?isq = "\<lparr>is_InstallView = ey_av, is_ViewSeq = [ey_a, ey_av], is_AssociatedView = ey_av\<rparr>"
  have "snd (gotInstallSeqQuorum ?isq s) = s\<lparr>generations := [(ey_av, [ey_a])], installPhase := Receiving\<rparr>"
    using assms(1-5) ey_more ey_tables(9)
    by (simp add: gotInstallSeqQuorum_def afterStateSent_def installOthersViewsFromViewSeqLocked_def
        Let_def del: MoreUpdatedThan_wf_iff)
  moreover have "assertOnlyUpdatedViews ey_av [ey_a]" using ey_tables(2) by (simp del: LessUpdatedThan_wf_iff)
  ultimately show ?thesis
    using assms by (simp add: server_step_def runGeneration_def generateViewSequenceWithoutConsensus_def
        getOrCreateViewGenerator_def Let_def del: assertOnlyUpdatedViews.simps)
qed

text \<open>A reconfiguration can come to nothing: a member without updates of its own answers a
  proposal with its current view, so there is a reachable state of three view generators in
  which a quorum generated a sequence whose least updated view is the current one; a server
  that installs it, and then runs the generation it queued, is back in the state it was in,
  because it already has a generator for its view.\<close>

theorem current_view_can_be_generated:
  "getInitialViewSeq (initServer ''3'' ey_av :: 'a Server) = ey_init m3 \<and>
   (\<exists>n. vg_reach ey_av ey_init n \<and> {m1, m2} \<times> {[ey_a, ey_av]} \<subseteq> set (net_generated n)) \<and>
   GetLeastUpdatedView [ey_a, ey_av] = Some ey_av \<and>
   (let s = (initServer ''3'' ey_av :: 'a Server)\<lparr>viewGenerators :=
          [\<lparr>vgi_AssociatedView = ey_av, jobChan = [], vgi_worker = snd (startWorker m3 ey_av [ey_av])\<rparr>]\<rparr>
    in snd (server_run [RunGeneration] (snd (gotInstallSeqQuorum
      \<lparr>is_InstallView = ey_av, is_ViewSeq = [ey_a, ey_av], is_AssociatedView = ey_av\<rparr> s))) = s)"
proof -
  let ?s = "(initServer ''3'' ey_av :: 'a Server)\<lparr>viewGenerators :=
          [\<lparr>vgi_AssociatedView = ey_av, jobChan = [], vgi_worker = snd (startWorker m3 ey_av [ey_av])\<rparr>]\<rparr>"
  have "getInitialViewSeq (initServer ''3'' ey_av :: 'a Server) = ey_init m3"
    using idle_initial_seq [of "initServer ''3'' ey_av :: 'a Server"] by (simp add: ey_init_def)
  moreover have "\<exists>n. vg_reach ey_av ey_init n \<and> {m1, m2} \<times> {[ey_a, ey_av]} \<subseteq> set (net_generated n)"
    by (rule ey_reach) auto
  moreover have "GetLeastUpdatedView [ey_a, ey_av] = Some ey_av"
    by (simp add: GetLeastUpdatedView_def ey_tables ey_more del: LessUpdatedThan_wf_iff)
  moreover have "snd (server_run [RunGeneration] (snd (gotInstallSeqQuorum
      \<lparr>is_InstallView = ey_av, is_ViewSeq = [ey_a, ey_av], is_AssociatedView = ey_av\<rparr> ?s))) = ?s"
    by (rule stalled_install) simp_all
  ultimately show ?thesis by (simp only: Let_def simp_thms)
qed

section \<open>Equal sequences in different orders\<close>

text \<open>Member 1 has failed; members 2 and 3 exchange all their messages.\<close>

definition eo_schedule :: "vg_event list" where
  "eo_schedule = [Start m2, Start m3, Deliver m2 0, Deliver m3 0, Deliver m2 0, Deliver m3 0, Deliver m2 0,
     Deliver m3 0, Deliver m2 0, Deliver m3 0]"

definition eo_seen :: "vg_net \<Rightarrow> bool" where
  "eo_seen n \<longleftrightarrow> dom (net_workers n) = {m2, m3} \<and> net_inbox n m2 = [] \<and> net_inbox n m3 = [] \<and> net_generated n = [] \<and>
     map_option lastConvergedSeq (net_workers n m2) = Some [ey_av, ey_a] \<and>
     map_option lastConvergedSeq (net_workers n m3) = Some [ey_a, ey_av]"

lemma eo_run: "map_option eo_seen (vg_run ey_av ey_init net_init eo_schedule) = Some True"
  by (simp add: eo_schedule_def eo_seen_def insert_commute ex_eval ey_tables ey_members ey_all ey_others ey_init_def
      del: LessUpdatedThan_wf_iff MoreUpdatedThan_wf_iff View_Equal_wf_iff)

definition eo_restart :: "vg_event list" where
  "eo_restart = [Start m1, Deliver m1 1, Deliver m1 1, Deliver m2 2, Deliver m3 2]"

lemma eo_restart_run:
  "map_option net_generated (vg_run ey_av ey_init net_init (eo_schedule @ eo_restart)) =
     Some [(m2, [ey_a, ey_av]), (m3, [ey_a, ey_av])]"
  by (simp add: eo_schedule_def eo_restart_def ex_eval ey_tables ey_members ey_all ey_others ey_init_def
      del: LessUpdatedThan_wf_iff MoreUpdatedThan_wf_iff View_Equal_wf_iff)

lemma eo_stuck:
  assumes "eo_seen n" "Start m1 \<notin> set es" "vg_run ey_av ey_init n es = Some t"
  shows "t = n"
proof (cases es)
  case (Cons e es1)
  have workers: "net_workers n p = None \<longleftrightarrow> p \<notin> {m2, m3}" for p
    using assms(1) by (metis domIff eo_seen_def)
  have "\<not> vg_ok ey_av n e"
  proof (cases e)
    case (Start p)
    then show ?thesis using assms(2) Cons workers [of p] ey_members by auto
  next
    case (Deliver p i)
    then show ?thesis using assms(1) workers [of p] by (auto simp: eo_seen_def)
  qed
  with assms(3) Cons show ?thesis by simp
qed (use assms in simp)

text \<open>C35: The view generators can agree and still come to a standstill with a fault the system
  tolerates. Of three members one has not started; the other two, a quorum, have started, have
  received every message sent to them and converged on sequences with the same views, but in
  different orders, so their convergence messages count as different ones. From then on, as
  long as the third member stays down, no step is possible and nothing is generated. When it
  does start, its messages let both of them generate the sequence.\<close>

theorem converged_orders_stall:
  "\<exists>n. vg_reach ey_av ey_init n \<and> Members ey_av = {m1, m2, m3} \<and> QuorumSize ey_av = 2 \<and>
     dom (net_workers n) = {m2, m3} \<and> net_inbox n m2 = [] \<and> net_inbox n m3 = [] \<and> net_generated n = [] \<and>
     (\<exists>w2 w3. net_workers n m2 = Some w2 \<and> net_workers n m3 = Some w3 \<and>
       ViewSeq_Equal (lastConvergedSeq w2) (lastConvergedSeq w3) \<and>
       \<not> SeqConv_Equal \<lparr>sc_Seq = lastConvergedSeq w2\<rparr> \<lparr>sc_Seq = lastConvergedSeq w3\<rparr>) \<and>
     (\<forall>es t. Start m1 \<notin> set es \<and> vg_run ey_av ey_init n es = Some t \<longrightarrow> t = n) \<and>
     (\<exists>es t. vg_run ey_av ey_init n (Start m1 # es) = Some t \<and>
       net_generated t = [(m2, [ey_a, ey_av]), (m3, [ey_a, ey_av])])"
proof -
  obtain n where run: "vg_run ey_av ey_init net_init eo_schedule = Some n" and seen: "eo_seen n"
    using eo_run by (cases "vg_run ey_av ey_init net_init eo_schedule") (simp_all only: option.map option.distinct option.inject simp_thms)
  obtain w2 w3 where workers: "net_workers n m2 = Some w2" "net_workers n m3 = Some w3"
    "lastConvergedSeq w2 = [ey_av, ey_a]" "lastConvergedSeq w3 = [ey_a, ey_av]"
    using seen by (auto simp: eo_seen_def)
  have "ViewSeq_Equal [ey_av, ey_a] [ey_a, ey_av]" "\<not> SeqConv_Equal \<lparr>sc_Seq = [ey_av, ey_a]\<rparr> \<lparr>sc_Seq = [ey_a, ey_av]\<rparr>"
    using ey_tables by (simp_all add: ViewSeq_Equal_def SeqConv_Equal_def del: View_Equal_wf_iff)
  with workers have orders: "\<exists>w2 w3. net_workers n m2 = Some w2 \<and> net_workers n m3 = Some w3 \<and>
       ViewSeq_Equal (lastConvergedSeq w2) (lastConvergedSeq w3) \<and>
       \<not> SeqConv_Equal \<lparr>sc_Seq = lastConvergedSeq w2\<rparr> \<lparr>sc_Seq = lastConvergedSeq w3\<rparr>" by simp
  have "map_option net_generated (vg_run ey_av ey_init n eo_restart) =
      Some [(m2, [ey_a, ey_av]), (m3, [ey_a, ey_av])]"
    using eo_restart_run unfolding vg_run_append run by simp
  then have restart: "\<exists>es t. vg_run ey_av ey_init n (Start m1 # es) = Some t \<and>
       net_generated t = [(m2, [ey_a, ey_av]), (m3, [ey_a, ey_av])]"
    unfolding eo_restart_def by blast
  have stuck: "\<forall>es t. Start m1 \<notin> set es \<and> vg_run ey_av ey_init n es = Some t \<longrightarrow> t = n"
    using eo_stuck [OF seen] by blast
  show ?thesis
    using vg_run_reach [OF vg_init run] seen ey_members stuck orders restart unfolding eo_seen_def by blast
qed

theorem converged_orders_stall_witness:
  "\<exists>n. vg_reach ey_av ey_init n \<and> net_generated n = [] \<and> (\<forall>i. vg_run ey_av ey_init n [Deliver m2 i] \<in> {None, Some n}) \<and>
     (\<exists>es t. vg_run ey_av ey_init n (Start m1 # es) = Some t \<and> net_generated t = [(m2, [ey_a, ey_av]), (m3, [ey_a, ey_av])])"
proof (rule exE [OF converged_orders_stall], elim conjE)
  fix n
  assume n: "vg_reach ey_av ey_init n" "net_generated n = []"
    "\<forall>es t. Start m1 \<notin> set es \<and> vg_run ey_av ey_init n es = Some t \<longrightarrow> t = n"
    "\<exists>es t. vg_run ey_av ey_init n (Start m1 # es) = Some t \<and> net_generated t = [(m2, [ey_a, ey_av]), (m3, [ey_a, ey_av])]"
  have "vg_run ey_av ey_init n [Deliver m2 i] \<in> {None, Some n}" for i
    using n(3) [rule_format, of "[Deliver m2 i]"] by (cases "vg_run ey_av ey_init n [Deliver m2 i]") (simp_all del: vg_run.simps)
  with n(1,2,4) show ?thesis by (intro exI [of _ n] conjI allI)
qed

end
