(* ===== verification/Deployment.thy ===== *)
theory Deployment
  imports Installation
begin

text \<open>
  All servers of a deployment and the network between them. A deployment is described by the
  events each server has processed so far, each with the process it came from: the state of a
  server is \<open>server_run\<close> of its events, and the network holds what the servers have broadcast
  by then. A server receives only what some server has broadcast to it; what comes from
  outside are the requests of clients and administrators, the timers and the scheduling of
  goroutines. The network may delay, drop, reorder and repeat messages. Nothing is assumed
  about the messages: that they are well formed is proved.
\<close>

section \<open>The network\<close>

text \<open>The broadcast functions: who gets which request.\<close>

fun packets :: "Process \<Rightarrow> 'a server_out \<Rightarrow> (Process \<times> 'a event) list" where
  "packets self (BroadcastReconfigRequest w m) = map (\<lambda>d. (d, ReconfigReq m)) (GetMembers w)"
| "packets self (BroadcastInstallSeq w m) = map (\<lambda>d. (d, InstallSeqReq m)) (GetMembers w)"
| "packets self (BroadcastStateUpdate w m) = map (\<lambda>d. (d, StateUpdateReq m)) (GetMembers w)"
| "packets self (BroadcastViewInstalled w m) = map (\<lambda>d. (d, ViewInstalledReq m)) (GetMembers w)"
| "packets self (GeneratorSends (BroadcastViewSequence w m)) =
     map (\<lambda>d. (d, ProposeSeqViewReq m)) (GetMembers (NewCopyWithUpdates w [Update Leave self]))"
| "packets self (GeneratorSends (BroadcastViewSequenceConv w m)) =
     map (\<lambda>d. (d, SeqConvReq m)) (GetMembers w)"
| "packets self _ = []"

text \<open>The events that are messages of servers; the others come from outside.\<close>

fun message :: "'a event \<Rightarrow> bool" where
  "message (ReconfigReq m) = True"
| "message (InstallSeqReq m) = True"
| "message (StateUpdateReq m) = True"
| "message (ViewInstalledReq m) = True"
| "message (ProposeSeqViewReq m) = True"
| "message (SeqConvReq m) = True"
| "message (ConsensusDecided av d) = True"
| "message _ = False"

type_synonym 'a history = "Process \<Rightarrow> (Process \<times> 'a event) list"

definition later :: "'a history \<Rightarrow> Process \<Rightarrow> (Process \<times> 'a event) list \<Rightarrow> 'a history" where
  "later H p es = (\<lambda>q. if q = p then H q @ es else H q)"

text \<open>Every process runs \<^verbatim>\<open>New\<close> with some view; those that are not members ask to join.\<close>

definition well_started :: "(Process \<Rightarrow> 'a transition) \<Rightarrow> bool" where
  "well_started start \<longleftrightarrow> (\<forall>addr. \<exists>u c. wf_view u \<and>
     NewServer (Some addr) False u c = Created (fst (start (Process addr))) (snd (start (Process addr))))"

definition server_at :: "(Process \<Rightarrow> 'a transition) \<Rightarrow> 'a history \<Rightarrow> Process \<Rightarrow> 'a Server" where
  "server_at start H p = snd (server_run (map snd (H p)) (snd (start p)))"

definition outputs :: "(Process \<Rightarrow> 'a transition) \<Rightarrow> 'a history \<Rightarrow> Process \<Rightarrow> 'a server_out list" where
  "outputs start H p = fst (start p) @ fst (server_run (map snd (H p)) (snd (start p)))"

definition network :: "(Process \<Rightarrow> 'a transition) \<Rightarrow> 'a history \<Rightarrow> (Process \<times> Process \<times> 'a event) set" where
  "network start H = {(q, p, e). (p, e) \<in> set (concat (map (packets q) (outputs start H q)))}"

inductive happened :: "(Process \<Rightarrow> 'a transition) \<Rightarrow> 'a history \<Rightarrow> bool" for start where
  Start: "happened start (\<lambda>_. [])"
| Step: "happened start H \<Longrightarrow> (message e \<longrightarrow> (q, p, e) \<in> network start H) \<Longrightarrow>
    happened start (later H p [(q, e)])"

lemma server_run_append:
  "server_run (xs @ ys) s =
     (fst (server_run xs s) @ fst (server_run ys (snd (server_run xs s))),
      snd (server_run ys (snd (server_run xs s))))"
  by (induction xs arbitrary: s) (auto intro!: prod_eqI)

lemma later_simps: "later H p [] = H" "later (later H p es) p fs = later H p (es @ fs)"
  by (auto simp: later_def)

lemma server_at_upd:
  "server_at start (later H p es) q =
     (if q = p then snd (server_run (map snd es) (server_at start H p)) else server_at start H q)"
  by (simp add: server_at_def later_def server_run_append)

lemma outputs_upd:
  "outputs start (later H p es) q = outputs start H q @
     (if q = p then fst (server_run (map snd es) (server_at start H p)) else [])"
  by (simp add: outputs_def server_at_def later_def server_run_append)

lemma network_mono: "network start H \<subseteq> network start (later H p es)"
  by (auto simp: network_def outputs_upd)

text \<open>A server may process several events in a row.\<close>

lemma happened_batch:
  assumes "happened start H" "\<forall>(q, e) \<in> set es. message e \<longrightarrow> (q, p, e) \<in> network start H"
  shows "happened start (later H p es)"
  using assms
proof (induction es rule: rev_induct)
  case (snoc x es)
  obtain q e where x: "x = (q, e)" by fastforce
  have "happened start (later H p es)" using snoc by simp
  moreover have "message e \<longrightarrow> (q, p, e) \<in> network start (later H p es)"
    using snoc.prems(2) network_mono [of start H p es] by (auto simp: x)
  ultimately have "happened start (later (later H p es) p [(q, e)])"
    by (rule happened.Step)
  then show ?case by (simp add: x later_simps)
qed (simp add: later_simps)

section \<open>The invariant of the deployment\<close>

definition deploy_inv :: "(Process \<Rightarrow> 'a transition) \<Rightarrow> 'a history \<Rightarrow> bool" where
  "deploy_inv start H \<longleftrightarrow> (\<forall>p. server_inv (server_at start H p)) \<and>
     (\<forall>p. \<forall>x \<in> set (outputs start H p). good_server_out x)"

lemma packets_good: "good_server_out x \<Longrightarrow> (d, e) \<in> set (packets p x) \<Longrightarrow> message e \<and> good_event e"
  by (induction p x rule: packets.induct) auto

lemma free_good: "\<not> message e \<Longrightarrow> good_event e"
  by (cases e) auto

lemma network_good: "deploy_inv start H \<Longrightarrow> (q, p, e) \<in> network start H \<Longrightarrow> message e \<and> good_event e"
  using packets_good by (fastforce simp: deploy_inv_def network_def)

lemma start_inv:
  assumes "well_started start"
  shows "deploy_inv start (\<lambda>_. [])"
proof -
  have "server_inv (snd (start p)) \<and> (\<forall>x \<in> set (fst (start p)). good_server_out x)" for p
  proof (cases p)
    case (Process addr)
    obtain u c where u: "wf_view u"
      and new: "NewServer (Some addr) False u c = Created (fst (start p)) (snd (start p))"
      using assms Process unfolding well_started_def by blast
    have "fst (start p) = [] \<or> (\<exists>m. fst (start p) = [BroadcastReconfigRequest u m])"
      using new by (auto simp: NewServer_def joinLocked_def Let_def split: if_splits dest: sym)
    then show ?thesis using NewServer_inv [OF new u] by auto
  qed
  then show ?thesis by (simp add: deploy_inv_def server_at_def outputs_def)
qed

lemma happened_inv: "happened start H \<Longrightarrow> well_started start \<Longrightarrow> deploy_inv start H"
proof (induction rule: happened.induct)
  case (Step H e q p)
  then have inv: "deploy_inv start H" by simp
  have "good_event e" using Step(2) network_good [OF inv] free_good by blast
  then have "keeps_inv (server_run [e] (server_at start H p))"
    using inv by (intro server_run_inv) (simp_all add: deploy_inv_def)
  with inv show ?case
    by (auto simp: deploy_inv_def server_at_upd outputs_upd simp del: server_run_Cons)
qed (rule start_inv)

section \<open>Properties\<close>

text \<open>C8: Servers that talk only to each other never break: in every run of a deployment, whatever
  the network does with the messages and whatever clients and administrators ask for, every
  server keeps a well-formed view and no pending update that its view already has, every
  message on the network is well formed, and a server dies of nothing but the runtime
  error of unlocking an unlocked mutex.\<close>

theorem deployment_invariant:
  assumes "well_started start" "happened start H"
  shows "wf_view (currentView (server_at start H p)) \<and>
    recv (server_at start H p) \<inter> Entries (currentView (server_at start H p)) = {} \<and>
    (\<forall>err. installPhase (server_at start H p) = Crashed err \<longrightarrow> err = ''sync: Unlock of unlocked RWMutex'') \<and>
    (\<forall>(q, d, e) \<in> network start H. message e \<and> good_event e)"
proof -
  note inv = happened_inv [OF assms(2,1)]
  have "server_inv (server_at start H p)" using inv by (simp add: deploy_inv_def)
  then show ?thesis using network_good [OF inv] by (auto simp: server_inv_def core_inv_def)
qed

end
