(* ===== verification/Reconfig_Timer.thy ===== *)
theory Reconfig_Timer
  imports Reconfig_Progress Deployment
begin

text \<open>
  The timer that starts reconfigurations: \<^verbatim>\<open>resetReconfigurationTimerLoop\<close> with the goroutines
  of \<^verbatim>\<open>startReconfiguration\<close> that the timer starts, on a clock in nanoseconds. Such a goroutine
  first looks for pending updates and then waits for \<^verbatim>\<open>currentViewMu\<close>; in \<open>Reconfiguration\<close> both
  are the one event \<open>TimerFires\<close>. The messages in \<^verbatim>\<open>resetReconfigurationTimerChan\<close> are counted
  together with the senders that wait for room in it: the loop only receives, so each of them
  gets through.
\<close>

section \<open>The timer and its goroutines\<close>

definition reconfigurationPeriod :: int where
  "reconfigurationPeriod = 60 * 1000000000"

definition firstReconfigurationTimerDuration :: int where
  "firstReconfigurationTimerDuration = 10 * 1000000000"

text \<open>
  The timer is set to a time or stopped. \<open>underWay\<close> is not a variable of the program: it says
  that this server started a reconfiguration since the last message to the timer.
\<close>

record 'a TimedServer =
  srv :: "'a Server"
  clock :: int
  timer :: "int option"
  resets :: nat
  checks :: nat
  startsWaiting :: nat
  underWay :: bool

definition startTimerLoop :: "int \<Rightarrow> 'a Server \<Rightarrow> 'a TimedServer" where
  "startTimerLoop now s = \<lparr>srv = s, clock = now, timer = Some (now + firstReconfigurationTimerDuration),
     resets = 0, checks = 0, startsWaiting = 0, underWay = False\<rparr>"

datatype 'a timed_event =
    Elapse nat
  | Fire
  | CheckUpdates
  | TakeViewLock
  | TakeReset
  | Turn "'a event"

text \<open>\<^verbatim>\<open>startReconfiguration\<close> once it has \<^verbatim>\<open>currentViewMu\<close>, and a message to the timer loop.\<close>

definition startGeneration :: "'a Server \<Rightarrow> 'a Server" where
  "startGeneration s = s\<lparr>generations := generations s @ [(currentView s, getInitialViewSeq s)]\<rparr>"

fun reset_sent :: "'a server_out list \<Rightarrow> nat" where
  "reset_sent [] = 0"
| "reset_sent (ResetReconfigurationTimer # os) = Suc (reset_sent os)"
| "reset_sent (_ # os) = reset_sent os"

definition send_resets :: "nat \<Rightarrow> 'a TimedServer \<Rightarrow> 'a TimedServer" where
  "send_resets n st = (if n = 0 then st else st\<lparr>resets := resets st + n, underWay := False\<rparr>)"

fun timer_step :: "'a timed_event \<Rightarrow> 'a TimedServer \<Rightarrow> 'a server_out list \<times> 'a TimedServer" where
  "timer_step (Elapse d) st = ([], st\<lparr>clock := clock st + int d\<rparr>)"
| "timer_step Fire st =
     (case timer st of None \<Rightarrow> ([], st)
      | Some t \<Rightarrow> if clock st < t then ([], st)
          else ([], st\<lparr>timer := None, checks := checks st + 1\<rparr>))"
| "timer_step CheckUpdates st =
     (if checks st = 0 then ([], st)
      else let st1 = st\<lparr>checks := checks st - 1\<rparr> in
        if \<not> hasUpdatesToCurrentView (srv st) then ([], send_resets 1 st1)
        else ([], st1\<lparr>startsWaiting := startsWaiting st + 1\<rparr>))"
| "timer_step TakeViewLock st =
     (if startsWaiting st = 0 \<or> installPhase (srv st) \<noteq> Receiving then ([], st)
      else ([], st\<lparr>startsWaiting := startsWaiting st - 1, srv := startGeneration (srv st), underWay := True\<rparr>))"
| "timer_step TakeReset st =
     (if resets st = 0 then ([], st)
      else ([], st\<lparr>resets := resets st - 1, timer := Some (clock st + reconfigurationPeriod)\<rparr>))"
| "timer_step (Turn e) st =
     (case e of TimerFires \<Rightarrow> ([], st)
      | _ \<Rightarrow> (case server_step e (srv st) of (os, s) \<Rightarrow> (os, send_resets (reset_sent os) (st\<lparr>srv := s\<rparr>))))"

definition timed_step :: "'a timed_event \<Rightarrow> 'a TimedServer \<Rightarrow> 'a server_out list \<times> 'a TimedServer" where
  "timed_step e st = (if is_dead (installPhase (srv st)) then ([], st) else timer_step e st)"

fun timed_run :: "'a timed_event list \<Rightarrow> 'a TimedServer \<Rightarrow> 'a server_out list \<times> 'a TimedServer" where
  "timed_run [] st = ([], st)"
| "timed_run (e # es) st =
     (case timed_step e st of (o1, st1) \<Rightarrow>
      case timed_run es st1 of (o2, st2) \<Rightarrow> (o1 @ o2, st2))"

lemma timed_run_snd [simp]:
  "snd (timed_run (e # es) st) = snd (timed_run es (snd (timed_step e st)))"
  "fst (timed_run (e # es) st) = fst (timed_step e st) @ fst (timed_run es (snd (timed_step e st)))"
  by (simp_all add: case_prod_beta)

lemma timed_run_append:
  "snd (timed_run (xs @ ys) st) = snd (timed_run ys (snd (timed_run xs st)))"
  by (induction xs arbitrary: st) (simp_all del: timed_run.simps(2))

declare timed_run.simps(2) [simp del]

section \<open>The timer is not lost while nothing is under way\<close>

definition timer_inv :: "'a TimedServer \<Rightarrow> bool" where
  "timer_inv st \<longleftrightarrow> server_inv (srv st) \<and>
     (\<forall>t. timer st = Some t \<longrightarrow> t \<le> clock st + reconfigurationPeriod) \<and>
     (timer st = None \<and> resets st = 0 \<and> checks st = 0 \<and> startsWaiting st = 0 \<longrightarrow> underWay st)"

fun good_timed :: "'a timed_event \<Rightarrow> bool" where
  "good_timed (Turn e) = good_event e"
| "good_timed _ = True"

lemma startGeneration_inv: "server_inv s \<Longrightarrow> server_inv (startGeneration s)"
  using generation_ok_initial [of s]
  by (simp add: startGeneration_def server_inv_def chan_inv_def)

lemma send_resets_inv: "timer_inv st \<Longrightarrow> timer_inv (send_resets n st)"
  by (simp add: timer_inv_def send_resets_def)

lemma timer_inv_srv: "timer_inv st \<Longrightarrow> server_inv s \<Longrightarrow> timer_inv (st\<lparr>srv := s\<rparr>)"
  by (simp add: timer_inv_def)

lemma turn_inv:
  assumes "timer_inv st" "good_event e"
  shows "timer_inv (snd (timer_step (Turn e) st))"
proof (cases "e = TimerFires")
  case True
  with assms show ?thesis by simp
next
  case False
  then have "snd (timer_step (Turn e) st) =
      send_resets (reset_sent (fst (server_step e (srv st)))) (st\<lparr>srv := snd (server_step e (srv st))\<rparr>)"
    by (cases e) (simp_all add: case_prod_beta)
  moreover have "server_inv (snd (server_step e (srv st)))"
    using server_run_inv [of "srv st" "[e]"] assms by (simp add: timer_inv_def)
  ultimately show ?thesis using assms(1) by (simp add: send_resets_inv timer_inv_srv)
qed

lemma timed_step_inv:
  assumes "timer_inv st" "good_timed e"
  shows "timer_inv (snd (timed_step e st))"
proof (cases e)
  case (Turn ev)
  with turn_inv [of st ev] assms show ?thesis by (simp add: timed_step_def)
qed (use assms startGeneration_inv [of "srv st"] in \<open>auto simp: timed_step_def timer_inv_def send_resets_def
    reconfigurationPeriod_def Let_def split: option.splits\<close>)

lemma timed_run_inv:
  "timer_inv st \<Longrightarrow> \<forall>e \<in> set es. good_timed e \<Longrightarrow> timer_inv (snd (timed_run es st))"
  by (induction es arbitrary: st) (simp_all add: timed_step_inv)

lemma startTimerLoop_inv: "server_inv s \<Longrightarrow> timer_inv (startTimerLoop now s)"
  by (simp add: timer_inv_def startTimerLoop_def firstReconfigurationTimerDuration_def
      reconfigurationPeriod_def)

text \<open>One round of the timer: a message is taken, a period passes, and the goroutine runs.\<close>

definition timer_round :: "'a timed_event list" where
  "timer_round = [TakeReset, Elapse (nat reconfigurationPeriod), Fire, CheckUpdates, TakeViewLock]"

lemma period_pos [simp]: "0 \<le> reconfigurationPeriod"
  by (simp add: reconfigurationPeriod_def)

text \<open>Something is on its way to \<^verbatim>\<open>startReconfiguration\<close> and due now.\<close>

definition due :: "'a TimedServer \<Rightarrow> bool" where
  "due st \<longleftrightarrow> (\<exists>t. timer st = Some t \<and> t \<le> clock st) \<or> checks st \<noteq> 0 \<or> startsWaiting st \<noteq> 0"

lemma wait_due:
  assumes "timer_inv st" "\<not> underWay st" "installPhase (srv st) = Receiving"
    and "st1 = snd (timed_run [TakeReset, Elapse (nat reconfigurationPeriod)] st)"
  shows "due st1 \<and> srv st1 = srv st"
proof (cases "resets st = 0")
  case True
  with assms have "st1 = st\<lparr>clock := clock st + reconfigurationPeriod\<rparr>"
    by (simp add: timed_step_def)
  with True assms(1,2) show ?thesis by (auto simp: timer_inv_def due_def)
next
  case False
  with assms have "st1 = st\<lparr>resets := resets st - 1, timer := Some (clock st + reconfigurationPeriod),
      clock := clock st + reconfigurationPeriod\<rparr>"
    by (simp add: timed_step_def)
  then show ?thesis by (simp add: due_def)
qed

lemma check_starts:
  assumes "due st" "hasUpdatesToCurrentView (srv st)" "installPhase (srv st) = Receiving"
    and "st1 = snd (timed_run [Fire, CheckUpdates] st)"
  shows "startsWaiting st1 \<noteq> 0 \<and> srv st1 = srv st"
proof -
  obtain st2 where st2: "st2 = snd (timed_step Fire st)" by simp
  have fired: "(checks st2 \<noteq> 0 \<or> startsWaiting st2 \<noteq> 0) \<and> srv st2 = srv st"
    using assms(1,3) unfolding st2 by (auto simp: timed_step_def due_def split: option.split)
  have "st1 = snd (timed_step CheckUpdates st2)" using assms(4) by (simp add: st2)
  then show ?thesis using fired assms(2,3) by (auto simp: timed_step_def Let_def)
qed

lemma timer_round_starts:
  assumes "timer_inv st" "\<not> underWay st" "hasUpdatesToCurrentView (srv st)"
    and "installPhase (srv st) = Receiving"
  shows "srv (snd (timed_run timer_round st)) = startGeneration (srv st)"
proof -
  obtain st1 where st1: "st1 = snd (timed_run [TakeReset, Elapse (nat reconfigurationPeriod)] st)" by simp
  obtain st2 where st2: "st2 = snd (timed_run [Fire, CheckUpdates] st1)" by simp
  have "snd (timed_run timer_round st) = snd (timed_step TakeViewLock st2)"
    by (simp add: timer_round_def st1 st2)
  then show ?thesis
    using wait_due [OF assms(1,2,4) st1] check_starts [OF _ _ _ st2] assms(3,4) by (simp add: timed_step_def)
qed

text \<open>Both halves of the goroutine in one go are the event of \<open>Reconfiguration\<close>.\<close>

lemma timer_goroutine_is_startReconfiguration:
  assumes "checks st = 1" "startsWaiting st = 0" "installPhase (srv st) = Receiving"
  shows "srv (snd (timed_run [CheckUpdates, TakeViewLock] st)) = snd (startReconfiguration (srv st))"
  using assms by (simp add: timed_step_def startReconfiguration_def startGeneration_def send_resets_def Let_def)

lemma reset_sent_append [simp]: "reset_sent (xs @ ys) = reset_sent xs + reset_sent ys"
  by (induction xs rule: reset_sent.induct) simp_all

text \<open>Turns that send nothing to the timer are turns of the server.\<close>

lemma timed_turns:
  assumes "TimerFires \<notin> set es" "reset_sent (fst (server_run es (srv st))) = 0"
  shows "snd (timed_run (map Turn es) st) = st\<lparr>srv := snd (server_run es (srv st))\<rparr>"
  using assms
proof (induction es arbitrary: st)
  case (Cons e es)
  have "timed_step (Turn e) st = (fst (server_step e (srv st)), st\<lparr>srv := snd (server_step e (srv st))\<rparr>)"
  proof (cases "is_dead (installPhase (srv st))")
    case True
    then show ?thesis by (simp add: timed_step_def server_step_def)
  next
    case False
    with Cons.prems show ?thesis
      by (cases e) (simp_all add: timed_step_def send_resets_def case_prod_beta)
  qed
  with Cons show ?case by simp
qed simp

section \<open>The timer of a server on its own\<close>

text \<open>What a server does and is asked without any message of another server.\<close>

fun own_event :: "'a timed_event \<Rightarrow> bool" where
  "own_event (Turn (InstallSeqReq m)) = False"
| "own_event (Turn (StateUpdateReq m)) = False"
| "own_event (Turn (ViewInstalledReq m)) = False"
| "own_event (Turn (ProposeSeqViewReq m)) = False"
| "own_event (Turn (SeqConvReq m)) = False"
| "own_event (Turn (ConsensusDecided av d)) = False"
| "own_event _ = True"

text \<open>Nothing is left that could start or continue a reconfiguration.\<close>

definition at_rest :: "'a Server \<Rightarrow> bool" where
  "at_rest s \<longleftrightarrow> installPhase s = Receiving \<and> generations s = [] \<and> generatedViewSeqChan s = [] \<and>
     installSeqProcessingChan s = [] \<and> syncStateMsgChan s = [] \<and>
     (\<forall>g \<in> set (viewGenerators s). jobChan g = [])"

definition stalled :: "'a TimedServer \<Rightarrow> bool" where
  "stalled st \<longleftrightarrow> at_rest (srv st) \<and> timer st = None \<and> resets st = 0 \<and> checks st = 0 \<and> startsWaiting st = 0"

fun generator_sends :: "'a server_out \<Rightarrow> bool" where
  "generator_sends (GeneratorSends x) = True"
| "generator_sends _ = False"

lemma hold_view_rest [simp]: "at_rest (hold_view r s) = at_rest s" "recv (hold_view r s) = recv s"
  by (simp_all add: hold_view_def at_rest_def split: rpc.split)

lemma rest_step:
  assumes "at_rest s" "own_event (Turn e)" "e \<noteq> TimerFires"
  shows "at_rest (snd (server_step e s)) \<and> recv s \<subseteq> recv (snd (server_step e s)) \<and>
    reset_sent (fst (server_step e s)) = 0 \<and> (\<forall>x \<in> set (fst (server_step e s)). \<not> generator_sends x)"
proof (cases e)
  case (WriteReq v)
  then show ?thesis
    using assms(1) by (auto simp: server_step_def RegisterService_Write_def at_rest_def hold_view_def
        Let_def split: prod.splits rpc.split)
next
  case (ReconfigReq m)
  then show ?thesis using assms(1) by (auto simp: server_step_def Reconfig_def at_rest_def)
next
  case (RunWorker i)
  have "jobChan (viewGenerators s ! i) = []" if "i < length (viewGenerators s)"
    using assms(1) that by (simp add: at_rest_def)
  with RunWorker show ?thesis using assms(1) by (simp add: server_step_def runWorker_def at_rest_def)
qed (use assms in \<open>simp_all add: server_step_def at_rest_def[of s] runGeneration_def AdminService_Leave_def leave_def
      generatedViewSeqProcessing_def installSeqProcessing_def stateUpdateProcessing_def syncStateReady_def
      viewInstalledProcessing_def Let_def\<close>)

lemma stalled_step:
  assumes "stalled st" "own_event e"
  shows "stalled (snd (timed_step e st)) \<and> recv (srv st) \<subseteq> recv (srv (snd (timed_step e st))) \<and>
    (\<forall>x \<in> set (fst (timed_step e st)). \<not> generator_sends x)"
proof (cases e)
  case (Turn ev)
  show ?thesis
  proof (cases "ev = TimerFires")
    case True
    with Turn assms show ?thesis by (simp add: timed_step_def)
  next
    case False
    have rest: "at_rest (srv st)" using assms(1) by (simp add: stalled_def)
    then have "timed_step e st = (fst (server_step ev (srv st)),
        send_resets (reset_sent (fst (server_step ev (srv st)))) (st\<lparr>srv := snd (server_step ev (srv st))\<rparr>))"
      using False Turn by (cases ev) (simp_all add: timed_step_def at_rest_def case_prod_beta)
    then show ?thesis
      using rest_step [OF rest, of ev] assms False Turn by (simp add: stalled_def send_resets_def)
  qed
qed (use assms in \<open>simp_all add: timed_step_def stalled_def at_rest_def\<close>)

lemma stalled_run:
  assumes "stalled st" "\<forall>e \<in> set es. own_event e"
  shows "stalled (snd (timed_run es st)) \<and> recv (srv st) \<subseteq> recv (srv (snd (timed_run es st))) \<and>
    (\<forall>x \<in> set (fst (timed_run es st)). \<not> generator_sends x)"
  using assms
proof (induction es arbitrary: st)
  case (Cons e es)
  then have one: "stalled (snd (timed_step e st)) \<and> recv (srv st) \<subseteq> recv (srv (snd (timed_step e st))) \<and>
      (\<forall>x \<in> set (fst (timed_step e st)). \<not> generator_sends x)" by (intro stalled_step) simp_all
  with Cons.IH [of "snd (timed_step e st)"] Cons.prems(2) show ?case by auto
qed simp

text \<open>
  A member is asked to add process 6 and its timer starts a reconfiguration, but the sequence
  that a quorum installs starts at the current view.
\<close>

definition stall_isq :: InstallSeq where
  "stall_isq = \<lparr>is_InstallView = ey_av, is_ViewSeq = [ey_a, ey_av], is_AssociatedView = ey_av\<rparr>"

definition stall_request :: "'a timed_event list" where
  "stall_request = [Turn (ReconfigReq \<lparr>rm_Update = Update Join (Process ''6''), rm_AssociatedView = ey_av\<rparr>),
     Elapse 10000000000, Fire, CheckUpdates, TakeViewLock, Turn RunGeneration]"

definition stall_install :: "'a event list" where
  "stall_install = [InstallSeqReq \<lparr>ism_Sender = m2, ism_InstallSeq = stall_isq\<rparr>, TakeInstallSeq,
     InstallSeqReq \<lparr>ism_Sender = m3, ism_InstallSeq = stall_isq\<rparr>, TakeInstallSeq, RunGeneration]"

lemma ey_update: "NewCopyWithUpdates ey_av (range_keys {Update Join (Process ''6'')}) = ey_a"
  by (intro wf_view_eqI) (auto simp: ey_av_def ey_a_def NewWithProcesses_eq)

definition stall_worker :: Worker where
  "stall_worker = snd (startWorker m1 ey_av [ey_a])"

lemma stall_startWorker:
  "\<exists>m. startWorker m1 ey_av [ey_a] = ([BroadcastViewSequence ey_av m], stall_worker)"
  unfolding stall_worker_def
  by (simp add: startWorker_def countViewSeq_def viewSeqQuorumCounter_count_def count_by_def ey_members
      empty_counter_def case_prod_beta Let_def)

lemma stall_requested:
  "snd (timed_run stall_request (startTimerLoop 0 (initServer ''1'' ey_av :: 'a Server))) =
    \<lparr>srv = (initServer ''1'' ey_av)\<lparr>recv := {Update Join (Process ''6'')},
        viewGenerators := [\<lparr>vgi_AssociatedView = ey_av, jobChan = [], vgi_worker = stall_worker\<rparr>]\<rparr>,
     clock = 10000000000, timer = None, resets = 0, checks = 0, startsWaiting = 0, underWay = True\<rparr>"
proof -
  let ?u = "Update Join (Process ''6'')"
  obtain m where w: "startWorker m1 ey_av [ey_a] = ([BroadcastViewSequence ey_av m], stall_worker)"
    using stall_startWorker by blast
  have "\<not> HasUpdate ey_av ?u" by (auto simp: HasUpdate_def ey_av_def NewWithProcesses_eq)
  moreover have "getInitialViewSeq ((initServer ''1'' ey_av)\<lparr>recv := {?u}\<rparr> :: 'a Server) = [ey_a]"
    by (simp add: getInitialViewSeq_eq ey_update)
  moreover have "assertOnlyUpdatedViews ey_av [ey_a]" using ey_tables(2) by (simp del: LessUpdatedThan_wf_iff)
  ultimately show ?thesis
    using w ey_tables(6)
    by (simp add: stall_request_def timed_step_def startTimerLoop_def server_step_def Reconfig_def Let_def
        firstReconfigurationTimerDuration_def hasUpdatesToCurrentView_def startGeneration_def runGeneration_def
        generateViewSequenceWithoutConsensus_def getOrCreateViewGenerator_def emit_worker_eq send_resets_def
        del: assertOnlyUpdatedViews.simps View_Equal_wf_iff)
qed

lemma stall_isq_simps [simp]:
  "is_InstallView stall_isq = ey_av" "is_AssociatedView stall_isq = ey_av" "is_ViewSeq stall_isq = [ey_a, ey_av]"
  by (simp_all add: stall_isq_def)

lemma stall_isq_equal [simp]: "InstallSeq_Equal stall_isq stall_isq"
  using ey_tables by (simp add: InstallSeq_Equal_def ViewSeq_Equal_def del: View_Equal_wf_iff)

lemma no_reset [simp]: "reset_sent (fst (gotInstallSeqQuorum isq s)) = 0"
  by (simp add: gotInstallSeqQuorum_def Let_def)

lemma no_reset_sends [simp]: "reset_sent (map GeneratorSends xs) = 0"
  by (induction xs) simp_all

lemma no_reset_generation [simp]: "reset_sent (fst (runGeneration s)) = 0"
  by (simp add: runGeneration_def generateViewSequenceWithConsensus_def generateViewSequenceWithoutConsensus_def
      getOrCreateViewGenerator_def emit_worker_eq Let_def split: list.split option.split prod.split)

lemma resets_of_parts:
  assumes "snd (server_run xs s) = s1" "snd (server_run ys s1) = s2"
  shows "snd (server_run (xs @ ys @ zs) s) = snd (server_run zs s2) \<and>
    reset_sent (fst (server_run (xs @ ys @ zs) s)) =
      reset_sent (fst (server_run xs s)) + reset_sent (fst (server_run ys s1)) + reset_sent (fst (server_run zs s2))"
  using assms by (simp add: server_run_append)

lemma stall_installed:
  assumes "installPhase s = Receiving" "installSeqProcessingChan s = []" "viewReaders s = 0" "generations s = []"
    "\<not> useConsensus s" "currentView s = ey_av" "find_generator ey_av 0 (viewGenerators s) = Some i"
    "processToInstallSeqMsgMap s = (\<lambda>_. None)" "installSeqQuorumCounter s = empty_counter"
  shows "\<exists>pm c. snd (server_run stall_install s) = s\<lparr>installSeqProcessingChan := [],
      processToInstallSeqMsgMap := pm, installSeqQuorumCounter := c\<rparr> \<and>
    reset_sent (fst (server_run stall_install s)) = 0"
proof -
  let ?msg = "\<lambda>p. \<lparr>ism_Sender = p, ism_InstallSeq = stall_isq\<rparr>"
  let ?s1 = "s\<lparr>installSeqProcessingChan := [], processToInstallSeqMsgMap := [m2 \<mapsto> ?msg m2],
    installSeqQuorumCounter := \<lparr>qc_list = [stall_isq], qc_counter = [1]\<rparr>\<rparr>"
  let ?s2 = "?s1\<lparr>processToInstallSeqMsgMap := [m2 \<mapsto> ?msg m2, m3 \<mapsto> ?msg m3],
    installSeqQuorumCounter := \<lparr>qc_list = [stall_isq], qc_counter = [Suc (Suc 0)]\<rparr>\<rparr>"
  have first: "snd (server_run [InstallSeqReq (?msg m2), TakeInstallSeq] s) = ?s1 \<and>
      reset_sent (fst (server_run [InstallSeqReq (?msg m2), TakeInstallSeq] s)) = 0"
    using assms by (simp add: server_step_def InstallSeqRequest_def installSeqProcessing_def Let_def
        installSeqQuorumCounter_count_def count_by_def empty_counter_def ey_members)
  have second: "snd (server_run [InstallSeqReq (?msg m3), TakeInstallSeq] ?s1) = snd (gotInstallSeqQuorum stall_isq ?s2) \<and>
      reset_sent (fst (server_run [InstallSeqReq (?msg m3), TakeInstallSeq] ?s1)) = 0"
    using assms by (simp add: server_step_def InstallSeqRequest_def installSeqProcessing_def Let_def
        installSeqQuorumCounter_count_def count_by_def ey_members case_prod_beta)
  have third: "snd (server_run [RunGeneration] (snd (gotInstallSeqQuorum stall_isq ?s2))) = ?s2 \<and>
      reset_sent (fst (server_run [RunGeneration] (snd (gotInstallSeqQuorum stall_isq ?s2)))) = 0"
    unfolding stall_isq_def by (rule conjI [OF stalled_install]) (use assms in \<open>simp_all add: server_step_def\<close>)
  show ?thesis
    using resets_of_parts [OF conjunct1 [OF first] conjunct1 [OF second], of "[RunGeneration]"] first second third
    by (intro exI [of _ "[m2 \<mapsto> ?msg m2, m3 \<mapsto> ?msg m3]"]
        exI [of _ "\<lparr>qc_list = [stall_isq], qc_counter = [Suc (Suc 0)]\<rparr>"]) (simp add: stall_install_def del: server_run_Cons)
qed

section \<open>A lost timer comes back only with a newer view\<close>

definition timer_lost :: "'a TimedServer \<Rightarrow> bool" where
  "timer_lost st \<longleftrightarrow> timer st = None \<and> resets st = 0 \<and> checks st = 0 \<and> startsWaiting st = 0"

lemma generator_requests_reset:
  "reset_sent (fst (ProposeSeqView m s)) = 0 \<and> recv (snd (ProposeSeqView m s)) = recv s"
  "reset_sent (fst (SeqConvRequest c s)) = 0 \<and> recv (snd (SeqConvRequest c s)) = recv s"
  by (simp_all add: ProposeSeqView_def SeqConvRequest_def add_job_def getOrCreateViewGenerator_def emit_worker_eq
      Let_def split: option.split prod.split)

lemma runGeneration_recv: "recv (snd (runGeneration s)) = recv s"
  by (simp add: runGeneration_def generateViewSequenceWithConsensus_def generateViewSequenceWithoutConsensus_def
      getOrCreateViewGenerator_def emit_worker_eq Let_def split: list.split option.split prod.split)

lemma gotInstallSeqQuorum_recv: "recv (snd (gotInstallSeqQuorum isq s)) = recv s"
  by (simp add: gotInstallSeqQuorum_def afterStateSent_def installOthersViewsFromViewSeqLocked_def Let_def)

lemma installSeqProcessing_reset:
  "reset_sent (fst (installSeqProcessing s)) = 0 \<and> recv (snd (installSeqProcessing s)) = recv s"
  by (simp add: installSeqProcessing_def gotInstallSeqQuorum_recv case_prod_beta Let_def split: list.split option.split)

lemma no_reset_step:
  assumes "e \<noteq> StateReady" "e \<noteq> TimerFires"
  shows "reset_sent (fst (live_step e s)) = 0 \<and> recv s \<subseteq> recv (snd (live_step e s))"
proof (cases e)
  case (ReconfigReq m)
  then show ?thesis by (auto simp: Reconfig_def)
qed (use assms in \<open>simp_all add: generator_requests_reset runGeneration_recv installSeqProcessing_reset
      hold_view_def RegisterService_Write_def InstallSeqRequest_def StateUpdate_def ViewInstalled_def
      AdminService_Leave_def leave_def runWorker_def emit_worker_eq consensusDecided_def
      generatedViewSeqProcessing_def stateUpdateProcessing_def viewInstalledProcessing_def Let_def case_prod_beta
      split: rpc.split list.split option.split installPhase.split\<close>)

lemma reset_only_with_newer_view:
  assumes "server_inv s" "e \<noteq> TimerFires"
  shows "reset_sent (fst (server_step e s)) = 0 \<and> recv s \<subseteq> recv (snd (server_step e s)) \<or>
    Entries (currentView s) \<subset> Entries (currentView (snd (server_step e s)))"
proof (cases "e = StateReady")
  case True
  then show ?thesis using syncStateReady_grows [OF assms(1)] by (auto simp: server_step_def)
next
  case False
  then show ?thesis using no_reset_step [OF False assms(2), of s] by (auto simp: server_step_def)
qed

lemma timed_step_view:
  "timer_inv st \<Longrightarrow> Entries (currentView (srv st)) \<subseteq> Entries (currentView (srv (snd (timed_step e st))))"
proof (cases e)
  case (Turn ev)
  assume "timer_inv st"
  then show ?thesis
    using Turn server_step_view [of "srv st" ev]
    by (cases ev) (auto simp: timed_step_def send_resets_def timer_inv_def case_prod_beta)
qed (auto simp: timed_step_def send_resets_def startGeneration_def Let_def split: option.split)

lemma timed_run_view:
  assumes "timer_inv st" "\<forall>e \<in> set es. good_timed e"
  shows "Entries (currentView (srv st)) \<subseteq> Entries (currentView (srv (snd (timed_run es st))))"
  using assms
proof (induction es arbitrary: st)
  case (Cons e es)
  then have "timer_inv (snd (timed_step e st))" by (simp add: timed_step_inv)
  with Cons timed_step_view [of st e] show ?case by fastforce
qed simp

lemma timer_lost_step:
  assumes "timer_inv st" "timer_lost st"
  shows "timer_lost (snd (timed_step e st)) \<and> recv (srv st) \<subseteq> recv (srv (snd (timed_step e st))) \<or>
     Entries (currentView (srv st)) \<subset> Entries (currentView (srv (snd (timed_step e st))))"
proof (cases e)
  case (Turn ev)
  have inv: "server_inv (srv st)" using assms(1) by (simp add: timer_inv_def)
  show ?thesis
  proof (cases "ev = TimerFires \<or> is_dead (installPhase (srv st))")
    case False
    then have "snd (timed_step e st) =
        send_resets (reset_sent (fst (server_step ev (srv st)))) (st\<lparr>srv := snd (server_step ev (srv st))\<rparr>)"
      using Turn by (cases ev) (simp_all add: timed_step_def case_prod_beta)
    with reset_only_with_newer_view [OF inv, of ev] assms(2) False show ?thesis
      by (auto simp: send_resets_def timer_lost_def)
  qed (use Turn assms(2) in \<open>auto simp: timed_step_def\<close>)
qed (use assms(2) in \<open>auto simp: timed_step_def timer_lost_def\<close>)

lemma timer_lost_run:
  assumes "timer_inv st" "timer_lost st" "\<forall>e \<in> set es. good_timed e"
    and "Entries (currentView (srv (snd (timed_run es st)))) \<subseteq> Entries (currentView (srv st))"
  shows "timer_lost (snd (timed_run es st)) \<and> recv (srv st) \<subseteq> recv (srv (snd (timed_run es st)))"
  using assms
proof (induction es arbitrary: st)
  case (Cons e es)
  have inv: "timer_inv (snd (timed_step e st))" using Cons.prems by (simp add: timed_step_inv)
  have later: "Entries (currentView (srv (snd (timed_step e st)))) \<subseteq> Entries (currentView (srv st))"
    using timed_run_view [OF inv, of es] Cons.prems by auto
  then have one: "timer_lost (snd (timed_step e st))" "recv (srv st) \<subseteq> recv (srv (snd (timed_step e st)))"
    using timer_lost_step [OF Cons.prems(1,2), of e] by auto
  have "Entries (currentView (srv (snd (timed_run es (snd (timed_step e st)))))) \<subseteq>
      Entries (currentView (srv (snd (timed_step e st))))"
    using Cons.prems(4) timed_step_view [OF Cons.prems(1), of e] by auto
  with Cons.IH [OF inv one(1)] Cons.prems(3) one(2) show ?case by auto
qed simp

text \<open>The state after the installation that leads nowhere.\<close>

lemma stall_state:
  assumes "st = snd (timed_run (stall_request @ map Turn stall_install)
      (startTimerLoop 0 (initServer ''1'' ey_av :: 'a Server)))"
  shows "stalled st" "Update Join (Process ''6'') \<in> recv (srv st)" "currentView (srv st) = ey_av" "timer_inv st"
proof -
  let ?s = "(initServer ''1'' ey_av :: 'a Server)\<lparr>recv := {Update Join (Process ''6'')},
        viewGenerators := [\<lparr>vgi_AssociatedView = ey_av, jobChan = [], vgi_worker = stall_worker\<rparr>]\<rparr>"
  let ?st1 = "snd (timed_run stall_request (startTimerLoop 0 (initServer ''1'' ey_av :: 'a Server)))"
  have "find_generator ey_av 0 (viewGenerators ?s) = Some 0" using ey_tables(6) by (simp del: View_Equal_wf_iff)
  then obtain pm c where installed: "snd (server_run stall_install ?s) = ?s\<lparr>installSeqProcessingChan := [],
      processToInstallSeqMsgMap := pm, installSeqQuorumCounter := c\<rparr>"
    "reset_sent (fst (server_run stall_install ?s)) = 0"
    using stall_installed [of ?s 0] by auto
  have "srv ?st1 = ?s" by (simp add: stall_requested)
  moreover have "TimerFires \<notin> set (stall_install :: 'a event list)" by (simp add: stall_install_def)
  ultimately have st: "st = ?st1\<lparr>srv := snd (server_run stall_install ?s)\<rparr>"
    using timed_turns [of stall_install ?st1] installed(2) assms by (simp add: timed_run_append)
  then show "stalled st" "Update Join (Process ''6'') \<in> recv (srv st)" "currentView (srv st) = ey_av"
    by (simp_all add: stalled_def at_rest_def stall_requested installed)
  have "good_isq stall_isq"
    using ey_wf ey_tables by (simp add: good_isq_def good_seq_def chain_seq_def)
  then have "\<forall>e \<in> set (stall_request @ map Turn stall_install). good_timed (e :: 'a timed_event)"
    by (simp add: stall_request_def stall_install_def)
  then show "timer_inv st"
    unfolding assms by (intro timed_run_inv startTimerLoop_inv initServer_inv ey_wf(1))
qed

lemma timed_same_view:
  assumes "Turn StateReady \<notin> set es"
  shows "currentView (srv (snd (timed_run es st))) = currentView (srv st)"
  using assms
proof (induction es arbitrary: st)
  case (Cons e es)
  have "currentView (srv (snd (timed_step e st))) = currentView (srv st)"
  proof (cases e)
    case (Turn ev)
    then have "ev \<noteq> StateReady" using Cons.prems by auto
    from live_step_frame [OF this, of "srv st"] Turn show ?thesis
      by (cases ev) (simp_all add: timed_step_def server_step_def send_resets_def case_prod_beta)
  qed (auto simp: timed_step_def send_resets_def startGeneration_def Let_def split: option.split)
  with Cons show ?case by simp
qed simp

section \<open>Properties\<close>

text \<open>C21: The timer is never lost between reconfigurations: in every run of a server in which no
  reconfiguration that it started is under way, the timer is set to a time at most one period
  ahead, or something is on its way to set it or to start a reconfiguration. If updates wait,
  one more round of the timer, which takes one period, starts the generation of a view that
  is strictly more updated than the current one and has exactly the pending updates in
  addition.\<close>

theorem pending_updates_start_reconfiguration:
  assumes "NewServer (Some addr) g v c = Created out s" "wf_view v" "\<forall>e \<in> set es. good_timed e"
    and "snd (timed_run es (startTimerLoop now s)) = st" "\<not> underWay st"
  shows "(resets st = 0 \<and> checks st = 0 \<and> startsWaiting st = 0 \<longrightarrow>
      (\<exists>t. timer st = Some t \<and> t \<le> clock st + reconfigurationPeriod)) \<and>
    (recv (srv st) \<noteq> {} \<and> installPhase (srv st) = Receiving \<longrightarrow>
      (\<exists>w. generations (srv (snd (timed_run timer_round st))) =
          generations (srv st) @ [(currentView (srv st), [w])] \<and>
        MoreUpdatedThan w (currentView (srv st)) \<and> Entries w = Entries (currentView (srv st)) \<union> recv (srv st)))"
proof -
  have inv: "timer_inv st"
    using timed_run_inv [OF startTimerLoop_inv [OF NewServer_inv [OF assms(1,2)]] assms(3)] assms(4) by blast
  have "\<exists>w. generations (srv (snd (timed_run timer_round st))) =
          generations (srv st) @ [(currentView (srv st), [w])] \<and>
        MoreUpdatedThan w (currentView (srv st)) \<and> Entries w = Entries (currentView (srv st)) \<union> recv (srv st)"
    if pending: "recv (srv st) \<noteq> {}" "installPhase (srv st) = Receiving"
  proof -
    have core: "wf_view (currentView (srv st))" "finite (recv (srv st))"
      "recv (srv st) \<inter> Entries (currentView (srv st)) = {}"
      using inv by (simp_all add: timer_inv_def server_inv_def core_inv_def)
    then have "hasUpdatesToCurrentView (srv st)" using pending by (simp add: hasUpdatesToCurrentView_def)
    with timer_round_starts [OF inv assms(5) _ pending(2)] core pending(1) show ?thesis
      by (auto simp: startGeneration_def getInitialViewSeq_eq)
  qed
  moreover have "\<exists>t. timer st = Some t \<and> t \<le> clock st + reconfigurationPeriod"
    if "resets st = 0" "checks st = 0" "startsWaiting st = 0"
    using inv that assms(5) by (auto simp: timer_inv_def)
  ultimately show ?thesis by blast
qed

theorem pending_updates_start_reconfiguration_witness:
  "\<exists>w. generations (srv (snd (timed_run timer_round (snd (timed_run
      [Turn (ReconfigReq \<lparr>rm_Update = Update Join (Process ''6''), rm_AssociatedView = ey_av\<rparr>)]
      (startTimerLoop 0 (initServer ''1'' ey_av :: nat Server))))))) = [(ey_av, [w])] \<and> MoreUpdatedThan w ey_av"
proof -
  let ?es = "[Turn (ReconfigReq \<lparr>rm_Update = Update Join (Process ''6''), rm_AssociatedView = ey_av\<rparr>)]"
  let ?st = "snd (timed_run ?es (startTimerLoop 0 (initServer ''1'' ey_av :: nat Server)))"
  have new: "NewServer (Some ''1'') False ey_av False = Created [] (initServer ''1'' ey_av :: nat Server)"
    by (simp add: NewServer_def HasMember_def ey_members Let_def)
  have "\<not> HasUpdate ey_av (Update Join (Process ''6''))"
    by (auto simp: HasUpdate_def ey_av_def NewWithProcesses_eq)
  then have "srv ?st = (initServer ''1'' ey_av)\<lparr>recv := {Update Join (Process ''6'')}\<rparr>" "\<not> underWay ?st"
    using ey_tables(6) by (simp_all add: timed_step_def startTimerLoop_def server_step_def Reconfig_def
        send_resets_def del: View_Equal_wf_iff)
  then show ?thesis
    using pending_updates_start_reconfiguration [OF new ey_wf(1), of ?es 0 ?st] by auto
qed

text \<open>C36: A reconfiguration that ends at the current view takes the timer with it. The server was asked
  to add a process, its timer started a reconfiguration, and a quorum installed a sequence that
  starts at the current view. The server is then at rest, the update still pends, and the
  timer is stopped with nothing on its way to set it. Whatever follows, messages of other
  servers included, as long as no newer view is installed here the timer stays stopped, so
  \<^verbatim>\<open>startReconfiguration\<close> does not run again, and the update keeps pending. Without a message
  of another server this server's generators send nothing either; with one they may, since
  the running view generator of the current view still knows the update.\<close>

theorem stalled_reconfiguration_loses_timer:
  assumes "st1 = snd (timed_run (stall_request @ map Turn stall_install)
      (startTimerLoop 0 (initServer ''1'' ey_av :: 'a Server)))"
    and "\<forall>e \<in> set fs. good_timed e" "timed_run fs st1 = (out, st2)" "currentView (srv st2) = ey_av"
  shows "at_rest (srv st1) \<and> currentView (srv st1) = ey_av \<and> timer_lost st1 \<and> timer_lost st2 \<and>
    Update Join (Process ''6'') \<in> recv (srv st1) \<inter> recv (srv st2) \<and>
    ((\<forall>e \<in> set fs. own_event e) \<longrightarrow> (\<forall>x \<in> set out. \<not> generator_sends x))"
proof -
  note st1 = stall_state [OF assms(1)]
  then have lost: "timer_lost st1" "at_rest (srv st1)" by (simp_all add: stalled_def timer_lost_def)
  have st2: "snd (timed_run fs st1) = st2" using assms(3) by simp
  have "timer_lost st2 \<and> recv (srv st1) \<subseteq> recv (srv st2)"
    using timer_lost_run [OF st1(4) lost(1) assms(2)] st1(3) assms(4) unfolding st2 by simp
  moreover have "\<forall>x \<in> set out. \<not> generator_sends x" if "\<forall>e \<in> set fs. own_event e"
    using stalled_run [OF st1(1) that] assms(3) by simp
  ultimately show ?thesis using st1 lost by blast
qed

theorem stalled_reconfiguration_loses_timer_witness:
  "let m = \<lparr>vsm_Sender = m3, vsm_AssociatedView = ey_av, vsm_ProposedSeq = [ey_av], vsm_LastConvergedSeq = []\<rparr>;
       fs = [Turn (ProposeSeqViewReq m), Turn (RunWorker 0), Elapse 600000000000, Fire, CheckUpdates, TakeViewLock, TakeReset]
   in timer (snd (timed_run fs (snd (timed_run (stall_request @ map Turn stall_install)
       (startTimerLoop 0 (initServer ''1'' ey_av :: nat Server)))))) = None"
proof -
  let ?m = "\<lparr>vsm_Sender = m3, vsm_AssociatedView = ey_av, vsm_ProposedSeq = [ey_av], vsm_LastConvergedSeq = []\<rparr>"
  let ?fs = "[Turn (ProposeSeqViewReq ?m), Turn (RunWorker 0), Elapse 600000000000, Fire, CheckUpdates, TakeViewLock, TakeReset]"
  let ?st = "snd (timed_run (stall_request @ map Turn stall_install)
       (startTimerLoop 0 (initServer ''1'' ey_av :: nat Server)))"
  have "currentView (srv (snd (timed_run ?fs ?st))) = ey_av"
    using timed_same_view [of ?fs ?st] stall_state(3) [OF refl, where 'a = nat] by (simp del: timed_run_snd)
  then have "timer_lost (snd (timed_run ?fs ?st))"
    using stalled_reconfiguration_loses_timer [where 'a = nat, OF refl _ prod.collapse [symmetric], of ?fs] ey_wf
    by (simp add: good_msg_def good_seq_def chain_seq_def del: timed_run_snd)
  then show ?thesis by (simp add: timer_lost_def Let_def del: timed_run_snd)
qed

end
