(* ===== verification/Client.thy ===== *)
theory Client
  imports Register
begin

text \<open>
  \<^verbatim>\<open>pkg/client\<close>: the client of the register (\<^verbatim>\<open>client.go\<close>, \<^verbatim>\<open>quorum.go\<close>, \<^verbatim>\<open>view.go\<close>).

  The network is an argument: an attempt of \<^verbatim>\<open>readQuorum\<close> or \<^verbatim>\<open>writeQuorum\<close> is the list of
  replies in the order its channel delivers them, and the calls of \<^verbatim>\<open>getFurtherViewsFunc\<close>
  answer from a list. A loop that has used up its replies is still waiting, which is
  \<open>Waiting\<close> for one attempt and \<open>None\<close> for an operation. The request a loop sends again to
  a process with an old view is answered, if at all, by one more reply of the same list. \<open>read_loop\<close> and \<open>write_loop\<close> are
  the two counting loops; the operations of the client are composed of them as in the code.
\<close>

section \<open>State\<close>

record 'a RegisterMsg =
  msg_Value :: "'a option"
  msg_Timestamp :: int
  msg_ViewRef :: ViewRef
  msg_Err :: "go_error option"
  msg_process :: Process

definition zero_RegisterMsg :: "'a RegisterMsg" where
  "zero_RegisterMsg = \<lparr>msg_Value = None, msg_Timestamp = 0,
     msg_ViewRef = ViewRef (replicate 20 0), msg_Err = None, msg_process = Process ''''\<rparr>"

text \<open>The errors the client's own code makes; \<open>ViewFuncError\<close> is one of a \<^verbatim>\<open>GetViewFunc\<close>.\<close>

datatype client_error =
    DiffResultsErr | FailedReadQuorum | FailedWriteQuorum | ViewFuncError go_error

record Client =
  cl_view :: View
  num2ndPhaseReads :: int
  cl_err :: "client_error option"

text \<open>The results a \<^verbatim>\<open>GetViewFunc\<close> will give, and the replies of the coming attempts.\<close>

record 'a env =
  attempts :: "'a RegisterMsg list list"
  furtherViews :: "(go_error + View) list"

definition NewClient :: "go_error + View \<Rightarrow> client_error + Client" where
  "NewClient initial =
     (case initial of
        Inl err \<Rightarrow> Inl (ViewFuncError err)
      | Inr initialView \<Rightarrow> Inr \<lparr>cl_view = initialView, num2ndPhaseReads = 0, cl_err = None\<rparr>)"

section \<open>Quorum loops\<close>

datatype ('a) read_outcome =
    ReadNewerView View | ReadSystemFailed | ReadDone "'a RegisterMsg" bool | ReadWaiting

fun all_same_timestamp :: "'a RegisterMsg \<Rightarrow> 'a RegisterMsg list \<Rightarrow> bool" where
  "all_same_timestamp final [] = True"
| "all_same_timestamp final (val # vals) =
     (if msg_Timestamp final \<noteq> msg_Timestamp val then False
      else all_same_timestamp final vals)"

text \<open>The checks at the end of the loop's body; \<open>None\<close> goes on with the loop.\<close>

definition read_check ::
    "View \<Rightarrow> nat \<Rightarrow> 'a RegisterMsg list \<Rightarrow> 'a RegisterMsg \<Rightarrow> 'a read_outcome option" where
  "read_check destinationView failedTotal resultArray final =
     (let everyProcessReturned = (length resultArray + failedTotal = NumberOfMembers destinationView);
          systemFailed = (everyProcessReturned \<and>
            int failedTotal > NumberOfToleratedFaults destinationView)
      in if systemFailed then Some ReadSystemFailed
         else if length resultArray = QuorumSize destinationView
           then Some (ReadDone final (all_same_timestamp final resultArray))
         else None)"

fun read_loop ::
    "View \<Rightarrow> nat \<Rightarrow> 'a RegisterMsg list \<Rightarrow> 'a RegisterMsg \<Rightarrow> 'a RegisterMsg list \<Rightarrow> 'a read_outcome" where
  "read_loop destinationView failedTotal resultArray final [] = ReadWaiting"
| "read_loop destinationView failedTotal resultArray final (receivedValue # replies) =
     (case msg_Err receivedValue of
        Some (OldViewError newV) \<Rightarrow>
          if MoreUpdatedThan newV destinationView then ReadNewerView newV
          else read_loop destinationView failedTotal resultArray final replies
      | Some (ErrorString e) \<Rightarrow>
          (let failedTotal1 = failedTotal + 1 in
           case read_check destinationView failedTotal1 resultArray final of
             Some r \<Rightarrow> r
           | None \<Rightarrow> read_loop destinationView failedTotal1 resultArray final replies)
      | None \<Rightarrow>
          (let resultArray1 = resultArray @ [receivedValue];
               final1 = (if msg_Timestamp receivedValue > msg_Timestamp final
                              then receivedValue else final) in
           case read_check destinationView failedTotal resultArray1 final1 of
             Some r \<Rightarrow> r
           | None \<Rightarrow> read_loop destinationView failedTotal resultArray1 final1 replies))"

datatype write_outcome = WriteNewerView View | WriteSystemFailed | WriteDone | WriteWaiting

definition write_check :: "View \<Rightarrow> nat \<Rightarrow> nat \<Rightarrow> write_outcome option" where
  "write_check destinationView successTotal failedTotal =
     (let everyProcessReturned = (successTotal + failedTotal = NumberOfMembers destinationView);
          systemFailed = (everyProcessReturned \<and>
            int failedTotal > NumberOfToleratedFaults destinationView)
      in if systemFailed then Some WriteSystemFailed
         else if successTotal = QuorumSize destinationView then Some WriteDone
         else None)"

fun write_loop :: "View \<Rightarrow> nat \<Rightarrow> nat \<Rightarrow> 'a RegisterMsg list \<Rightarrow> write_outcome" where
  "write_loop destinationView successTotal failedTotal [] = WriteWaiting"
| "write_loop destinationView successTotal failedTotal (receivedValue # replies) =
     (case msg_Err receivedValue of
        Some (OldViewError newV) \<Rightarrow>
          if MoreUpdatedThan newV destinationView then WriteNewerView newV
          else write_loop destinationView successTotal failedTotal replies
      | Some (ErrorString e) \<Rightarrow>
          (case write_check destinationView successTotal (failedTotal + 1) of
             Some r \<Rightarrow> r
           | None \<Rightarrow> write_loop destinationView successTotal (failedTotal + 1) replies)
      | None \<Rightarrow>
          (case write_check destinationView (successTotal + 1) failedTotal of
             Some r \<Rightarrow> r
           | None \<Rightarrow> write_loop destinationView (successTotal + 1) failedTotal replies))"

text \<open>The requests of an attempt: one to each member, with the reference of the view.\<close>

definition broadcastRead :: "View \<Rightarrow> (Process \<times> ViewRef) list" where
  "broadcastRead destinationView = map (\<lambda>process. (process, VRef destinationView)) (GetMembers destinationView)"

definition broadcastWrite :: "View \<Rightarrow> 'a RegisterMsg \<Rightarrow> (Process \<times> 'a RegisterMsg) list" where
  "broadcastWrite destinationView writeMsg =
     map (\<lambda>process. (process, writeMsg\<lparr>msg_ViewRef := VRef destinationView\<rparr>)) (GetMembers destinationView)"

text \<open>\<^verbatim>\<open>sendRead\<close> and \<^verbatim>\<open>sendWrite\<close>: the reply put into the channel for the result of the RPC.\<close>

definition send_reply :: "Process \<Rightarrow> go_error + 'a RegisterMsg \<Rightarrow> 'a RegisterMsg" where
  "send_reply process rpc =
     (case rpc of
        Inl err \<Rightarrow> zero_RegisterMsg\<lparr>msg_Err := Some err\<rparr>
      | Inr result \<Rightarrow> result\<lparr>msg_process := process\<rparr>)"

definition couldGetNewView :: "Client \<Rightarrow> (go_error + View) list \<Rightarrow>
    (bool \<times> Client \<times> (go_error + View) list) option" where
  "couldGetNewView cl fv =
     (case fv of
        [] \<Rightarrow> None
      | Inl err # fv1 \<Rightarrow> Some (False, cl, fv1)
      | Inr v # fv1 \<Rightarrow>
          if \<not> MoreUpdatedThan v (cl_view cl) then Some (False, cl, fv1)
          else Some (True, cl\<lparr>cl_view := v\<rparr>, fv1))"

text \<open>
  The recursive calls take the next attempt. The result is the message, the error and the
  client with what is left of the environment.
\<close>

fun readQuorum_from :: "'a RegisterMsg list list \<Rightarrow> Client \<Rightarrow> (go_error + View) list \<Rightarrow>
    ('a RegisterMsg \<times> client_error option \<times> Client \<times> 'a env) option" where
  "readQuorum_from [] cl fv = None"
| "readQuorum_from (replies # rest) cl fv =
     (case read_loop (cl_view cl) 0 [] zero_RegisterMsg replies of
        ReadWaiting \<Rightarrow> None
      | ReadNewerView v \<Rightarrow> readQuorum_from rest (cl\<lparr>cl_view := v\<rparr>) fv
      | ReadSystemFailed \<Rightarrow>
          (case couldGetNewView cl fv of
             None \<Rightarrow> None
           | Some (True, cl1, fv1) \<Rightarrow> readQuorum_from rest cl1 fv1
           | Some (False, cl1, fv1) \<Rightarrow> Some (zero_RegisterMsg, Some FailedReadQuorum, cl1,
               \<lparr>attempts = rest, furtherViews = fv1\<rparr>))
      | ReadDone final same \<Rightarrow>
          Some (final, if same then None else Some DiffResultsErr, cl,
            \<lparr>attempts = rest, furtherViews = fv\<rparr>))"

definition readQuorum ::
    "Client \<Rightarrow> 'a env \<Rightarrow> ('a RegisterMsg \<times> client_error option \<times> Client \<times> 'a env) option" where
  "readQuorum cl e = readQuorum_from (attempts e) cl (furtherViews e)"

fun writeQuorum_from :: "'a RegisterMsg list list \<Rightarrow> Client \<Rightarrow> (go_error + View) list \<Rightarrow>
    (client_error option \<times> Client \<times> 'a env) option" where
  "writeQuorum_from [] cl fv = None"
| "writeQuorum_from (replies # rest) cl fv =
     (case write_loop (cl_view cl) 0 0 replies of
        WriteWaiting \<Rightarrow> None
      | WriteNewerView v \<Rightarrow> writeQuorum_from rest (cl\<lparr>cl_view := v\<rparr>) fv
      | WriteSystemFailed \<Rightarrow>
          (case couldGetNewView cl fv of
             None \<Rightarrow> None
           | Some (True, cl1, fv1) \<Rightarrow> writeQuorum_from rest cl1 fv1
           | Some (False, cl1, fv1) \<Rightarrow> Some (Some FailedWriteQuorum, cl1,
               \<lparr>attempts = rest, furtherViews = fv1\<rparr>))
      | WriteDone \<Rightarrow> Some (None, cl, \<lparr>attempts = rest, furtherViews = fv\<rparr>))"

definition writeQuorum :: "'a RegisterMsg \<Rightarrow> Client \<Rightarrow> 'a env \<Rightarrow>
    (client_error option \<times> Client \<times> 'a env) option" where
  "writeQuorum writeMsg cl e = writeQuorum_from (attempts e) cl (furtherViews e)"

section \<open>Operations\<close>

text \<open>
  \<^verbatim>\<open>Write\<close> of a value (\<open>None\<close> is \<^verbatim>\<open>nil\<close>): the error, the message it wrote (\<open>None\<close> when it failed before), the client, the
  rest of the environment.
\<close>

definition Client_Write :: "'a option \<Rightarrow> Client \<Rightarrow> 'a env \<Rightarrow>
    (client_error option \<times> 'a RegisterMsg option \<times> Client \<times> 'a env) option" where
  "Client_Write v cl e =
     (case cl_err cl of
        Some err \<Rightarrow> Some (Some err, None, cl, e)
      | None \<Rightarrow>
        (case readQuorum cl e of None \<Rightarrow> None
         | Some (readValue, err, cl1, e1) \<Rightarrow>
           if err \<noteq> None \<and> err \<noteq> Some DiffResultsErr
           then Some (err, None, cl1\<lparr>cl_err := err\<rparr>, e1)
           else
             let writeMsg = zero_RegisterMsg\<lparr>msg_Value := v,
                   msg_Timestamp := go_int (msg_Timestamp readValue + 1),
                   msg_ViewRef := VRef (cl_view cl1)\<rparr>
             in
             case writeQuorum writeMsg cl1 e1 of None \<Rightarrow> None
             | Some (err2, cl2, e2) \<Rightarrow>
                 if err2 \<noteq> None then Some (err2, Some writeMsg, cl2\<lparr>cl_err := err2\<rparr>, e2)
                 else Some (None, Some writeMsg, cl2, e2)))"

definition read2ndPhase :: "'a RegisterMsg \<Rightarrow> Client \<Rightarrow> 'a env \<Rightarrow>
    (client_error option \<times> 'a RegisterMsg \<times> Client \<times> 'a env) option" where
  "read2ndPhase readMsg cl e =
     (let cl0 = cl\<lparr>num2ndPhaseReads := go_int (num2ndPhaseReads cl + 1)\<rparr> in
      case writeQuorum readMsg cl0 e of None \<Rightarrow> None
      | Some (err, cl1, e1) \<Rightarrow>
          if err \<noteq> None then Some (err, zero_RegisterMsg, cl1\<lparr>cl_err := err\<rparr>, e1)
          else Some (None, readMsg, cl1, e1))"

text \<open>\<^verbatim>\<open>Read\<close> returns the value of the message; the model keeps the whole message.\<close>

definition Client_Read :: "Client \<Rightarrow> 'a env \<Rightarrow>
    (client_error option \<times> 'a RegisterMsg \<times> Client \<times> 'a env) option" where
  "Client_Read cl e =
     (case cl_err cl of
        Some err \<Rightarrow> Some (Some err, zero_RegisterMsg, cl, e)
      | None \<Rightarrow>
        (case readQuorum cl e of None \<Rightarrow> None
         | Some (readMsg, err, cl1, e1) \<Rightarrow>
           (case err of
              None \<Rightarrow> Some (None, readMsg, cl1, e1)
            | Some DiffResultsErr \<Rightarrow> read2ndPhase readMsg cl1 e1
            | Some other \<Rightarrow> Some (Some other, zero_RegisterMsg, cl1\<lparr>cl_err := Some other\<rparr>, e1))))"

text \<open>\<^verbatim>\<open>GetCurrentView\<close> of \<^verbatim>\<open>view.go\<close>: the first process that answers.\<close>

fun GetCurrentView_loop :: "(Process \<Rightarrow> go_error + View) \<Rightarrow> Process list \<Rightarrow> View option" where
  "GetCurrentView_loop rpc [] = None"
| "GetCurrentView_loop rpc (loopProcess # ps) =
     (case rpc loopProcess of
        Inl err \<Rightarrow> GetCurrentView_loop rpc ps
      | Inr receivedView \<Rightarrow> Some receivedView)"

text \<open>The text of its error ends with the list of the processes it asked.\<close>

definition GetCurrentView ::
    "(Process \<Rightarrow> go_error + View) \<Rightarrow> Process list \<Rightarrow> (string \<times> Process list) + View" where
  "GetCurrentView rpc processes =
     (case GetCurrentView_loop rpc processes of
        Some v \<Rightarrow> Inr v
      | None \<Rightarrow> Inl (''Failed to get current view from any of the processes: '', processes))"

end
