(* ===== verification/Client_Quorums.thy ===== *)
theory Client_Quorums
  imports Client
begin

text \<open>
  What the client's loops and operations guarantee: a read returns the newest of a quorum of
  replies and notices divergence, both loops return as soon as a quorum answers and report
  failure exactly when too many fail, the client's view only moves forward, and an error
  ends its use.
\<close>

section \<open>The loops\<close>

abbreviation succs :: "'a RegisterMsg list \<Rightarrow> 'a RegisterMsg list" where
  "succs st \<equiv> filter (\<lambda>m. msg_Err m = None) st"

definition is_failure :: "'a RegisterMsg \<Rightarrow> bool" where
  "is_failure m \<longleftrightarrow> (case msg_Err m of Some (ErrorString e) \<Rightarrow> True | _ \<Rightarrow> False)"

abbreviation fails :: "'a RegisterMsg list \<Rightarrow> 'a RegisterMsg list" where
  "fails st \<equiv> filter is_failure st"

definition no_newer :: "View \<Rightarrow> 'a RegisterMsg list \<Rightarrow> bool" where
  "no_newer v st \<longleftrightarrow> (\<forall>m \<in> set st. \<forall>w. msg_Err m = Some (OldViewError w) \<longrightarrow> \<not> MoreUpdatedThan w v)"

lemma reply_cases:
  obtains (ok) "msg_Err m = None" "\<not> is_failure m"
  | (old) w where "msg_Err m = Some (OldViewError w)" "\<not> is_failure m"
  | (failed) e where "msg_Err m = Some (ErrorString e)" "is_failure m"
proof (cases "msg_Err m")
  case (Some a)
  with old failed show thesis by (cases a) (simp_all add: is_failure_def)
qed (use ok in \<open>simp add: is_failure_def\<close>)

lemma all_same_timestamp_iff:
  "all_same_timestamp m xs \<longleftrightarrow> (\<forall>x \<in> set xs. msg_Timestamp x = msg_Timestamp m)"
  by (induction xs) auto

text \<open>The running maximum of the loop.\<close>

definition newest_of :: "'a RegisterMsg list \<Rightarrow> 'a RegisterMsg \<Rightarrow> bool" where
  "newest_of R m \<longleftrightarrow> msg_Timestamp m = Max (insert 0 (msg_Timestamp ` set R)) \<and>
     (m = zero_RegisterMsg \<or> m \<in> set R)"

lemma newest_of_Nil: "newest_of [] zero_RegisterMsg"
  by (simp add: newest_of_def zero_RegisterMsg_def)

lemma newest_of_snoc:
  assumes "newest_of R m"
  shows "newest_of (R @ [x]) (if msg_Timestamp x > msg_Timestamp m then x else m)"
proof -
  define M where "M = Max (insert 0 (msg_Timestamp ` set R))"
  have m: "msg_Timestamp m = M" "m = zero_RegisterMsg \<or> m \<in> set R"
    using assms unfolding newest_of_def M_def by blast+
  have "insert 0 (msg_Timestamp ` set (R @ [x])) =
      insert (msg_Timestamp x) (insert 0 (msg_Timestamp ` set R))" by auto
  then have "Max (insert 0 (msg_Timestamp ` set (R @ [x]))) = max (msg_Timestamp x) M"
    unfolding M_def by (metis List.finite_set Max_insert finite_imageI finite_insert insert_not_empty)
  moreover have "msg_Timestamp (if msg_Timestamp x > msg_Timestamp m then x else m) = max (msg_Timestamp x) M"
    using m(1) by simp
  moreover have "(if msg_Timestamp x > msg_Timestamp m then x else m) \<in> {zero_RegisterMsg} \<union> set (R @ [x])"
    using m(2) by auto
  ultimately show ?thesis unfolding newest_of_def by (simp only: Un_iff singleton_iff simp_thms)
qed

lemma read_check_done:
  "read_check v f R m = Some (ReadDone n same) \<longleftrightarrow>
     n = m \<and> same = all_same_timestamp m R \<and> length R = QuorumSize v \<and>
     \<not> (length R + f = NumberOfMembers v \<and> int f > NumberOfToleratedFaults v)"
  by (auto simp: read_check_def Let_def)

text \<open>A finished read has seen a quorum of answers and returns the newest of them.\<close>

definition quorum_read ::
    "View \<Rightarrow> 'a RegisterMsg list \<Rightarrow> 'a RegisterMsg list \<Rightarrow> 'a RegisterMsg \<Rightarrow> bool \<Rightarrow> bool" where
  "quorum_read v R st m same \<longleftrightarrow>
     (\<exists>taken rest. st = taken @ rest \<and> length (R @ succs taken) = QuorumSize v \<and>
        newest_of (R @ succs taken) m \<and> same = all_same_timestamp m (R @ succs taken))"

lemma quorum_read_Nil:
  "newest_of R m \<Longrightarrow> length R = QuorumSize v \<Longrightarrow> quorum_read v R st m (all_same_timestamp m R)"
  unfolding quorum_read_def by (intro exI [of _ "[]"] exI [of _ st]) simp

lemma quorum_read_Cons:
  "quorum_read v (R @ succs [x]) st m same \<Longrightarrow> quorum_read v R (x # st) m same"
  unfolding quorum_read_def
proof (elim exE conjE)
  fix taken rest assume "st = taken @ rest" "length ((R @ succs [x]) @ succs taken) = QuorumSize v"
    "newest_of ((R @ succs [x]) @ succs taken) m" "same = all_same_timestamp m ((R @ succs [x]) @ succs taken)"
  then show "\<exists>taken rest. x # st = taken @ rest \<and> length (R @ succs taken) = QuorumSize v \<and>
        newest_of (R @ succs taken) m \<and> same = all_same_timestamp m (R @ succs taken)"
    by (intro exI [of _ "x # taken"] exI [of _ rest]) (simp split: if_splits)
qed

lemma read_loop_done:
  assumes "read_loop v f R fin st = ReadDone m same" "newest_of R fin"
  shows "quorum_read v R st m same"
  using assms
proof (induction st arbitrary: f R fin)
  case (Cons x st)
  show ?case
  proof (rule quorum_read_Cons, cases rule: reply_cases [of x])
    case ok
    let ?R = "R @ [x]" and ?fin = "if msg_Timestamp x > msg_Timestamp fin then x else fin"
    have new: "newest_of ?R ?fin" using newest_of_snoc [OF Cons.prems(2)] .
    have "quorum_read v ?R st m same"
    proof (cases "read_check v f ?R ?fin")
      case None
      then show ?thesis using Cons.IH [OF _ new] Cons.prems(1) ok by (simp add: Let_def)
    next
      case (Some r)
      then have "read_check v f ?R ?fin = Some (ReadDone m same)"
        using Cons.prems(1) ok by (simp add: Let_def)
      then show ?thesis using quorum_read_Nil [OF new, of v st] unfolding read_check_done by simp
    qed
    then show "quorum_read v (R @ succs [x]) st m same" using ok by simp
  next
    case (old w)
    then show "quorum_read v (R @ succs [x]) st m same"
      using Cons.IH [OF _ Cons.prems(2)] Cons.prems(1) by (simp split: if_splits)
  next
    case (failed e)
    show "quorum_read v (R @ succs [x]) st m same"
    proof (cases "read_check v (f + 1) R fin")
      case None
      then show ?thesis using Cons.IH [OF _ Cons.prems(2)] Cons.prems(1) failed by (simp add: Let_def)
    next
      case (Some r)
      then have "read_check v (f + 1) R fin = Some (ReadDone m same)"
        using Cons.prems(1) failed by (simp add: Let_def)
      then show ?thesis
        using quorum_read_Nil [OF Cons.prems(2), of v st] failed unfolding read_check_done by simp
    qed
  qed
qed simp

text \<open>The write loop decides like the read loop.\<close>

fun forget :: "'a read_outcome \<Rightarrow> write_outcome" where
  "forget (ReadNewerView v) = WriteNewerView v"
| "forget ReadSystemFailed = WriteSystemFailed"
| "forget (ReadDone m same) = WriteDone"
| "forget ReadWaiting = WriteWaiting"

lemma write_check_forget: "write_check v (length R) f = map_option forget (read_check v f R m)"
  by (simp add: write_check_def read_check_def Let_def)

lemma write_loop_forget: "write_loop v (length R) f st = forget (read_loop v f R fin st)"
proof (induction st arbitrary: f R fin)
  case (Cons x st)
  show ?case
  proof (cases rule: reply_cases [of x])
    case ok
    let ?R = "R @ [x]" and ?fin = "if msg_Timestamp x > msg_Timestamp fin then x else fin"
    have "write_check v (length R + 1) f = map_option forget (read_check v f ?R ?fin)"
      using write_check_forget [of v ?R f] by simp
    moreover have "write_loop v (length R + 1) f st = forget (read_loop v f ?R ?fin st)"
      using Cons.IH [of ?R f ?fin] by simp
    ultimately show ?thesis using ok by (simp add: Let_def split: option.split)
  next
    case (old w)
    then show ?thesis using Cons.IH [of R f fin] by simp
  next
    case (failed e)
    then show ?thesis
      using Cons.IH [of R "f + 1" fin] write_check_forget [of v R "f + 1" fin]
      by (simp add: Let_def split: option.split)
  qed
qed simp

lemma QuorumSize_tolerated:
  "NumberOfToleratedFaults v = int (NumberOfMembers v) - int (QuorumSize v)"
  by (simp add: NumberOfToleratedFaults_def NumberOfMembers_def)

text \<open>Enough answers end the loop: the read half, from any intermediate state.\<close>

lemma read_loop_returns:
  assumes "no_newer v st" "QuorumSize v \<le> length R + length (succs st)" "length R < QuorumSize v"
    and "length R + length (succs st) + f + length (fails st) \<le> NumberOfMembers v"
  shows "\<exists>m same. read_loop v f R fin st = ReadDone m same"
  using assms
proof (induction st arbitrary: f R fin)
  case (Cons x st)
  have nn: "no_newer v st" using Cons.prems(1) by (simp add: no_newer_def)
  show ?case
  proof (cases rule: reply_cases [of x])
    case ok
    let ?R = "R @ [x]" and ?fin = "if msg_Timestamp x > msg_Timestamp fin then x else fin"
    show ?thesis
    proof (cases "length ?R = QuorumSize v")
      case True
      then have "read_check v f ?R ?fin = Some (ReadDone ?fin (all_same_timestamp ?fin ?R))"
        using Cons.prems(4) ok by (simp add: read_check_done QuorumSize_tolerated)
      then show ?thesis using ok by (simp add: Let_def)
    next
      case False
      then have "length ?R < QuorumSize v" using Cons.prems(3) by simp
      moreover from this have "read_check v f ?R ?fin = None"
        using Cons.prems(2,4) ok by (auto simp: read_check_def QuorumSize_tolerated Let_def)
      ultimately show ?thesis using Cons.IH [OF nn, of ?R f ?fin] Cons.prems ok by (simp add: Let_def)
    qed
  next
    case (old w)
    then have "\<not> MoreUpdatedThan w v" using Cons.prems(1) by (simp add: no_newer_def)
    then show ?thesis using Cons.IH [OF nn, of R f fin] Cons.prems old by simp
  next
    case (failed e)
    have "read_check v (f + 1) R fin = None"
      using Cons.prems(2-4) failed by (auto simp: read_check_def QuorumSize_tolerated Let_def)
    then show ?thesis using Cons.IH [OF nn, of R "f + 1" fin] Cons.prems failed by (simp add: Let_def)
  qed
qed simp

lemma read_loop_fails:
  assumes "no_newer v st" "st \<noteq> []" "length R < QuorumSize v"
    and "length R + length (succs st) + f + length (fails st) = NumberOfMembers v"
    and "int (f + length (fails st)) > NumberOfToleratedFaults v"
    and "length R + f < NumberOfMembers v"
  shows "read_loop v f R fin st = ReadSystemFailed"
  using assms
proof (induction st arbitrary: f R fin)
  case (Cons x st)
  have nn: "no_newer v st" using Cons.prems(1) by (simp add: no_newer_def)
  show ?case
  proof (cases rule: reply_cases [of x])
    case ok
    let ?R = "R @ [x]" and ?fin = "if msg_Timestamp x > msg_Timestamp fin then x else fin"
    have less: "length ?R < QuorumSize v"
      using Cons.prems(3-5) ok by (simp add: QuorumSize_tolerated)
    show ?thesis
    proof (cases "length ?R + f = NumberOfMembers v")
      case True
      then have "read_check v f ?R ?fin = Some ReadSystemFailed"
        using Cons.prems(4,5) ok by (simp add: read_check_def Let_def)
      then show ?thesis using ok by (simp add: Let_def)
    next
      case False
      then have "read_check v f ?R ?fin = None" using less by (simp add: read_check_def Let_def)
      moreover have "st \<noteq> []" using False Cons.prems(4) ok by auto
      ultimately show ?thesis
        using Cons.IH [OF nn, of ?R f ?fin] Cons.prems ok less False by (simp add: Let_def)
    qed
  next
    case (old w)
    then have "\<not> MoreUpdatedThan w v" using Cons.prems(1) by (simp add: no_newer_def)
    moreover have "st \<noteq> []" using Cons.prems(4,6) old by auto
    ultimately show ?thesis using Cons.IH [OF nn, of R f fin] Cons.prems old by simp
  next
    case (failed e)
    show ?thesis
    proof (cases "length R + (f + 1) = NumberOfMembers v")
      case True
      then have "read_check v (f + 1) R fin = Some ReadSystemFailed"
        using Cons.prems(4,5) failed by (simp add: read_check_def Let_def)
      then show ?thesis using failed by (simp add: Let_def)
    next
      case False
      then have "read_check v (f + 1) R fin = None" using Cons.prems(3) by (simp add: read_check_def Let_def)
      moreover have "st \<noteq> []" using False Cons.prems(4) failed by auto
      ultimately show ?thesis
        using Cons.IH [OF nn, of R "f + 1" fin] Cons.prems failed False by (simp add: Let_def)
    qed
  qed
qed simp

section \<open>The client's view and error\<close>

text \<open>What every operation does to the client: the view never loses updates, and an error stays.\<close>

definition client_wf :: "Client \<Rightarrow> bool" where
  "client_wf cl \<longleftrightarrow> wf_view (cl_view cl)"

definition wf_replies :: "'a RegisterMsg list \<Rightarrow> bool" where
  "wf_replies st \<longleftrightarrow> (\<forall>m \<in> set st. \<forall>w. msg_Err m = Some (OldViewError w) \<longrightarrow> wf_view w)"

definition wf_env :: "'a env \<Rightarrow> bool" where
  "wf_env e \<longleftrightarrow> (\<forall>st \<in> set (attempts e). wf_replies st) \<and> (\<forall>v. Inr v \<in> set (furtherViews e) \<longrightarrow> wf_view v)"

definition grows :: "Client \<Rightarrow> Client \<Rightarrow> bool" where
  "grows cl cl1 \<longleftrightarrow> client_wf cl1 \<and> Entries (cl_view cl) \<subseteq> Entries (cl_view cl1)"

lemma grows_trans: "grows a b \<Longrightarrow> grows b c \<Longrightarrow> grows a c"
  by (auto simp: grows_def)

lemma read_loop_newer:
  "read_loop v f R fin st = ReadNewerView w \<Longrightarrow> wf_replies st \<Longrightarrow> MoreUpdatedThan w v \<and> wf_view w"
proof (induction st arbitrary: f R fin)
  case (Cons x st)
  have wf: "wf_replies st" using Cons.prems(2) by (simp add: wf_replies_def)
  show ?case
  proof (cases rule: reply_cases [of x])
    case ok
    then show ?thesis
      using Cons.prems(1) Cons.IH [OF _ wf]
      by (auto simp: Let_def read_check_def split: if_splits option.splits)
  next
    case (old u)
    then show ?thesis
      using Cons.prems Cons.IH [OF _ wf] by (auto simp: wf_replies_def split: if_splits)
  next
    case (failed e)
    then show ?thesis
      using Cons.prems(1) Cons.IH [OF _ wf]
      by (auto simp: Let_def read_check_def split: if_splits option.splits)
  qed
qed simp

lemma write_loop_newer:
  assumes "write_loop v 0 0 st = WriteNewerView w" "wf_replies st"
  shows "MoreUpdatedThan w v \<and> wf_view w"
proof -
  have "forget (read_loop v 0 [] zero_RegisterMsg st) = WriteNewerView w"
    using write_loop_forget [of v "[]" 0 st zero_RegisterMsg] assms(1) by simp
  then have "read_loop v 0 [] zero_RegisterMsg st = ReadNewerView w"
    by (cases "read_loop v 0 [] zero_RegisterMsg st") auto
  then show ?thesis using read_loop_newer assms(2) by blast
qed

lemma grows_newer:
  "client_wf cl \<Longrightarrow> wf_view w \<Longrightarrow> MoreUpdatedThan w (cl_view cl) \<Longrightarrow> grows cl (cl\<lparr>cl_view := w\<rparr>)"
  by (auto simp: grows_def client_wf_def)

lemma couldGetNewView_grows:
  assumes "couldGetNewView cl fv = Some (b, cl1, fv1)" "client_wf cl" "\<forall>v. Inr v \<in> set fv \<longrightarrow> wf_view v"
  shows "grows cl cl1 \<and> (\<forall>v. Inr v \<in> set fv1 \<longrightarrow> wf_view v) \<and> cl_err cl1 = cl_err cl"
proof (cases fv)
  case (Cons r fv2)
  with assms show ?thesis
    by (cases r) (auto simp: couldGetNewView_def grows_def client_wf_def split: if_splits)
qed (use assms in \<open>simp add: couldGetNewView_def\<close>)

abbreviation ok_after :: "Client \<Rightarrow> Client \<Rightarrow> 'a env \<Rightarrow> bool" where
  "ok_after cl cl1 e1 \<equiv> grows cl cl1 \<and> wf_env e1 \<and> cl_err cl1 = cl_err cl"

lemma readQuorum_from_grows:
  assumes "readQuorum_from as cl fv = Some (m, err, cl1, e1)" "client_wf cl"
    "wf_env \<lparr>attempts = as, furtherViews = fv\<rparr>"
  shows "ok_after cl cl1 e1 \<and> err \<in> {None, Some DiffResultsErr, Some FailedReadQuorum}"
  using assms
proof (induction as arbitrary: cl fv)
  case (Cons st rest)
  have st: "wf_replies st" and env: "wf_env \<lparr>attempts = rest, furtherViews = fv\<rparr>"
    and fv: "\<forall>v. Inr v \<in> set fv \<longrightarrow> wf_view v"
    using Cons.prems(3) by (auto simp: wf_env_def)
  show ?case
  proof (cases "read_loop (cl_view cl) 0 [] zero_RegisterMsg st")
    case (ReadNewerView w)
    then have g: "grows cl (cl\<lparr>cl_view := w\<rparr>)"
      using read_loop_newer st grows_newer Cons.prems(2) by blast
    then have "client_wf (cl\<lparr>cl_view := w\<rparr>)" by (simp add: grows_def)
    with Cons.IH [OF _ this env] Cons.prems(1) ReadNewerView g grows_trans show ?thesis by simp
  next
    case ReadSystemFailed
    then obtain b cl2 fv2 where c: "couldGetNewView cl fv = Some (b, cl2, fv2)"
      using Cons.prems(1) by (auto split: option.splits)
    note g = couldGetNewView_grows [OF c Cons.prems(2) fv]
    have env2: "wf_env \<lparr>attempts = rest, furtherViews = fv2\<rparr>"
      using env g by (simp add: wf_env_def)
    show ?thesis
    proof (cases b)
      case True
      have "client_wf cl2" using g by (simp add: grows_def)
      with Cons.IH [OF _ this env2] Cons.prems(1) ReadSystemFailed c True g grows_trans
      show ?thesis by simp blast
    next
      case False
      with Cons.prems(1) ReadSystemFailed c g env2 show ?thesis by auto
    qed
  next
    case (ReadDone n same)
    with Cons.prems env show ?thesis by (auto simp: grows_def split: if_splits)
  next
    case ReadWaiting
    with Cons.prems(1) show ?thesis by simp
  qed
qed simp

lemma writeQuorum_from_grows:
  assumes "writeQuorum_from as cl fv = Some (err, cl1, e1)" "client_wf cl"
    "wf_env \<lparr>attempts = as, furtherViews = fv\<rparr>"
  shows "ok_after cl cl1 e1 \<and> err \<in> {None, Some FailedWriteQuorum}"
  using assms
proof (induction as arbitrary: cl fv)
  case (Cons st rest)
  have st: "wf_replies st" and env: "wf_env \<lparr>attempts = rest, furtherViews = fv\<rparr>"
    and fv: "\<forall>v. Inr v \<in> set fv \<longrightarrow> wf_view v"
    using Cons.prems(3) by (auto simp: wf_env_def)
  show ?case
  proof (cases "write_loop (cl_view cl) 0 0 st")
    case (WriteNewerView w)
    then have g: "grows cl (cl\<lparr>cl_view := w\<rparr>)"
      using write_loop_newer st grows_newer Cons.prems(2) by blast
    then have "client_wf (cl\<lparr>cl_view := w\<rparr>)" by (simp add: grows_def)
    with Cons.IH [OF _ this env] Cons.prems(1) WriteNewerView g grows_trans show ?thesis by simp
  next
    case WriteSystemFailed
    then obtain b cl2 fv2 where c: "couldGetNewView cl fv = Some (b, cl2, fv2)"
      using Cons.prems(1) by (auto split: option.splits)
    note g = couldGetNewView_grows [OF c Cons.prems(2) fv]
    have env2: "wf_env \<lparr>attempts = rest, furtherViews = fv2\<rparr>"
      using env g by (simp add: wf_env_def)
    show ?thesis
    proof (cases b)
      case True
      have "client_wf cl2" using g by (simp add: grows_def)
      with Cons.IH [OF _ this env2] Cons.prems(1) WriteSystemFailed c True g grows_trans
      show ?thesis by simp blast
    next
      case False
      with Cons.prems(1) WriteSystemFailed c g env2 show ?thesis by auto
    qed
  next
    case WriteDone
    with Cons.prems env show ?thesis by (auto simp: grows_def)
  next
    case WriteWaiting
    with Cons.prems(1) show ?thesis by simp
  qed
qed simp

lemma readQuorum_grows:
  assumes "readQuorum cl e = Some (m, err, cl1, e1)" "client_wf cl" "wf_env e"
  shows "ok_after cl cl1 e1 \<and> err \<in> {None, Some DiffResultsErr, Some FailedReadQuorum}"
proof (rule readQuorum_from_grows [OF assms(1) [unfolded readQuorum_def] assms(2)])
  show "wf_env \<lparr>attempts = attempts e, furtherViews = furtherViews e\<rparr>"
    using assms(3) by (simp add: wf_env_def)
qed

lemma writeQuorum_grows:
  assumes "writeQuorum m cl e = Some (err, cl1, e1)" "client_wf cl" "wf_env e"
  shows "ok_after cl cl1 e1 \<and> err \<in> {None, Some FailedWriteQuorum}"
proof (rule writeQuorum_from_grows [OF assms(1) [unfolded writeQuorum_def] assms(2)])
  show "wf_env \<lparr>attempts = attempts e, furtherViews = furtherViews e\<rparr>"
    using assms(3) by (simp add: wf_env_def)
qed

lemma read2ndPhase_grows:
  assumes "read2ndPhase m cl e = Some (err, n, cl1, e1)" "client_wf cl" "wf_env e" "cl_err cl = None"
  shows "grows cl cl1 \<and> wf_env e1 \<and> cl_err cl1 = err"
proof -
  let ?c = "cl\<lparr>num2ndPhaseReads := go_int (num2ndPhaseReads cl + 1)\<rparr>"
  obtain err2 cl2 e2 where w: "writeQuorum m ?c e = Some (err2, cl2, e2)"
    using assms(1) by (auto simp: read2ndPhase_def Let_def split: option.splits)
  then have "ok_after ?c cl2 e2"
    using writeQuorum_grows [of m ?c e err2 cl2 e2] assms(2,3) by (simp add: client_wf_def)
  with w assms(1,4) show ?thesis
    by (auto simp: read2ndPhase_def Let_def grows_def client_wf_def split: if_splits)
qed

lemma Client_Read_grows:
  assumes "Client_Read cl e = Some (err, m, cl1, e1)" "client_wf cl" "wf_env e" "cl_err cl = None"
  shows "grows cl cl1 \<and> wf_env e1 \<and> cl_err cl1 = err"
proof -
  obtain n err2 cl2 e2 where r: "readQuorum cl e = Some (n, err2, cl2, e2)"
    using assms(1,4) by (auto simp: Client_Read_def split: option.splits)
  then have ok: "ok_after cl cl2 e2" "err2 \<in> {None, Some DiffResultsErr, Some FailedReadQuorum}"
    using readQuorum_grows [of cl e n err2 cl2 e2] assms(2,3) by simp_all
  then have cl2: "client_wf cl2" "cl_err cl2 = None" using assms(4) by (simp_all add: grows_def)
  show ?thesis
  proof (cases "err2 = Some DiffResultsErr")
    case True
    then have "read2ndPhase n cl2 e2 = Some (err, m, cl1, e1)"
      using assms(1,4) r by (simp add: Client_Read_def)
    from read2ndPhase_grows [OF this cl2(1) _ cl2(2)] ok grows_trans show ?thesis by blast
  next
    case False
    with ok r assms(1,4) show ?thesis
      by (auto simp: Client_Read_def grows_def client_wf_def split: option.splits)
  qed
qed

lemma Client_Write_grows:
  assumes "Client_Write v cl e = Some (err, w, cl1, e1)" "client_wf cl" "wf_env e" "cl_err cl = None"
  shows "grows cl cl1 \<and> wf_env e1 \<and> cl_err cl1 = err"
proof -
  obtain n err2 cl2 e2 where r: "readQuorum cl e = Some (n, err2, cl2, e2)"
    using assms(1,4) by (auto simp: Client_Write_def split: option.splits)
  then have ok: "ok_after cl cl2 e2"
    using readQuorum_grows [of cl e n err2 cl2 e2] assms(2,3) by simp
  then have cl2: "client_wf cl2" "cl_err cl2 = None" using assms(4) by (simp_all add: grows_def)
  show ?thesis
  proof (cases "err2 \<noteq> None \<and> err2 \<noteq> Some DiffResultsErr")
    case True
    with ok r assms(1,4) show ?thesis by (auto simp: Client_Write_def grows_def client_wf_def)
  next
    case False
    let ?w = "zero_RegisterMsg\<lparr>msg_Value := v, msg_Timestamp := go_int (msg_Timestamp n + 1),
        msg_ViewRef := VRef (cl_view cl2)\<rparr>"
    obtain err3 cl3 e3 where wq: "writeQuorum ?w cl2 e2 = Some (err3, cl3, e3)"
      using assms(1,4) r False by (auto simp: Client_Write_def Let_def split: option.splits)
    then have "ok_after cl2 cl3 e3"
      using writeQuorum_grows [of ?w cl2 e2 err3 cl3 e3] ok cl2(1) by simp
    moreover have "err = err3 \<and> e1 = e3 \<and> (cl1 = cl3 \<and> err3 = None \<or> cl1 = cl3\<lparr>cl_err := err3\<rparr>)"
      using assms(1,4) r False wq by (auto simp: Client_Write_def Let_def split: if_splits)
    ultimately show ?thesis using ok cl2(2) by (auto simp: grows_def client_wf_def)
  qed
qed

section \<open>Properties\<close>

text \<open>C16: Both quorum loops return on enough replies and only then fail: if no reply names a newer
  view and a quorum of the members answers, reads finish with a result and writes with
  success, however the replies are ordered and whatever stale views are reported in
  between; and if every member answered and more failed than the view tolerates, both
  report that the system failed.\<close>

theorem client_loops_return:
  fixes st :: "'a RegisterMsg list"
  assumes "no_newer v st" "length (succs st) + length (fails st) \<le> NumberOfMembers v"
  shows "(QuorumSize v \<le> length (succs st) \<longrightarrow>
      (\<exists>m same. read_loop v 0 [] zero_RegisterMsg st = ReadDone m same) \<and> write_loop v 0 0 st = WriteDone) \<and>
    (length (succs st) + length (fails st) = NumberOfMembers v \<and> NumberOfMembers v \<noteq> 0 \<and>
     int (length (fails st)) > NumberOfToleratedFaults v \<longrightarrow>
      read_loop v 0 [] zero_RegisterMsg st = ReadSystemFailed \<and> write_loop v 0 0 st = WriteSystemFailed)"
proof -
  have w: "write_loop v 0 0 st = forget (read_loop v 0 [] zero_RegisterMsg st)"
    using write_loop_forget [of v "[]" 0 st zero_RegisterMsg] by simp
  have "\<exists>m same. read_loop v 0 [] zero_RegisterMsg st = ReadDone m same"
    if "QuorumSize v \<le> length (succs st)"
    using read_loop_returns [of v st "[]" 0] assms that by simp
  moreover have "read_loop v 0 [] zero_RegisterMsg st = ReadSystemFailed"
    if "length (succs st) + length (fails st) = NumberOfMembers v" "NumberOfMembers v \<noteq> 0"
      "int (length (fails st)) > NumberOfToleratedFaults v"
    using read_loop_fails [of v st "[]" 0] assms(1) that by (cases st) auto
  ultimately show ?thesis using w by fastforce
qed

theorem client_loops_return_witness:
  "let v = NewWithProcesses [Process ''a'', Process ''b'', Process ''c''];
       r = (\<lambda>n. zero_RegisterMsg\<lparr>msg_Value := Some (n::nat), msg_Timestamp := int n\<rparr>)
   in write_loop v 0 0 [r 1, zero_RegisterMsg\<lparr>msg_Err := Some (OldViewError (NewWithUpdates []))\<rparr>,
        zero_RegisterMsg\<lparr>msg_Err := Some (ErrorString ''down'')\<rparr>, r 2] = WriteDone"
proof -
  let ?v = "NewWithProcesses [Process ''a'', Process ''b'', Process ''c'']"
  let ?r = "\<lambda>n. zero_RegisterMsg\<lparr>msg_Value := Some (n::nat), msg_Timestamp := int n\<rparr>"
  let ?st = "[?r 1, zero_RegisterMsg\<lparr>msg_Err := Some (OldViewError (NewWithUpdates []))\<rparr>,
        zero_RegisterMsg\<lparr>msg_Err := Some (ErrorString ''down'')\<rparr>, ?r 2]"
  have nn: "no_newer ?v ?st" by (auto simp: no_newer_def zero_RegisterMsg_def)
  have n: "length (succs ?st) = 2" "length (fails ?st) = 1" "NumberOfMembers ?v = 3" "QuorumSize ?v = 2"
    by (simp_all add: zero_RegisterMsg_def is_failure_def NumberOfMembers_def QuorumSize_eq)
  have "length (succs ?st) + length (fails ?st) \<le> NumberOfMembers ?v" unfolding n by simp
  moreover have "QuorumSize ?v \<le> length (succs ?st)" unfolding n by simp
  ultimately have "write_loop ?v 0 0 ?st = WriteDone" using client_loops_return [OF nn] by blast
  then show ?thesis unfolding Let_def .
qed

text \<open>A finished read loop returns the newest of exactly a quorum of the error-free replies it
  received, starting from timestamp 0, and calls them unanimous exactly when all of these
  carry the returned timestamp.\<close>

theorem read_returns_newest_of_quorum:
  assumes "read_loop v 0 [] zero_RegisterMsg st = ReadDone m same"
  shows "\<exists>taken rest. st = taken @ rest \<and> length (succs taken) = QuorumSize v \<and>
    msg_Timestamp m = Max (insert 0 (msg_Timestamp ` set (succs taken))) \<and>
    (m = zero_RegisterMsg \<or> m \<in> set (succs taken)) \<and>
    (same \<longleftrightarrow> msg_Timestamp ` set (succs taken) = {msg_Timestamp m})"
proof -
  obtain taken rest where t: "st = taken @ rest" "length (succs taken) = QuorumSize v"
    "newest_of (succs taken) m" "same = all_same_timestamp m (succs taken)"
    using read_loop_done [OF assms newest_of_Nil] by (auto simp: quorum_read_def)
  then have "succs taken \<noteq> []" by (metis QuorumSize_pos list.size(3) less_irrefl)
  then have "same \<longleftrightarrow> msg_Timestamp ` set (succs taken) = {msg_Timestamp m}"
    using t(4) unfolding all_same_timestamp_iff by (cases "succs taken") auto
  with t show ?thesis unfolding newest_of_def by blast
qed

theorem read_returns_newest_of_quorum_witness:
  "let v = NewWithProcesses [Process ''a'', Process ''b'', Process ''c''];
       r = (\<lambda>n. zero_RegisterMsg\<lparr>msg_Value := Some (n::nat), msg_Timestamp := int n\<rparr>)
   in \<exists>taken rest. [r 1, r 2, r 3] = taken @ rest \<and> length (succs taken) = QuorumSize v"
proof -
  let ?v = "NewWithProcesses [Process ''a'', Process ''b'', Process ''c'']"
  let ?r = "\<lambda>n. zero_RegisterMsg\<lparr>msg_Value := Some (n::nat), msg_Timestamp := int n\<rparr>"
  have "read_loop ?v 0 [] zero_RegisterMsg [?r 1, ?r 2, ?r 3] = ReadDone (?r 2) False"
    by (simp add: zero_RegisterMsg_def read_check_def QuorumSize_eq NumberOfMembers_def Let_def)
  from read_returns_newest_of_quorum [OF this] show ?thesis unfolding Let_def by blast
qed

text \<open>C17: The operations of a client move its view only forward and are fail-fast: an operation
  that ends with an error leaves that error in the client, one that succeeds leaves none,
  and a client with an error answers every later operation with it without asking anyone.\<close>

theorem client_state_invariant:
  assumes "client_wf cl" "wf_env e"
  shows "(Client_Read cl e = Some (err, m, cl1, e1) \<longrightarrow>
      client_wf cl1 \<and> \<not> LessUpdatedThan (cl_view cl1) (cl_view cl) \<and> wf_env e1 \<and> cl_err cl1 = err) \<and>
    (Client_Write v cl e = Some (err2, w, cl2, e2) \<longrightarrow>
      client_wf cl2 \<and> \<not> LessUpdatedThan (cl_view cl2) (cl_view cl) \<and> wf_env e2 \<and> cl_err cl2 = err2) \<and>
    (cl_err cl \<noteq> None \<longrightarrow> Client_Read cl e = Some (cl_err cl, zero_RegisterMsg, cl, e) \<and>
      Client_Write v cl e = Some (cl_err cl, None, cl, e))"
proof (cases "cl_err cl")
  case None
  have g: "grows cl c \<Longrightarrow> client_wf c \<and> \<not> LessUpdatedThan (cl_view c) (cl_view cl)" for c
    using assms(1) by (simp add: grows_def client_wf_def)
  show ?thesis
    using Client_Read_grows [of cl e err m cl1 e1] Client_Write_grows [of v cl e err2 w cl2 e2]
      assms None g by blast
next
  case (Some x)
  then show ?thesis
    using assms by (auto simp: Client_Read_def Client_Write_def client_wf_def)
qed

theorem client_state_invariant_witness:
  "let cl = \<lparr>cl_view = NewWithProcesses [Process ''a''], num2ndPhaseReads = 0,
             cl_err = Some FailedReadQuorum\<rparr>;
       e = \<lparr>attempts = [], furtherViews = []\<rparr> :: nat env
   in Client_Read cl e = Some (Some FailedReadQuorum, zero_RegisterMsg, cl, e) \<and>
      Client_Write (Some 5) cl e = Some (Some FailedReadQuorum, None, cl, e)"
proof -
  let ?cl = "\<lparr>cl_view = NewWithProcesses [Process ''a''], num2ndPhaseReads = 0,
      cl_err = Some FailedReadQuorum\<rparr>"
  let ?e = "\<lparr>attempts = [], furtherViews = []\<rparr> :: nat env"
  have "client_wf ?cl" "wf_env ?e" by (simp_all add: client_wf_def wf_env_def)
  from client_state_invariant [OF this, where v = "Some 5", THEN conjunct2, THEN conjunct2]
  show ?thesis by (simp add: Let_def)
qed

end
