(* ===== verification/Atomic_Register.thy ===== *)
theory Atomic_Register
  imports Client_Quorums
begin

text \<open>
  Clients and servers together, while the view does not change. A run is the sequence of
  states of all members, each step of a member being at most one execution of its Write
  handler. An attempt of a client is tied to the run by saying when each member answered it.
  \<open>stored\<close> is the abstract specification the operations implement: a timestamp is stored
  when a quorum has reached it. Reads and writes never fall behind what is stored when they
  start, and what they return is stored when they end, which is the atomicity of the
  register as far as timestamps identify values. The last theorem shows that they do not
  when two clients write at the same time.
\<close>

section \<open>Runs of the servers of one view\<close>

definition serves :: "View \<Rightarrow> 'a Server \<Rightarrow> bool" where
  "serves v s \<longleftrightarrow> installPhase s = Receiving \<and> \<not> registerLocked s \<and> currentView s = v"

definition static_run :: "View \<Rightarrow> (nat \<Rightarrow> Process \<Rightarrow> 'a Server) \<Rightarrow> bool" where
  "static_run v net \<longleftrightarrow>
     (\<forall>p \<in> Members v. serves v (net 0 p)) \<and>
     (\<forall>k. \<forall>p \<in> Members v. net (Suc k) p = net k p \<or>
        (\<exists>w. net (Suc k) p = snd (RegisterService_Write (net k p) w)))"

abbreviation ts_at :: "(nat \<Rightarrow> Process \<Rightarrow> 'a Server) \<Rightarrow> nat \<Rightarrow> Process \<Rightarrow> int" where
  "ts_at net k p \<equiv> Timestamp (register (net k p))"

lemma write_serves: "serves v s \<Longrightarrow> serves v (snd (RegisterService_Write s w))"
  by (simp add: serves_def RegisterService_Write_def)

lemma write_stamp: "Timestamp (register s) \<le> Timestamp (register (snd (RegisterService_Write s w)))"
  by (simp add: RegisterService_Write_def reg.stamp_put)

lemma static_step:
  assumes "static_run v net" "p \<in> Members v"
  obtains (same) "net (Suc k) p = net k p"
  | (written) w where "net (Suc k) p = snd (RegisterService_Write (net k p) w)"
  using assms unfolding static_run_def by blast

lemma static_serves:
  assumes "static_run v net" "p \<in> Members v"
  shows "serves v (net k p)"
proof (induction k)
  case (Suc k)
  from assms show ?case by (rule static_step [of v net p k]) (use Suc write_serves in simp_all)
qed (use assms in \<open>simp add: static_run_def\<close>)

lemma static_mono:
  assumes "static_run v net" "p \<in> Members v" "k \<le> l"
  shows "ts_at net k p \<le> ts_at net l p"
  using assms(3)
proof (induction l rule: dec_induct)
  case (step l)
  from assms(1,2) have "ts_at net l p \<le> ts_at net (Suc l) p"
    by (rule static_step [of v net p l]) (use write_stamp in simp_all)
  with step show ?case by simp
qed simp

section \<open>Attempts of a client\<close>

text \<open>The message of a client as the server's handler decodes it, and the reply back.\<close>

definition to_Value :: "'a RegisterMsg \<Rightarrow> 'a Value" where
  "to_Value m = \<lparr>Value = msg_Value m, Timestamp = msg_Timestamp m, ViewRef_of = msg_ViewRef m,
     Err = msg_Err m\<rparr>"

definition of_Value :: "'a Value \<Rightarrow> 'a RegisterMsg" where
  "of_Value r = \<lparr>msg_Value = Value r, msg_Timestamp = Timestamp r, msg_ViewRef = ViewRef_of r,
     msg_Err = Err r, msg_process = Process ''''\<rparr>"

definition read_answered ::
    "View \<Rightarrow> (nat \<Rightarrow> Process \<Rightarrow> 'a Server) \<Rightarrow> nat \<Rightarrow> nat \<Rightarrow> 'a RegisterMsg list \<Rightarrow> bool" where
  "read_answered v net from till st \<longleftrightarrow>
     distinct (map msg_process (succs st)) \<and>
     (\<forall>m \<in> set (succs st). msg_process m \<in> Members v \<and>
        (\<exists>k r. from \<le> k \<and> k \<le> till \<and>
           RegisterService_Read (net k (msg_process m)) (VRef v) = Reply r \<and>
           m = send_reply (msg_process m) (Inr (of_Value r))))"

definition write_acked ::
    "View \<Rightarrow> (nat \<Rightarrow> Process \<Rightarrow> 'a Server) \<Rightarrow> nat \<Rightarrow> 'a RegisterMsg \<Rightarrow> 'a RegisterMsg list \<Rightarrow> bool" where
  "write_acked v net till w st \<longleftrightarrow>
     distinct (map msg_process (succs st)) \<and>
     (\<forall>m \<in> set (succs st). msg_process m \<in> Members v \<and>
        (\<exists>k r s. k < till \<and>
           RegisterService_Write (net k (msg_process m)) (to_Value (w\<lparr>msg_ViewRef := VRef v\<rparr>)) = (Reply r, s) \<and>
           net (Suc k) (msg_process m) = s))"

definition stored :: "View \<Rightarrow> (nat \<Rightarrow> Process \<Rightarrow> 'a Server) \<Rightarrow> nat \<Rightarrow> int \<Rightarrow> bool" where
  "stored v net k t \<longleftrightarrow>
     (\<exists>Q. Q \<subseteq> Members v \<and> QuorumSize v \<le> card Q \<and> (\<forall>p \<in> Q. t \<le> ts_at net k p))"

lemma set_succs: "set (succs (xs @ ys)) = set (succs xs) \<union> set (succs ys)"
  by simp

lemma repliers_quorum:
  assumes "distinct (map msg_process (succs st))" "st = taken @ rest" "length (succs taken) = n"
  shows "card (msg_process ` set (succs taken)) = n"
proof -
  have "distinct (map msg_process (succs taken))" using assms(1,2) by simp
  then show ?thesis using card_image_distinct_map assms(3) by blast
qed

lemma read_reply_stamp:
  assumes "static_run v net" "read_answered v net from till st" "m \<in> set (succs st)"
  shows "msg_process m \<in> Members v \<and> (\<exists>k. from \<le> k \<and> k \<le> till \<and>
    msg_Timestamp m = ts_at net k (msg_process m) \<and> msg_Value m = Value (register (net k (msg_process m))))"
proof -
  obtain k r where k: "msg_process m \<in> Members v" "from \<le> k" "k \<le> till"
    and r: "RegisterService_Read (net k (msg_process m)) (VRef v) = Reply r"
    and m: "m = send_reply (msg_process m) (Inr (of_Value r))"
    using assms(2,3) unfolding read_answered_def by blast
  have "serves v (net k (msg_process m))" using static_serves [OF assms(1) k(1)] .
  then have "r = zero_Value\<lparr>Value := Value (register (net k (msg_process m))),
      Timestamp := ts_at net k (msg_process m)\<rparr>"
    using r by (simp add: serves_def RegisterService_Read_def)
  then have "msg_Timestamp m = ts_at net k (msg_process m)"
    "msg_Value m = Value (register (net k (msg_process m)))"
    by (subst m, simp add: send_reply_def of_Value_def)+
  with k show ?thesis by blast
qed

text \<open>The members whose answers decide a quorum read are a quorum.\<close>

lemma read_loop_quorum:
  assumes "read_loop v 0 [] zero_RegisterMsg st = ReadDone m same" "distinct (map msg_process (succs st))"
  obtains R where "card R = QuorumSize v"
    "\<forall>p \<in> R. \<exists>x \<in> set (succs st). msg_process x = p \<and> msg_Timestamp x \<le> msg_Timestamp m \<and>
       (same \<longrightarrow> msg_Timestamp x = msg_Timestamp m)"
proof -
  obtain taken rest where st: "st = taken @ rest" and len: "length (succs taken) = QuorumSize v"
    and new: "newest_of (succs taken) m" and same: "same = all_same_timestamp m (succs taken)"
    using read_loop_done [OF assms(1) newest_of_Nil] by (auto simp: quorum_read_def)
  have le: "msg_Timestamp x \<le> msg_Timestamp m" if "x \<in> set (succs taken)" for x
    using new that unfolding newest_of_def by (metis List.finite_set Max_ge finite_imageI
        finite_insert image_eqI insertCI)
  have sub: "set (succs taken) \<subseteq> set (succs st)" using st by simp
  show thesis
  proof (rule that)
    show "card (msg_process ` set (succs taken)) = QuorumSize v"
      using repliers_quorum [OF assms(2) st len] .
    show "\<forall>p \<in> msg_process ` set (succs taken). \<exists>x \<in> set (succs st). msg_process x = p \<and>
        msg_Timestamp x \<le> msg_Timestamp m \<and> (same \<longrightarrow> msg_Timestamp x = msg_Timestamp m)"
      using le sub same by (auto simp: all_same_timestamp_iff simp del: set_filter)
  qed
qed

lemma read_loop_newest:
  assumes "read_loop v 0 [] zero_RegisterMsg st = ReadDone m same"
  shows "0 \<le> msg_Timestamp m" "m = zero_RegisterMsg \<or> m \<in> set (succs st)"
  using read_loop_done [OF assms newest_of_Nil] by (auto simp: quorum_read_def newest_of_def)

lemma write_loop_quorum:
  assumes "write_loop v 0 0 st = WriteDone" "distinct (map msg_process (succs st))"
  obtains R where "card R = QuorumSize v" "R \<subseteq> msg_process ` set (succs st)"
proof -
  have "forget (read_loop v 0 [] zero_RegisterMsg st) = WriteDone"
    using write_loop_forget [of v "[]" 0 st zero_RegisterMsg] assms(1) by simp
  then obtain m same where "read_loop v 0 [] zero_RegisterMsg st = ReadDone m same"
    by (cases "read_loop v 0 [] zero_RegisterMsg st") auto
  from read_loop_quorum [OF this assms(2)] obtain R where "card R = QuorumSize v"
    "\<forall>p \<in> R. \<exists>x \<in> set (succs st). msg_process x = p" by metis
  then show thesis by (intro that [of R]) auto
qed

text \<open>A read never returns less than what was stored when it started.\<close>

lemma read_sees_stored:
  assumes "static_run v net" "wf_view v" "stored v net k t" "k \<le> from"
    and "read_answered v net from till st" "read_loop v 0 [] zero_RegisterMsg st = ReadDone m same"
  shows "t \<le> msg_Timestamp m"
proof -
  have "distinct (map msg_process (succs st))" using assms(5) by (simp add: read_answered_def)
  then obtain R where card: "card R = QuorumSize v" and
    R: "\<forall>p \<in> R. \<exists>x \<in> set (succs st). msg_process x = p \<and> msg_Timestamp x \<le> msg_Timestamp m"
    by (rule read_loop_quorum [OF assms(6)]) blast
  have sub: "R \<subseteq> Members v"
    using R read_reply_stamp [OF assms(1,5), THEN conjunct1] by fastforce
  obtain Q where Q: "Q \<subseteq> Members v" "QuorumSize v \<le> card Q" "\<forall>p \<in> Q. t \<le> ts_at net k p"
    using assms(3) unfolding stored_def by blast
  obtain p where p: "p \<in> Q" "p \<in> R"
    using vq.quorums_meet [OF assms(2) Q(1) sub Q(2)] card by auto
  then obtain x where x: "x \<in> set (succs st)" "msg_process x = p" "msg_Timestamp x \<le> msg_Timestamp m"
    using R by blast
  obtain l where l: "from \<le> l" "msg_Timestamp x = ts_at net l p"
    using read_reply_stamp [OF assms(1,5) x(1)] x(2) by blast
  have "t \<le> ts_at net k p" using Q(3) p(1) by blast
  also have "\<dots> \<le> ts_at net l p" using static_mono [OF assms(1), of p k l] Q(1) p(1) assms(4) l(1) by auto
  finally show ?thesis using l(2) x(3) by simp
qed

text \<open>A unanimous read and a completed write leave their timestamp stored.\<close>

lemma unanimous_read_stored:
  assumes "static_run v net" "read_answered v net from till st"
    and "read_loop v 0 [] zero_RegisterMsg st = ReadDone m True"
  shows "stored v net till (msg_Timestamp m)"
proof -
  have "distinct (map msg_process (succs st))" using assms(2) by (simp add: read_answered_def)
  then obtain R where card: "card R = QuorumSize v" and
    R: "\<forall>p \<in> R. \<exists>x \<in> set (succs st). msg_process x = p \<and> msg_Timestamp x = msg_Timestamp m"
    by (rule read_loop_quorum [OF assms(3)]) blast
  have "p \<in> Members v \<and> msg_Timestamp m \<le> ts_at net till p" if p: "p \<in> R" for p
  proof -
    obtain x where x: "x \<in> set (succs st)" "msg_process x = p" "msg_Timestamp x = msg_Timestamp m"
      using R p by blast
    then obtain k where "p \<in> Members v" "k \<le> till" "msg_Timestamp x = ts_at net k p"
      using read_reply_stamp [OF assms(1,2) x(1)] by blast
    then show ?thesis using static_mono [OF assms(1), of p k till] x(3) by simp
  qed
  with card show ?thesis unfolding stored_def by (intro exI [of _ R]) auto
qed

lemma write_stored:
  assumes "static_run v net" "write_acked v net till w st" "write_loop v 0 0 st = WriteDone"
  shows "stored v net till (msg_Timestamp w)"
proof -
  have "distinct (map msg_process (succs st))" using assms(2) by (simp add: write_acked_def)
  then obtain R where card: "card R = QuorumSize v" and R: "R \<subseteq> msg_process ` set (succs st)"
    by (rule write_loop_quorum [OF assms(3)])
  have "p \<in> Members v \<and> msg_Timestamp w \<le> ts_at net till p" if p: "p \<in> R" for p
  proof -
    obtain x where "x \<in> set (succs st)" "msg_process x = p" using p R by auto
    then obtain k r s where k: "p \<in> Members v" "k < till" "net (Suc k) p = s"
      and a: "RegisterService_Write (net k p) (to_Value (w\<lparr>msg_ViewRef := VRef v\<rparr>)) = (Reply r, s)"
      using assms(2) unfolding write_acked_def by blast
    have "serves v (net k p)" using static_serves [OF assms(1) k(1)] .
    then have "register s = write_register (register (net k p)) (to_Value (w\<lparr>msg_ViewRef := VRef v\<rparr>))"
      using a by (auto simp: serves_def RegisterService_Write_def to_Value_def)
    then have "msg_Timestamp w \<le> ts_at net (Suc k) p"
      using k(3) by (simp add: to_Value_def reg.stamp_put)
    then show ?thesis using static_mono [OF assms(1) k(1), of "Suc k" till] k(1,2) by simp
  qed
  with card show ?thesis unfolding stored_def by (intro exI [of _ R]) auto
qed

section \<open>Whole operations\<close>

text \<open>
  While no view function answers, an operation that ends well has finished its first
  attempt in the view it started with.
\<close>

lemma no_newer_read: "no_newer v st \<Longrightarrow> read_loop v f R fin st \<noteq> ReadNewerView w"
proof (induction st arbitrary: f R fin)
  case (Cons x st)
  then show ?case
    by (cases rule: reply_cases [of x])
      (auto simp: no_newer_def read_check_def Let_def split: if_splits option.splits)
qed simp

lemma no_newer_write: "no_newer v st \<Longrightarrow> write_loop v 0 0 st \<noteq> WriteNewerView w"
  using write_loop_forget [of v "[]" 0 st zero_RegisterMsg] no_newer_read [of v st 0 "[]" zero_RegisterMsg w]
  by (cases "read_loop v 0 [] zero_RegisterMsg st") auto

lemma readQuorum_first:
  assumes "readQuorum cl \<lparr>attempts = st # rest, furtherViews = []\<rparr> = Some (m, err, cl1, e1)"
    and "no_newer (cl_view cl) st"
  shows "\<exists>same. read_loop (cl_view cl) 0 [] zero_RegisterMsg st = ReadDone m same \<and>
    err = (if same then None else Some DiffResultsErr) \<and> cl1 = cl \<and>
    e1 = \<lparr>attempts = rest, furtherViews = []\<rparr>"
  using assms no_newer_read [OF assms(2)]
  by (cases "read_loop (cl_view cl) 0 [] zero_RegisterMsg st")
    (auto simp: readQuorum_def couldGetNewView_def)

lemma writeQuorum_first:
  assumes "writeQuorum w cl \<lparr>attempts = st # rest, furtherViews = []\<rparr> = Some (err, cl1, e1)"
    and "no_newer (cl_view cl) st"
  shows "write_loop (cl_view cl) 0 0 st = WriteDone \<and> err = None \<and> cl1 = cl"
  using assms no_newer_write [OF assms(2)]
  by (cases "write_loop (cl_view cl) 0 0 st") (auto simp: writeQuorum_def couldGetNewView_def)

text \<open>An operation that ends well is its quorum read, and a quorum write if it has one.\<close>

lemma Client_Read_first:
  assumes "Client_Read cl \<lparr>attempts = [st1, st2], furtherViews = []\<rparr> = Some (err, m, cl1, e1)"
    and "cl_err cl = None" "no_newer (cl_view cl) st1" "no_newer (cl_view cl) st2"
  shows "err = None \<and> (\<exists>same. read_loop (cl_view cl) 0 [] zero_RegisterMsg st1 = ReadDone m same \<and>
    (same \<or> write_loop (cl_view cl) 0 0 st2 = WriteDone))"
proof -
  obtain n err1 cl2 e2 where
    rq: "readQuorum cl \<lparr>attempts = [st1, st2], furtherViews = []\<rparr> = Some (n, err1, cl2, e2)"
    using assms(1,2) by (auto simp: Client_Read_def split: option.splits)
  from readQuorum_first [OF rq assms(3)] obtain same
    where r: "read_loop (cl_view cl) 0 [] zero_RegisterMsg st1 = ReadDone n same"
      and err1: "err1 = (if same then None else Some DiffResultsErr)" and cl2: "cl2 = cl"
      and e2: "e2 = \<lparr>attempts = [st2], furtherViews = []\<rparr>" by auto
  show ?thesis
  proof (cases same)
    case True
    then have "err = None" "m = n" using assms(1,2) rq err1 by (simp_all add: Client_Read_def)
    then show ?thesis using r True by blast
  next
    case False
    let ?c = "cl\<lparr>num2ndPhaseReads := go_int (num2ndPhaseReads cl + 1)\<rparr>"
    have "read2ndPhase n cl e2 = Some (err, m, cl1, e1)"
      using assms(1,2) rq err1 False cl2 by (simp add: Client_Read_def)
    then obtain err3 cl3 e3 where
      wq: "writeQuorum n ?c \<lparr>attempts = [st2], furtherViews = []\<rparr> = Some (err3, cl3, e3)"
      and res: "(err, m) = (if err3 \<noteq> None then (err3, zero_RegisterMsg) else (None, n))"
      using e2 by (auto simp: read2ndPhase_def Let_def split: option.splits if_splits)
    have "write_loop (cl_view cl) 0 0 st2 = WriteDone" "err3 = None"
      using writeQuorum_first [OF wq] assms(4) by simp_all
    then show ?thesis using res r by simp
  qed
qed

lemma Client_Write_first:
  assumes "Client_Write x cl \<lparr>attempts = [st1, st2], furtherViews = []\<rparr> = Some (err, Some w, cl1, e1)"
    and "cl_err cl = None" "no_newer (cl_view cl) st1" "no_newer (cl_view cl) st2"
  shows "err = None \<and> (\<exists>n same. read_loop (cl_view cl) 0 [] zero_RegisterMsg st1 = ReadDone n same \<and>
    w = zero_RegisterMsg\<lparr>msg_Value := x, msg_Timestamp := go_int (msg_Timestamp n + 1),
      msg_ViewRef := VRef (cl_view cl)\<rparr> \<and> write_loop (cl_view cl) 0 0 st2 = WriteDone)"
proof -
  obtain n err1 cl2 e2 where
    rq: "readQuorum cl \<lparr>attempts = [st1, st2], furtherViews = []\<rparr> = Some (n, err1, cl2, e2)"
    using assms(1,2) by (auto simp: Client_Write_def split: option.splits)
  from readQuorum_first [OF rq assms(3)] obtain same
    where r: "read_loop (cl_view cl) 0 [] zero_RegisterMsg st1 = ReadDone n same"
      and err1: "err1 = (if same then None else Some DiffResultsErr)" and cl2: "cl2 = cl"
      and e2: "e2 = \<lparr>attempts = [st2], furtherViews = []\<rparr>" by auto
  let ?w = "zero_RegisterMsg\<lparr>msg_Value := x, msg_Timestamp := go_int (msg_Timestamp n + 1),
      msg_ViewRef := VRef (cl_view cl)\<rparr>"
  have "err1 \<in> {None, Some DiffResultsErr}" using err1 by simp
  then obtain err3 cl3 e3 where
    wq: "writeQuorum ?w cl \<lparr>attempts = [st2], furtherViews = []\<rparr> = Some (err3, cl3, e3)"
    and res: "err = err3" "w = ?w"
    using assms(1,2) rq e2 cl2 by (auto simp: Client_Write_def Let_def split: option.splits if_splits)
  have "write_loop (cl_view cl) 0 0 st2 = WriteDone" "err3 = None"
    using writeQuorum_first [OF wq] assms(4) by simp_all
  then show ?thesis using res r by blast
qed

lemma stored_later: "static_run v net \<Longrightarrow> stored v net k t \<Longrightarrow> k \<le> l \<Longrightarrow> stored v net l t"
  unfolding stored_def by (meson order_trans static_mono subsetD)

section \<open>Properties\<close>

text \<open>C2: Reads are atomic as long as the view does not change: whatever timestamp was stored at a
  quorum when a read starts (by a write or by an earlier read), the read returns one at least
  as new, and when it ends the returned timestamp is stored at a quorum, if need be by its
  second phase, so that no later read returns an older one.\<close>

theorem client_read_atomic:
  assumes "static_run v net" "wf_view v" "stored v net k t" "k \<le> from" "till \<le> till2"
    and "cl_view cl = v" "cl_err cl = None" "no_newer v st1" "no_newer v st2"
    and "read_answered v net from till st1" "write_acked v net till2 m st2"
    and "Client_Read cl \<lparr>attempts = [st1, st2], furtherViews = []\<rparr> = Some (err, m, cl1, e1)"
  shows "err = None \<and> t \<le> msg_Timestamp m \<and> stored v net till2 (msg_Timestamp m)"
proof -
  from Client_Read_first [OF assms(12,7)] assms(6,8,9) obtain same
    where err: "err = None" and r: "read_loop v 0 [] zero_RegisterMsg st1 = ReadDone m same"
      and wr: "same \<or> write_loop v 0 0 st2 = WriteDone" by auto
  have "t \<le> msg_Timestamp m" using read_sees_stored [OF assms(1-4,10) r] .
  moreover have "stored v net till2 (msg_Timestamp m)"
  proof (cases same)
    case True
    then have "stored v net till (msg_Timestamp m)"
      using unanimous_read_stored [OF assms(1,10)] r by simp
    then show ?thesis using stored_later [OF assms(1)] assms(5) by blast
  qed (use wr write_stored [OF assms(1,11)] in simp)
  ultimately show ?thesis using err by simp
qed

text \<open>A one-member view, its server before and after a write, and the answers it gives.\<close>

definition wv :: View where "wv = NewWithProcesses [Process ''a'']"

definition ws :: "nat Server" where "ws = initServer ''a'' wv"

definition wmsg :: "nat RegisterMsg" where
  "wmsg = zero_RegisterMsg\<lparr>msg_Value := Some 7, msg_Timestamp := 1, msg_ViewRef := VRef wv\<rparr>"

definition wnet :: "nat \<Rightarrow> Process \<Rightarrow> nat Server" where
  "wnet k p = (if k = 0 then ws else snd (RegisterService_Write ws (to_Value wmsg)))"

definition wreply :: "nat RegisterMsg" where
  "wreply = send_reply (Process ''a'') (Inr (of_Value zero_Value))"

lemma wv_facts: "wf_view wv" "Members wv = {Process ''a''}" "QuorumSize wv = 1" "NumberOfMembers wv = 1"
    "NumberOfToleratedFaults wv = 0"
  by (simp_all add: wv_def QuorumSize_eq NumberOfMembers_def ToleratedFaults_eq)

lemma wnet_run: "static_run wv wnet"
  unfolding static_run_def
proof (intro conjI ballI allI)
  show "serves wv (wnet 0 p)" for p by (simp add: serves_def wnet_def ws_def)
  show "wnet (Suc k) p = wnet k p \<or> (\<exists>w. wnet (Suc k) p = snd (RegisterService_Write (wnet k p) w))" for k p
    by (cases k) (auto simp: wnet_def)
qed

lemma wreply_sel: "msg_Err wreply = None" "msg_process wreply = Process ''a''" "msg_Timestamp wreply = 0"
  by (simp_all add: wreply_def send_reply_def of_Value_def zero_Value_def)

lemma wreply_read: "read_loop wv 0 [] zero_RegisterMsg [wreply] = ReadDone zero_RegisterMsg True"
  by (simp add: wreply_sel read_check_def wv_facts Let_def)
    (simp add: zero_RegisterMsg_def)

lemma wreply_answered: "read_answered wv wnet 0 0 [wreply]"
proof -
  have "RegisterService_Read (wnet 0 (Process ''a'')) (VRef wv) = Reply zero_Value"
    by (simp add: RegisterService_Read_def wnet_def ws_def zero_Value_def)
  then show ?thesis
    by (simp add: read_answered_def wreply_sel wv_facts) (simp add: wreply_def)
qed

lemma wstored: "stored wv wnet 0 0"
  unfolding stored_def
  by (intro exI [of _ "{Process ''a''}"]) (simp add: wv_facts wnet_def ws_def zero_Value_def)

theorem client_read_atomic_witness:
  "stored wv wnet 0 0 \<and> Client_Read \<lparr>cl_view = wv, num2ndPhaseReads = 0, cl_err = None\<rparr>
     \<lparr>attempts = [[wreply], []], furtherViews = []\<rparr> =
     Some (None, zero_RegisterMsg, \<lparr>cl_view = wv, num2ndPhaseReads = 0, cl_err = None\<rparr>,
       \<lparr>attempts = [[]], furtherViews = []\<rparr>)"
proof -
  let ?cl = "\<lparr>cl_view = wv, num2ndPhaseReads = 0, cl_err = None\<rparr>"
  have rd: "Client_Read ?cl \<lparr>attempts = [[wreply], []], furtherViews = []\<rparr> =
      Some (None, zero_RegisterMsg, ?cl, \<lparr>attempts = [[]], furtherViews = []\<rparr>)"
    by (simp add: Client_Read_def readQuorum_def wreply_read del: read_loop.simps)
  have "write_acked wv wnet 0 zero_RegisterMsg []" by (simp add: write_acked_def)
  from client_read_atomic [OF wnet_run wv_facts(1) wstored _ _ _ _ _ _ wreply_answered this rd]
  have "stored wv wnet 0 (msg_Timestamp (zero_RegisterMsg :: nat RegisterMsg))"
    by (simp add: no_newer_def wreply_sel)
  then have "stored wv wnet 0 0" by (simp add: zero_RegisterMsg_def)
  with rd show ?thesis by simp
qed

text \<open>C3: Writes are atomic as long as the view does not change and no timestamp reaches the largest
  integer: a write carries a timestamp strictly newer than whatever was stored at a quorum
  when it started, and when it ends its timestamp is stored at a quorum.\<close>

theorem client_write_atomic:
  assumes "static_run v net" "wf_view v" "stored v net k t" "k \<le> from"
    and "\<forall>p \<in> Members v. \<forall>l. ts_at net l p < max_int64"
    and "cl_view cl = v" "cl_err cl = None" "no_newer v st1" "no_newer v st2"
    and "read_answered v net from till st1" "write_acked v net till2 w st2"
    and "Client_Write x cl \<lparr>attempts = [st1, st2], furtherViews = []\<rparr> = Some (err, Some w, cl1, e1)"
  shows "err = None \<and> t < msg_Timestamp w \<and> msg_Value w = x \<and> stored v net till2 (msg_Timestamp w)"
proof -
  from Client_Write_first [OF assms(12,7)] assms(6,8,9) obtain n same
    where err: "err = None" and r: "read_loop v 0 [] zero_RegisterMsg st1 = ReadDone n same"
      and w: "w = zero_RegisterMsg\<lparr>msg_Value := x, msg_Timestamp := go_int (msg_Timestamp n + 1),
        msg_ViewRef := VRef v\<rparr>" and wr: "write_loop v 0 0 st2 = WriteDone" by auto
  have t: "t \<le> msg_Timestamp n" using read_sees_stored [OF assms(1-4,10) r] .
  have new: "0 \<le> msg_Timestamp n" "n = zero_RegisterMsg \<or> n \<in> set (succs st1)"
    using read_loop_newest [OF r] by simp_all
  have "msg_Timestamp n < max_int64"
    using new(2)
  proof
    assume "n \<in> set (succs st1)"
    with read_reply_stamp [OF assms(1,10)] assms(5) show ?thesis by metis
  qed (simp add: zero_RegisterMsg_def)
  then have "go_int (msg_Timestamp n + 1) = msg_Timestamp n + 1" using new(1) by (intro go_int_id) simp_all
  then show ?thesis using w t err write_stored [OF assms(1,11) wr] by simp
qed

theorem client_write_atomic_witness:
  "\<exists>cl1 e1. Client_Write (Some 7) \<lparr>cl_view = wv, num2ndPhaseReads = 0, cl_err = None\<rparr>
     \<lparr>attempts = [[wreply], [wreply]], furtherViews = []\<rparr> = Some (None, Some wmsg, cl1, e1) \<and>
   stored wv wnet 1 1"
proof -
  let ?cl = "\<lparr>cl_view = wv, num2ndPhaseReads = 0, cl_err = None\<rparr>"
  have inc: "go_int 1 = 1" by (simp add: go_int_def)
  have "write_loop wv 0 0 [wreply] = WriteDone"
    by (simp add: wreply_sel write_check_def wv_facts Let_def)
  then have wr: "Client_Write (Some 7) ?cl \<lparr>attempts = [[wreply], [wreply]], furtherViews = []\<rparr> =
      Some (None, Some wmsg, ?cl, \<lparr>attempts = [], furtherViews = []\<rparr>)"
    using inc by (simp add: Client_Write_def readQuorum_def writeQuorum_def wreply_read wmsg_def Let_def
        del: read_loop.simps write_loop.simps) (simp add: zero_RegisterMsg_def)
  have ack: "write_acked wv wnet 1 wmsg [wreply]"
  proof -
    have "RegisterService_Write (wnet 0 (Process ''a'')) (to_Value wmsg) =
        (Reply zero_Value, wnet 1 (Process ''a''))"
      by (simp add: wnet_def ws_def RegisterService_Write_def to_Value_def wmsg_def)
    moreover have "wmsg\<lparr>msg_ViewRef := VRef wv\<rparr> = wmsg" by (simp add: wmsg_def)
    ultimately show ?thesis
      by (auto simp: write_acked_def wreply_sel wv_facts)
  qed
  have "ts_at wnet l p < max_int64" for l p
    by (simp add: wnet_def ws_def RegisterService_Write_def to_Value_def wmsg_def write_register_def zero_Value_def)
  then have bound: "\<forall>p \<in> Members wv. \<forall>l. ts_at wnet l p < max_int64" by blast
  have "stored wv wnet 1 (msg_Timestamp wmsg)"
    using client_write_atomic [OF wnet_run wv_facts(1) wstored _ bound _ _ _ _ wreply_answered ack wr]
    by (simp add: no_newer_def wreply_sel)
  with wr show ?thesis by (auto simp: wmsg_def)
qed

section \<open>Two writers\<close>

text \<open>Three members, two clients that write 7 and 8, and what the members answer them.\<close>

definition tv :: View where "tv = NewWithProcesses [Process ''a'', Process ''b'', Process ''c'']"

definition tclient :: Client where "tclient = \<lparr>cl_view = tv, num2ndPhaseReads = 0, cl_err = None\<rparr>"

definition tmsg :: "nat \<Rightarrow> nat RegisterMsg" where
  "tmsg x = zero_RegisterMsg\<lparr>msg_Value := Some x, msg_Timestamp := 1, msg_ViewRef := VRef tv\<rparr>"

definition answer :: "Process \<Rightarrow> 'a Value rpc \<Rightarrow> 'a RegisterMsg" where
  "answer p reply =
     (case reply of Reply r \<Rightarrow> send_reply p (Inr (of_Value r)) | _ \<Rightarrow> send_reply p (Inl (ErrorString '''')))"

text \<open>A member after the given writes, its answer to a read, and its answer to one more write.\<close>

definition tserver :: "string \<Rightarrow> nat list \<Rightarrow> nat Server" where
  "tserver a xs = apply_writes (initServer a tv) (map (\<lambda>x. to_Value (tmsg x)) xs)"

definition tread :: "string \<Rightarrow> nat list \<Rightarrow> nat RegisterMsg" where
  "tread a xs = answer (Process a) (RegisterService_Read (tserver a xs) (VRef tv))"

definition tack :: "string \<Rightarrow> nat list \<Rightarrow> nat \<Rightarrow> nat RegisterMsg" where
  "tack a xs x = answer (Process a) (fst (RegisterService_Write (tserver a xs) (to_Value (tmsg x))))"

lemma tv_facts: "QuorumSize tv = 2" "NumberOfMembers tv = 3" "NumberOfToleratedFaults tv = 1"
  by (simp_all add: tv_def QuorumSize_eq NumberOfMembers_def ToleratedFaults_eq)

lemma tserver_eq: "tserver a xs = (initServer a tv)\<lparr>register :=
    (if xs = [] then register (initServer a tv :: nat Server)
     else (register (initServer a tv))\<lparr>Value := Some (hd xs), Timestamp := 1\<rparr>)\<rparr>"
proof -
  have later: "foldl write_register r (map (\<lambda>x. to_Value (tmsg x)) ys) = r" if "Timestamp r = 1" for r ys
    using that by (induction ys) (simp_all add: write_register_def to_Value_def tmsg_def)
  have first: "write_register r (to_Value (tmsg x)) = r\<lparr>Value := Some x, Timestamp := 1\<rparr>"
    if "Timestamp r = 0" for r x
    using that by (simp add: write_register_def to_Value_def tmsg_def)
  have "tserver a xs = (initServer a tv)\<lparr>register :=
      foldl write_register (register (initServer a tv)) (map (\<lambda>x. to_Value (tmsg x)) xs)\<rparr>"
    unfolding tserver_def by (rule apply_writes_eq) (simp_all add: to_Value_def tmsg_def)
  then show ?thesis
    by (cases xs) (simp_all add: later first zero_Value_def)
qed

lemma treplies:
  "msg_Err (tread a xs) = None" "msg_Err (tack a xs x) = None"
  "msg_Timestamp (tread a []) = 0" "msg_Timestamp (tread a (x # xs)) = 1"
  "msg_Value (tread a (x # xs)) = Some x"
  by (simp_all add: tread_def tack_def answer_def tserver_eq RegisterService_Read_def send_reply_def
      RegisterService_Write_def of_Value_def zero_Value_def to_Value_def tmsg_def)

lemma tread_fresh: "read_loop tv 0 [] zero_RegisterMsg [tread a [], tread b []] = ReadDone zero_RegisterMsg True"
  by (simp add: treplies read_check_def tv_facts Let_def zero_RegisterMsg_def)

lemma tread_written: "read_loop tv 0 [] zero_RegisterMsg [tread a (x # xs), tread b (y # ys)] =
    ReadDone (tread a (x # xs)) True"
  by (simp add: treplies read_check_def tv_facts Let_def zero_RegisterMsg_def)

lemma tack_done: "write_loop tv 0 0 [tack a xs x, tack b ys x] = WriteDone"
  by (simp add: treplies write_check_def tv_facts Let_def)

lemma twrite: "Client_Write (Some x) tclient \<lparr>attempts = [[tread a [], tread b []], [tack c xs x, tack d ys x]],
    furtherViews = []\<rparr> = Some (None, Some (tmsg x), tclient, \<lparr>attempts = [], furtherViews = []\<rparr>)"
proof -
  have "go_int 1 = 1" by (simp add: go_int_def)
  then show ?thesis
    by (simp add: Client_Write_def readQuorum_def writeQuorum_def tclient_def tread_fresh tack_done Let_def
        tmsg_def del: read_loop.simps write_loop.simps) (simp add: zero_RegisterMsg_def)
qed

text \<open>C31: Atomicity is lost when two clients write at the same time. Both read timestamp 0 and write
  with timestamp 1, both writes succeed, and the members keep whichever write came first.
  From then on a read of \<open>a\<close> and \<open>b\<close> returns 7 when \<open>a\<close> answers first and 8 when \<open>b\<close> does, each
  without error and without a second phase, as the timestamps agree: reads in sequence can
  alternate between the two values.\<close>

theorem concurrent_writers_conflict:
  "Client_Write (Some 7) tclient \<lparr>attempts = [[tread ''a'' [], tread ''b'' []], [tack ''a'' [] 7, tack ''b'' [8] 7]],
     furtherViews = []\<rparr> = Some (None, Some (tmsg 7), tclient, \<lparr>attempts = [], furtherViews = []\<rparr>) \<and>
   Client_Write (Some 8) tclient \<lparr>attempts = [[tread ''a'' [], tread ''b'' []], [tack ''b'' [] 8, tack ''a'' [7] 8]],
     furtherViews = []\<rparr> = Some (None, Some (tmsg 8), tclient, \<lparr>attempts = [], furtherViews = []\<rparr>) \<and>
   (\<exists>m e. Client_Read tclient \<lparr>attempts = [[tread ''a'' [7, 8], tread ''b'' [8, 7]]], furtherViews = []\<rparr> =
      Some (None, m, tclient, e) \<and> msg_Value m = Some 7) \<and>
   (\<exists>m e. Client_Read tclient \<lparr>attempts = [[tread ''b'' [8, 7], tread ''a'' [7, 8]]], furtherViews = []\<rparr> =
      Some (None, m, tclient, e) \<and> msg_Value m = Some 8)"
proof (intro conjI)
  show "\<exists>m e. Client_Read tclient \<lparr>attempts = [[tread ''a'' [7, 8], tread ''b'' [8, 7]]], furtherViews = []\<rparr> =
      Some (None, m, tclient, e) \<and> msg_Value m = Some 7"
    by (simp add: Client_Read_def readQuorum_def tclient_def tread_written treplies del: read_loop.simps)
  show "\<exists>m e. Client_Read tclient \<lparr>attempts = [[tread ''b'' [8, 7], tread ''a'' [7, 8]]], furtherViews = []\<rparr> =
      Some (None, m, tclient, e) \<and> msg_Value m = Some 8"
    by (simp add: Client_Read_def readQuorum_def tclient_def tread_written treplies del: read_loop.simps)
qed (rule twrite)+

end
