(* ===== verification/Server_System.thy ===== *)
theory Server_System
  imports Atomic_Register State_Transfer
begin

text \<open>
  All servers together while the view changes. The system is the state of every process and
  the state messages under way; a step is one step of one server. Three ghost fields record
  the past: the states each server received with their senders, the timestamp a server
  handed over when it left a view, and the writes it acknowledged. The invariant ties them to
  the servers: what a server installs comes from a quorum of distinct members of the view
  before it, a server hands over its state at most once per view and acknowledges nothing in
  a view afterwards.
\<close>

section \<open>The system\<close>

record 'a system =
  node :: "Process \<Rightarrow> 'a Server"
  flight :: "Process \<Rightarrow> (Process \<times> 'a SyncStateMsg) list"
  received :: "Process \<Rightarrow> (Process \<times> 'a SyncStateMsg) list"
  handed :: "View \<Rightarrow> Process \<Rightarrow> int option"
  acked :: "(View \<times> Process \<times> int) set"

text \<open>The states among the messages a server sends, and those of them that go to one process.\<close>

fun states_in :: "'a server_out list \<Rightarrow> (View \<times> 'a SyncStateMsg) list" where
  "states_in [] = []"
| "states_in (BroadcastStateUpdate w m # out) = (w, m) # states_in out"
| "states_in (_ # out) = states_in out"

definition states_to :: "Process \<Rightarrow> 'a server_out list \<Rightarrow> 'a SyncStateMsg list" where
  "states_to d out = map snd (filter (\<lambda>(w, m). d \<in> set (GetMembers w)) (states_in out))"

definition hand_over ::
    "Process \<Rightarrow> 'a server_out list \<Rightarrow> (View \<Rightarrow> Process \<Rightarrow> int option) \<Rightarrow> View \<Rightarrow> Process \<Rightarrow> int option" where
  "hand_over p out h = fold (\<lambda>(w, m) h v q.
     if v = ssm_AssociatedView m \<and> q = p then Some (ssm_Timestamp m) else h v q) (states_in out) h"

text \<open>A write request that a server acknowledges without error.\<close>

fun ack_of :: "Process \<Rightarrow> 'a event \<Rightarrow> 'a Server \<Rightarrow> (View \<times> Process \<times> int) set" where
  "ack_of p (WriteReq w) s =
     (case RegisterService_Write s w of
        (Reply r, _) \<Rightarrow> if Err r = None then {(currentView s, p, Timestamp w)} else {}
      | _ \<Rightarrow> {})"
| "ack_of p _ s = {}"

text \<open>
  One view after the other: \<open>parent\<close> gives the view from which a view is installed, and the
  requests to install a view keep to it. State messages only arrive when they were sent.
\<close>

definition planned :: "(View \<Rightarrow> View option) \<Rightarrow> InstallSeq \<Rightarrow> bool" where
  "planned parent isq \<longleftrightarrow> parent (is_InstallView isq) = Some (is_AssociatedView isq) \<and>
     MoreUpdatedThan (is_InstallView isq) (is_AssociatedView isq)"

fun allowed :: "(View \<Rightarrow> View option) \<Rightarrow> 'a event \<Rightarrow> bool" where
  "allowed parent (InstallSeqReq m) = planned parent (ism_InstallSeq m)"
| "allowed parent (StateUpdateReq m) = False"
| "allowed parent _ = True"

definition in_step :: "'a Server \<Rightarrow> 'a server_out list \<Rightarrow> bool" where
  "in_step s out \<longleftrightarrow> (\<forall>(w, m) \<in> set (states_in out). ssm_AssociatedView m = currentView s)"

definition act :: "Process \<Rightarrow> 'a event \<Rightarrow> 'a system \<Rightarrow> 'a system" where
  "act p e \<sigma> = (case live_step e (node \<sigma> p) of (out, s) \<Rightarrow>
     \<sigma>\<lparr>node := (node \<sigma>)(p := s),
       flight := (\<lambda>d. flight \<sigma> d @ map (Pair p) (states_to d out)),
       handed := hand_over p out (handed \<sigma>),
       acked := acked \<sigma> \<union> ack_of p e (node \<sigma> p)\<rparr>)"

definition deliver :: "Process \<Rightarrow> Process \<Rightarrow> 'a SyncStateMsg \<Rightarrow> 'a system \<Rightarrow> 'a system" where
  "deliver p q m \<sigma> =
     \<sigma>\<lparr>node := (node \<sigma>)(p := snd (live_step (StateUpdateReq m) (node \<sigma> p))),
       flight := (flight \<sigma>)(p := remove1 (q, m) (flight \<sigma> p)),
       received := (received \<sigma>)(p := received \<sigma> p @ [(q, m)])\<rparr>"

inductive sys_step :: "(View \<Rightarrow> View option) \<Rightarrow> 'a system \<Rightarrow> 'a system \<Rightarrow> bool" for parent where
  Act: "\<not> is_dead (installPhase (node \<sigma> p)) \<Longrightarrow> good_event e \<Longrightarrow> allowed parent e \<Longrightarrow>
    in_step (node \<sigma> p) (fst (live_step e (node \<sigma> p))) \<Longrightarrow> sys_step parent \<sigma> (act p e \<sigma>)"
| Deliver: "\<not> is_dead (installPhase (node \<sigma> p)) \<Longrightarrow> (q, m) \<in> set (flight \<sigma> p) \<Longrightarrow>
    sys_step parent \<sigma> (deliver p q m \<sigma>)"

definition sys_init :: "View \<Rightarrow> 'a system \<Rightarrow> bool" where
  "sys_init v0 \<sigma> \<longleftrightarrow> wf_view v0 \<and>
     (\<forall>p. \<exists>addr u c out. p = Process addr \<and> wf_view u \<and> (p \<in> Members u \<longrightarrow> u = v0) \<and>
        NewServer (Some addr) False u c = Created out (node \<sigma> p)) \<and>
     flight \<sigma> = (\<lambda>_. []) \<and> received \<sigma> = (\<lambda>_. []) \<and> handed \<sigma> = (\<lambda>_ _. None) \<and> acked \<sigma> = {}"

abbreviation sys_steps :: "(View \<Rightarrow> View option) \<Rightarrow> 'a system \<Rightarrow> 'a system \<Rightarrow> bool" where
  "sys_steps parent \<equiv> (sys_step parent)\<^sup>*\<^sup>*"

section \<open>One step of one server\<close>

text \<open>The steps that neither send, receive nor install a state.\<close>

definition transfer_of ::
    "'a Server \<Rightarrow> View \<times> 'a Value \<times> 'a SyncStateMsg list \<times> 'a stateUpdateQuorumType list \<times> InstallSeqMsg list" where
  "transfer_of s = (currentView s, register s, syncStateMsgChan s, stateUpdateQuorumCounterList s,
     installSeqProcessingChan s)"

fun quiet :: "'a event \<Rightarrow> bool" where
  "quiet (WriteReq w) = False"
| "quiet (InstallSeqReq m) = False"
| "quiet (StateUpdateReq m) = False"
| "quiet TakeInstallSeq = False"
| "quiet TakeStateUpdate = False"
| "quiet StateReady = False"
| "quiet _ = True"

lemma states_in_append [simp]: "states_in (xs @ ys) = states_in xs @ states_in ys"
  by (induction xs rule: states_in.induct) auto

lemma states_in_generator [simp]: "states_in (map GeneratorSends xs) = []"
  by (induction xs) auto

lemma getOrCreateViewGenerator_transfer:
  "getOrCreateViewGenerator v initial s = Some (i, t) \<Longrightarrow>
   transfer_of (snd t) = transfer_of s \<and> installPhase (snd t) = installPhase s \<and> states_in (fst t) = []"
  by (auto simp: getOrCreateViewGenerator_def emit_worker_eq transfer_of_def Let_def
      split: option.splits if_splits prod.splits)

lemma transfer_of_frame [simp]:
  "transfer_of (s\<lparr>generations := g\<rparr>) = transfer_of s"
  "transfer_of (s\<lparr>viewGenerators := vg\<rparr>) = transfer_of s"
  "transfer_of (s\<lparr>installPhase := ph\<rparr>) = transfer_of s"
  "transfer_of (s\<lparr>consensusWaits := cw\<rparr>) = transfer_of s"
  "transfer_of (s\<lparr>generatedViewSeqChan := gc\<rparr>) = transfer_of s"
  "transfer_of (s\<lparr>newViewInstalledChan := nc\<rparr>) = transfer_of s"
  "transfer_of (s\<lparr>viewReaders := vr\<rparr>) = transfer_of s"
  "transfer_of (s\<lparr>recv := rc\<rparr>) = transfer_of s"
  "transfer_of (s\<lparr>registerLocked := rl\<rparr>) = transfer_of s"
  "transfer_of (s\<lparr>registerLockOnce := ro\<rparr>) = transfer_of s"
  by (simp_all add: transfer_of_def)

definition calm :: "'a transition \<Rightarrow> 'a Server \<Rightarrow> bool" where
  "calm t s \<longleftrightarrow> transfer_of (snd t) = transfer_of s \<and> states_in (fst t) = [] \<and>
     (installPhase (snd t) = installPhase s \<or>
      installPhase s \<noteq> Receiving \<and> (\<exists>isq n. installPhase (snd t) = WaitingViewInstalled isq n) \<or>
      is_dead (installPhase (snd t)))"

lemma generator_requests_calm: "calm (ProposeSeqView m s) s" "calm (SeqConvRequest c s) s"
  by (auto simp: ProposeSeqView_def SeqConvRequest_def add_job_def calm_def split: option.split
      dest!: getOrCreateViewGenerator_transfer)

lemma runGeneration_calm: "calm (runGeneration s) s"
  by (auto simp: runGeneration_def generateViewSequenceWithConsensus_def
      generateViewSequenceWithoutConsensus_def calm_def Let_def split: list.split option.split
      dest!: getOrCreateViewGenerator_transfer)

lemma quiet_calm: "quiet e \<Longrightarrow> calm (live_step e s) s"
proof (induction e)
  case (ReadReq r)
  then show ?case by (simp add: calm_def hold_view_def split: rpc.split)
qed (simp_all add: generator_requests_calm runGeneration_calm,
    (simp add: calm_def runWorker_def emit_worker_eq startReconfiguration_def Reconfig_def
      generatedViewSeqProcessing_def viewInstalledProcessing_def consensusDecided_def ViewInstalled_def
      AdminService_Leave_def leave_def Let_def case_prod_beta
      split: list.split option.split installPhase.split)+)

text \<open>Taking an install message: at most one state is sent, and only by a member of the old view.\<close>

lemma installOthers_transfer [simp]:
  "transfer_of (installOthersViewsFromViewSeqLocked isq s) = transfer_of s"
  by (simp add: installOthersViewsFromViewSeqLocked_def Let_def)

lemma afterStateSent_transfer [simp]: "transfer_of (afterStateSent isq newer s) = transfer_of s"
  by (simp add: afterStateSent_def)

lemma afterStateSent_phase:
  "newer \<Longrightarrow> installPhase (afterStateSent isq newer s) =
     (if HasMember (is_InstallView isq) (thisProcess s) then WaitingState isq
      else WaitingViewInstalled isq 0)"
  "\<not> newer \<Longrightarrow> installPhase (afterStateSent isq newer s) = Receiving"
  by (simp_all add: afterStateSent_def)

lemma gotInstallSeqQuorum_effect:
  assumes "installPhase s = Receiving"
  shows "transfer_of (snd (gotInstallSeqQuorum isq s)) = transfer_of s"
    and "states_in (fst (gotInstallSeqQuorum isq s)) = [] \<or>
      states_in (fst (gotInstallSeqQuorum isq s)) = [(is_InstallView isq, syncStateMsg_of isq s)] \<and>
      HasMember (is_AssociatedView isq) (thisProcess s) \<and>
      (MoreUpdatedThan (is_InstallView isq) (currentView s) \<longrightarrow>
         installPhase (snd (gotInstallSeqQuorum isq s)) \<noteq> Receiving)"
    and "installPhase (snd (gotInstallSeqQuorum isq s)) = WaitingState i \<Longrightarrow>
      i = isq \<and> HasMember (is_InstallView isq) (thisProcess s)"
  using assms
  by (auto simp: gotInstallSeqQuorum_def afterStateSent_phase syncStateMsg_of_def Let_def
      afterStateSent_def split: if_splits)

lemma installSeqProcessing_effect:
  obtains (idle) "installSeqProcessing s = ([], s)"
  | (skip) m ms where "installSeqProcessingChan s = m # ms" "installPhase s = Receiving"
      "states_in (fst (installSeqProcessing s)) = []"
      "transfer_of (snd (installSeqProcessing s)) = transfer_of (s\<lparr>installSeqProcessingChan := ms\<rparr>)"
      "installPhase (snd (installSeqProcessing s)) = WaitingState (ism_InstallSeq m) \<longrightarrow>
         HasMember (is_InstallView (ism_InstallSeq m)) (thisProcess s)"
      "\<forall>isq. installPhase (snd (installSeqProcessing s)) = WaitingState isq \<longrightarrow> isq = ism_InstallSeq m"
  | (sends) m ms where "installSeqProcessingChan s = m # ms" "installPhase s = Receiving"
      "states_in (fst (installSeqProcessing s)) =
         [(is_InstallView (ism_InstallSeq m), syncStateMsg_of (ism_InstallSeq m) s)]"
      "transfer_of (snd (installSeqProcessing s)) = transfer_of (s\<lparr>installSeqProcessingChan := ms\<rparr>)"
      "HasMember (is_AssociatedView (ism_InstallSeq m)) (thisProcess s)"
      "MoreUpdatedThan (is_InstallView (ism_InstallSeq m)) (currentView s) \<longrightarrow>
         installPhase (snd (installSeqProcessing s)) \<noteq> Receiving"
      "installPhase (snd (installSeqProcessing s)) = WaitingState (ism_InstallSeq m) \<longrightarrow>
         HasMember (is_InstallView (ism_InstallSeq m)) (thisProcess s)"
      "\<forall>isq. installPhase (snd (installSeqProcessing s)) = WaitingState isq \<longrightarrow> isq = ism_InstallSeq m"
proof (cases "installSeqProcessingChan s = [] \<or> installPhase s \<noteq> Receiving")
  case True
  then have "installSeqProcessing s = ([], s)"
    by (auto simp: installSeqProcessing_def split: list.split)
  then show thesis by (rule idle)
next
  case False
  then obtain m ms where m: "installSeqProcessingChan s = m # ms" and ph: "installPhase s = Receiving"
    by (auto simp: neq_Nil_conv)
  let ?isq = "ism_InstallSeq m"
  obtain b c where c: "installSeqQuorumCounter_count (installSeqQuorumCounter s) ?isq
      (QuorumSize (is_AssociatedView ?isq)) = (b, c)" by fastforce
  let ?s1 = "s\<lparr>installSeqProcessingChan := ms,
     processToInstallSeqMsgMap := (processToInstallSeqMsgMap s)(ism_Sender m \<mapsto> m)\<rparr>"
  let ?s2 = "?s1\<lparr>installSeqQuorumCounter := c\<rparr>"
  have ph2: "installPhase ?s2 = Receiving" using ph by simp
  have tr: "transfer_of ?s2 = transfer_of (s\<lparr>installSeqProcessingChan := ms\<rparr>)"
    "transfer_of ?s1 = transfer_of (s\<lparr>installSeqProcessingChan := ms\<rparr>)"
    by (simp_all add: transfer_of_def)
  have msg: "syncStateMsg_of ?isq ?s2 = syncStateMsg_of ?isq s" by (simp add: syncStateMsg_of_def)
  show thesis
  proof (cases "(\<exists>previous. processToInstallSeqMsgMap s (ism_Sender m) = Some previous \<and>
      InstallSeqMsg_Equal previous m) \<or> \<not> b")
    case True
    then have "states_in (fst (installSeqProcessing s)) = []"
      "snd (installSeqProcessing s) = ?s1 \<or> snd (installSeqProcessing s) = ?s2"
      using m ph c by (auto simp: installSeqProcessing_def Let_def split: option.split)
    with m ph tr show thesis by (intro skip [of m ms]) auto
  next
    case False
    then have st: "states_in (fst (installSeqProcessing s)) = states_in (fst (gotInstallSeqQuorum ?isq ?s2))"
      and sn: "snd (installSeqProcessing s) = snd (gotInstallSeqQuorum ?isq ?s2)"
      using m ph c by (auto simp: installSeqProcessing_def Let_def case_prod_beta split: option.split)
    note eff = gotInstallSeqQuorum_effect [OF ph2, of ?isq]
    from eff(2) show thesis
    proof
      assume "states_in (fst (gotInstallSeqQuorum ?isq ?s2)) = []"
      then show thesis using m ph tr(1) eff(1,3) st sn by (intro skip [of m ms]) auto
    next
      assume *: "states_in (fst (gotInstallSeqQuorum ?isq ?s2)) = [(is_InstallView ?isq, syncStateMsg_of ?isq ?s2)] \<and>
        HasMember (is_AssociatedView ?isq) (thisProcess ?s2) \<and>
        (MoreUpdatedThan (is_InstallView ?isq) (currentView ?s2) \<longrightarrow>
           installPhase (snd (gotInstallSeqQuorum ?isq ?s2)) \<noteq> Receiving)"
      show thesis using m ph tr(1) eff(1,3) st sn * msg by (intro sends [of m ms]) auto
    qed
  qed
qed

text \<open>Installing: the register becomes the accumulated state of the old view.\<close>

lemma suq_lookup_create:
  assumes "getOrCreateStateUpdateQuorum qs v = (i, qs1)" "wf_suqs qs" "wf_view v" "wf_view u"
  shows "suq_lookup qs1 u = suq_lookup qs u \<and> qs1 ! i = suq_lookup qs v"
proof -
  have "suq_lookup (qs @ [new_stateUpdateQuorum v]) u = suq_lookup qs u"
    using assms(2-4) by (induction qs) (auto simp: suq_lookup_simps new_stateUpdateQuorum_def)
  with assms(1) show ?thesis
    by (auto simp: suq_lookup_def getOrCreateStateUpdateQuorum_def split: option.splits)
qed

lemma syncStateReady_effect:
  assumes "server_inv s"
  obtains (idle) "states_in (fst (syncStateReady s)) = []"
      "transfer_of (snd (syncStateReady s)) =
         transfer_of (s\<lparr>stateUpdateQuorumCounterList := stateUpdateQuorumCounterList (snd (syncStateReady s))\<rparr>)"
      "\<forall>u. wf_view u \<longrightarrow> suq_lookup (stateUpdateQuorumCounterList (snd (syncStateReady s))) u =
         suq_lookup (stateUpdateQuorumCounterList s) u"
      "installPhase (snd (syncStateReady s)) = installPhase s"
  | (installs) isq st where "installPhase s = WaitingState isq"
      "resultChan (suq_lookup (stateUpdateQuorumCounterList s) (is_AssociatedView isq)) = Some st"
      "states_in (fst (syncStateReady s)) = []"
      "currentView (snd (syncStateReady s)) = is_InstallView isq"
      "Timestamp (register (snd (syncStateReady s))) = Timestamp (finalValue st)"
      "syncStateMsgChan (snd (syncStateReady s)) = syncStateMsgChan s"
      "installSeqProcessingChan (snd (syncStateReady s)) = installSeqProcessingChan s"
      "\<forall>u. wf_view u \<longrightarrow> suq_lookup (stateUpdateQuorumCounterList (snd (syncStateReady s))) u =
         suq_lookup (stateUpdateQuorumCounterList s) u"
      "\<forall>i. installPhase (snd (syncStateReady s)) \<noteq> WaitingState i"
proof (cases "\<exists>isq. installPhase s = WaitingState isq")
  case False
  then have "syncStateReady s = ([], s)" by (auto simp: syncStateReady_def split: installPhase.split)
  then show thesis by (intro idle) simp_all
next
  case True
  then obtain isq where isq: "installPhase s = WaitingState isq" by blast
  have good: "good_isq isq" and newer: "MoreUpdatedThan (is_InstallView isq) (currentView s)"
    using assms isq by (simp_all add: server_inv_def)
  obtain i qs where qs: "getOrCreateStateUpdateQuorum (stateUpdateQuorumCounterList s) (is_AssociatedView isq) = (i, qs)"
    by fastforce
  let ?s1 = "s\<lparr>stateUpdateQuorumCounterList := qs\<rparr>"
  have wf: "wf_suqs (stateUpdateQuorumCounterList s)"
    using assms by (auto simp: server_inv_def chan_inv_def suq_ok_def)
  have look: "\<forall>u. wf_view u \<longrightarrow> suq_lookup qs u = suq_lookup (stateUpdateQuorumCounterList s) u"
    and at: "qs ! i = suq_lookup (stateUpdateQuorumCounterList s) (is_AssociatedView isq)"
    using suq_lookup_create [OF qs wf] good by (auto simp: good_isq_def)
  have req: "requestStateChan (is_AssociatedView isq) s = (resultChan (qs ! i), ?s1)"
    using qs by (simp add: requestStateChan_def)
  show thesis
  proof (cases "resultChan (qs ! i)")
    case None
    then have "syncStateReady s = ([], ?s1)" using isq req by (simp add: syncStateReady_def)
    then show thesis using look isq by (intro idle) simp_all
  next
    case (Some st)
    then have r: "syncStateReady s = afterSync isq (apply_state st isq ?s1)"
      using isq req by (simp add: syncStateReady_def)
    have ap: "syncStateMsgChan (apply_state st isq ?s1) = syncStateMsgChan s"
      "installSeqProcessingChan (apply_state st isq ?s1) = installSeqProcessingChan s"
      "stateUpdateQuorumCounterList (apply_state st isq ?s1) = qs"
      "Timestamp (register (apply_state st isq ?s1)) = Timestamp (finalValue st)"
      "currentView (apply_state st isq ?s1) = currentView s"
      by (simp_all add: apply_state_def Let_def)
    have as: "syncStateMsgChan (snd (afterSync isq x)) = syncStateMsgChan x"
      "installSeqProcessingChan (snd (afterSync isq x)) = installSeqProcessingChan x"
      "stateUpdateQuorumCounterList (snd (afterSync isq x)) = stateUpdateQuorumCounterList x"
      "register (snd (afterSync isq x)) = register x" "states_in (fst (afterSync isq x)) = []"
      "\<forall>i. installPhase (snd (afterSync isq x)) \<noteq> WaitingState i" for x :: "'a Server"
      by (simp_all add: afterSync_def updateCurrentViewLocked_def installOthersViewsFromViewSeqLocked_def Let_def)
    show thesis
      using isq Some at look newer
      by (intro installs [of isq st])
        (simp_all add: r as ap afterSync_frame updateCurrentViewLocked_def del: MoreUpdatedThan_wf_iff)
  qed
qed

section \<open>The invariant\<close>

text \<open>
  \<open>backed h w t\<close>: the view \<open>w\<close> is the first one, or a quorum of the view before it handed over
  timestamps that are not newer than \<open>t\<close>.
\<close>

definition backed ::
    "(View \<Rightarrow> View option) \<Rightarrow> View \<Rightarrow> (View \<Rightarrow> Process \<Rightarrow> int option) \<Rightarrow> View \<Rightarrow> int \<Rightarrow> bool" where
  "backed parent v0 h w t \<longleftrightarrow> w = v0 \<or>
     (\<exists>v S. parent w = Some v \<and> S \<subseteq> Members v \<and> QuorumSize v \<le> card S \<and>
        (\<forall>q \<in> S. \<exists>t'. h v q = Some t' \<and> t' \<le> t))"

definition node_ok :: "(View \<Rightarrow> View option) \<Rightarrow> Process \<Rightarrow> 'a Server \<Rightarrow> bool" where
  "node_ok parent p s \<longleftrightarrow> server_inv s \<and> thisProcess s = p \<and>
     (\<forall>m \<in> set (installSeqProcessingChan s). planned parent (ism_InstallSeq m)) \<and>
     (\<forall>isq. installPhase s = WaitingState isq \<longrightarrow> planned parent isq \<and> p \<in> Members (is_InstallView isq))"

definition feed_ok :: "(Process \<times> 'a SyncStateMsg) list \<Rightarrow> 'a Server \<Rightarrow> bool" where
  "feed_ok rs s \<longleftrightarrow> (\<exists>taken todo. rs = taken @ todo \<and> syncStateMsgChan s = map snd todo \<and>
     (\<forall>v. wf_view v \<longrightarrow> suq_lookup (stateUpdateQuorumCounterList s) v =
        accumulate v (filter (\<lambda>m. ssm_AssociatedView m = v) (map snd taken))))"

definition mail_ok :: "(View \<Rightarrow> Process \<Rightarrow> int option) \<Rightarrow> (Process \<times> 'a SyncStateMsg) list \<Rightarrow> bool" where
  "mail_ok h rs \<longleftrightarrow> distinct (map (\<lambda>(q, m). (q, ssm_AssociatedView m)) rs) \<and>
     (\<forall>(q, m) \<in> set rs. good_ssm m \<and> q \<in> Members (ssm_AssociatedView m) \<and>
        h (ssm_AssociatedView m) q = Some (ssm_Timestamp m))"

definition past_ok ::
    "(View \<Rightarrow> View option) \<Rightarrow> View \<Rightarrow> (View \<Rightarrow> Process \<Rightarrow> int option) \<Rightarrow> Process \<Rightarrow> 'a Server \<Rightarrow> bool" where
  "past_ok parent v0 h p s \<longleftrightarrow>
     (\<forall>v t. h v p = Some t \<longrightarrow> backed parent v0 h v t \<and>
        (Entries v \<subset> Entries (currentView s) \<or> v = currentView s \<and> installPhase s \<noteq> Receiving)) \<and>
     (p \<in> Members (currentView s) \<longrightarrow> backed parent v0 h (currentView s) (Timestamp (register s)))"

definition acks_ok ::
    "(View \<Rightarrow> Process \<Rightarrow> int option) \<Rightarrow> (View \<times> Process \<times> int) set \<Rightarrow> Process \<Rightarrow> 'a Server \<Rightarrow> bool" where
  "acks_ok h A p s \<longleftrightarrow> (\<forall>v t. (v, p, t) \<in> A \<longrightarrow>
     (case h v p of
        Some t' \<Rightarrow> t \<le> t'
      | None \<Rightarrow> currentView s = v \<and> t \<le> Timestamp (register s) \<or> Entries v \<subset> Entries (currentView s)))"

definition node_inv ::
    "(View \<Rightarrow> View option) \<Rightarrow> View \<Rightarrow> (View \<Rightarrow> Process \<Rightarrow> int option) \<Rightarrow> (View \<times> Process \<times> int) set \<Rightarrow>
     (Process \<times> 'a SyncStateMsg) list \<Rightarrow> Process \<Rightarrow> 'a Server \<Rightarrow> bool" where
  "node_inv parent v0 h A rs p s \<longleftrightarrow>
     node_ok parent p s \<and> feed_ok rs s \<and> past_ok parent v0 h p s \<and> acks_ok h A p s"

definition sys_inv :: "(View \<Rightarrow> View option) \<Rightarrow> View \<Rightarrow> 'a system \<Rightarrow> bool" where
  "sys_inv parent v0 \<sigma> \<longleftrightarrow>
     (\<forall>p. node_inv parent v0 (handed \<sigma>) (acked \<sigma>) (received \<sigma> p) p (node \<sigma> p) \<and>
        mail_ok (handed \<sigma>) (received \<sigma> p @ flight \<sigma> p))"

definition grows :: "(View \<Rightarrow> Process \<Rightarrow> int option) \<Rightarrow> (View \<Rightarrow> Process \<Rightarrow> int option) \<Rightarrow> bool" where
  "grows h h' \<longleftrightarrow> (\<forall>v q x. h v q = Some x \<longrightarrow> h' v q = Some x)"

lemma grows_refl [simp]: "grows h h"
  by (simp add: grows_def)

lemma backed_mono:
  assumes "backed parent v0 h w t" "t \<le> t'" "grows h h'"
  shows "backed parent v0 h' w t'"
  using assms unfolding backed_def grows_def by (meson order_trans)

lemma accumulate_ge:
  "m \<in> set ms \<Longrightarrow> ssm_Timestamp m \<le> Timestamp (finalValue (suq_State (accumulate av ms)))"
  using acc.stamp_fold_Max [of "new_stateUpdateQuorum av" ms] by simp

text \<open>The state that a server installs comes from a quorum of distinct senders.\<close>

lemma installed_state_backed:
  assumes "feed_ok rs s" "mail_ok h (rs @ xs)" "wf_view v" "parent w = Some v"
    and "resultChan (suq_lookup (stateUpdateQuorumCounterList s) v) = Some st"
  shows "backed parent v0 h w (Timestamp (finalValue st))"
proof -
  obtain taken todo where rs: "rs = taken @ todo" and
    look: "suq_lookup (stateUpdateQuorumCounterList s) v =
      accumulate v (filter (\<lambda>m. ssm_AssociatedView m = v) (map snd taken))"
    using assms(1,3) unfolding feed_ok_def by blast
  let ?f = "filter (\<lambda>x. ssm_AssociatedView (snd x) = v) taken"
  let ?k = "take (QuorumSize v) ?f"
  have ms: "filter (\<lambda>m. ssm_AssociatedView m = v) (map snd taken) = map snd ?f"
    by (simp add: filter_map o_def)
  have res: "resultChan (accumulate v (map snd ?f)) = Some st" using assms(5) look ms by simp
  have all: "\<forall>m \<in> set (map snd ?f). ssm_AssociatedView m = v" by auto
  from accumulate_result [OF all] res have len: "QuorumSize v \<le> length ?f"
    and st: "st = State_NewCopy (suq_State (accumulate v (map snd ?k)))"
    by (auto simp: take_map split: if_splits)
  have mail: "distinct (map (\<lambda>(q, m). (q, ssm_AssociatedView m)) taken)"
    "\<forall>(q, m) \<in> set taken. q \<in> Members (ssm_AssociatedView m) \<and>
       h (ssm_AssociatedView m) q = Some (ssm_Timestamp m)"
    using assms(2) rs by (auto simp: mail_ok_def)
  have sub: "set ?k \<subseteq> {(q, m). (q, m) \<in> set taken \<and> ssm_AssociatedView m = v}"
    by (auto dest!: in_set_takeD)
  have "distinct (map (\<lambda>(q, m). (q, ssm_AssociatedView m)) ?f)"
    using mail(1) by (rule distinct_map_filter)
  then have "distinct (map (\<lambda>(q, m). (q, ssm_AssociatedView m)) ?k)"
    by (simp add: take_map [symmetric])
  moreover have "map (\<lambda>(q, m). (q, ssm_AssociatedView m)) ?k = map (\<lambda>q. (q, v)) (map fst ?k)"
    using sub by auto
  ultimately have "distinct (map fst ?k)" by (metis distinct_map)
  then have "card (fst ` set ?k) = length ?k" by (metis distinct_card length_map list.set_map)
  then have "QuorumSize v \<le> card (fst ` set ?k)" using len by simp
  moreover have "q \<in> Members v \<and> (\<exists>t'. h v q = Some t' \<and> t' \<le> Timestamp (finalValue st))"
    if "q \<in> fst ` set ?k" for q
  proof -
    obtain m where m: "(q, m) \<in> set ?k" using \<open>q \<in> fst ` set ?k\<close> by auto
    then have "q \<in> Members v" "h v q = Some (ssm_Timestamp m)" using sub mail(2) by blast+
    moreover have "ssm_Timestamp m \<le> Timestamp (finalValue st)"
      using accumulate_ge [of m "map snd ?k" v] m by (force simp: st State_NewCopy_eq)
    ultimately show ?thesis by blast
  qed
  ultimately show ?thesis
    unfolding backed_def using assms(4) by (intro disjI2 exI [of _ v] exI [of _ "fst ` set ?k"]) blast
qed

section \<open>The parts of the invariant, step by step\<close>

lemma past_keep:
  assumes "past_ok parent v0 h p s" "currentView t = currentView s"
    "Timestamp (register s) \<le> Timestamp (register t)"
    "installPhase t = Receiving \<Longrightarrow> installPhase s = Receiving"
  shows "past_ok parent v0 h p t"
  using assms backed_mono [of parent v0 h "currentView s" "Timestamp (register s)" "Timestamp (register t)" h]
  by (auto simp: past_ok_def)

lemma past_grow:
  assumes "past_ok parent v0 h p s" "grows h h'" "\<forall>v. h' v p = h v p"
  shows "past_ok parent v0 h' p s"
proof -
  have "backed parent v0 h w x \<Longrightarrow> backed parent v0 h' w x" for w x
    using backed_mono [OF _ order_refl assms(2)] by blast
  then show ?thesis using assms(1,3) by (auto simp: past_ok_def)
qed

lemma past_install:
  assumes "past_ok parent v0 h p s" "Entries (currentView s) \<subset> Entries (currentView t)"
    "backed parent v0 h (currentView t) (Timestamp (register t))"
  shows "past_ok parent v0 h p t"
  using assms unfolding past_ok_def by (metis psubset_trans)

lemma past_hand:
  assumes "past_ok parent v0 h p s" "installPhase s = Receiving" "p \<in> Members (currentView s)"
    "currentView t = currentView s" "register t = register s" "installPhase t \<noteq> Receiving"
    "h' = (\<lambda>v q. if v = currentView s \<and> q = p then Some (Timestamp (register s)) else h v q)"
  shows "past_ok parent v0 h' p t" "grows h h'" "h (currentView s) p = None"
proof -
  show "h (currentView s) p = None"
    using assms(1,2) by (cases "h (currentView s) p") (auto simp: past_ok_def)
  then show grow: "grows h h'" by (auto simp: assms(7) grows_def)
  have mono: "backed parent v0 h w x \<Longrightarrow> backed parent v0 h' w x" for w x
    using backed_mono [OF _ order_refl grow] by blast
  have own: "backed parent v0 h' (currentView s) (Timestamp (register s))"
    using assms(1,3) mono by (simp add: past_ok_def)
  have "backed parent v0 h' v x \<and>
      (Entries v \<subset> Entries (currentView s) \<or> v = currentView s)" if "h' v p = Some x" for v x
  proof (cases "v = currentView s")
    case False
    then have "h v p = Some x" using that by (simp add: assms(7))
    then show ?thesis using assms(1) mono unfolding past_ok_def by blast
  qed (use that own in \<open>simp add: assms(7)\<close>)
  then show "past_ok parent v0 h' p t"
    using assms(4-6) own by (simp add: past_ok_def)
qed

lemma acks_keep:
  assumes "acks_ok h A p s" "currentView t = currentView s" "Timestamp (register s) \<le> Timestamp (register t)"
  shows "acks_ok h A p t"
  using assms unfolding acks_ok_def by (fastforce split: option.splits)

lemma acks_install:
  assumes "acks_ok h A p s" "Entries (currentView s) \<subset> Entries (currentView t)"
  shows "acks_ok h A p t"
  using assms unfolding acks_ok_def by (fastforce split: option.splits)

lemma acks_hand:
  assumes "acks_ok h A p s" "currentView t = currentView s" "register t = register s"
    "h' = (\<lambda>v q. if v = currentView s \<and> q = p then Some (Timestamp (register s)) else h v q)"
    "h (currentView s) p = None"
  shows "acks_ok h' A p t"
  using assms unfolding acks_ok_def by (fastforce split: option.splits)

lemma acks_more:
  assumes "acks_ok h A p s" "\<And>v t. (v, p, t) \<in> B \<Longrightarrow> v = currentView s \<and> t \<le> Timestamp (register s) \<and> h v p = None"
  shows "acks_ok h (A \<union> B) p s"
  using assms unfolding acks_ok_def by fastforce

lemma node_keep:
  assumes "node_inv parent v0 h A rs p s" "node_ok parent p t" "feed_ok rs' t"
    "currentView t = currentView s" "Timestamp (register s) \<le> Timestamp (register t)"
    "installPhase t = Receiving \<Longrightarrow> installPhase s = Receiving"
  shows "node_inv parent v0 h A rs' p t"
  using assms past_keep [of parent v0 h p s t] acks_keep [of h A p s t] by (simp add: node_inv_def)

lemma acks_cong: "\<forall>v. h' v p = h v p \<Longrightarrow> acks_ok h' A p s = acks_ok h A p s"
  by (simp add: acks_ok_def)

lemma ack_of_process: "(v, q, t) \<in> ack_of p e s \<Longrightarrow> q = p"
  by (induction p e s rule: ack_of.induct) (auto split: prod.splits rpc.splits if_splits)

lemma mail_grow:
  "mail_ok h rs \<Longrightarrow> grows h h' \<Longrightarrow> mail_ok h' rs"
  by (fastforce simp: mail_ok_def grows_def)

lemma mail_append:
  assumes "mail_ok h rs" "good_ssm m" "p \<in> Members (ssm_AssociatedView m)"
    "h (ssm_AssociatedView m) p = None" "h' (ssm_AssociatedView m) p = Some (ssm_Timestamp m)"
    "grows h h'"
  shows "mail_ok h' (rs @ [(p, m)])"
proof -
  have "(p, ssm_AssociatedView m) \<notin> set (map (\<lambda>(q, m). (q, ssm_AssociatedView m)) rs)"
    using assms(1,4) by (fastforce simp: mail_ok_def)
  with mail_grow [OF assms(1,6)] assms(2,3,5) show ?thesis by (auto simp: mail_ok_def)
qed

lemma mail_deliver:
  assumes "mail_ok h (rs @ fs)" "(q, m) \<in> set fs"
  shows "mail_ok h ((rs @ [(q, m)]) @ remove1 (q, m) fs)"
proof -
  obtain xs ys where "fs = xs @ (q, m) # ys" "(q, m) \<notin> set xs"
    using split_list_first [OF assms(2)] by blast
  then show ?thesis using assms(1) by (auto simp: mail_ok_def remove1_append)
qed

lemma feed_keep:
  "feed_ok rs s \<Longrightarrow> syncStateMsgChan t = syncStateMsgChan s \<Longrightarrow>
   (\<And>v. wf_view v \<Longrightarrow> suq_lookup (stateUpdateQuorumCounterList t) v =
      suq_lookup (stateUpdateQuorumCounterList s) v) \<Longrightarrow> feed_ok rs t"
  by (auto simp: feed_ok_def)

lemma feed_receive: "feed_ok rs s \<Longrightarrow> feed_ok (rs @ [(q, m)]) (StateUpdate m s)"
  unfolding feed_ok_def StateUpdate_def
  by (auto, metis append.assoc list.simps(8,9) map_append snd_conv)

lemma feed_take:
  assumes "feed_ok rs s" "server_inv s"
  shows "feed_ok rs (snd (stateUpdateProcessing s))"
proof (cases "syncStateMsgChan s")
  case (Cons m ms)
  obtain taken todo where rs: "rs = taken @ todo" "syncStateMsgChan s = map snd todo" and
    look: "\<forall>v. wf_view v \<longrightarrow> suq_lookup (stateUpdateQuorumCounterList s) v =
      accumulate v (filter (\<lambda>m. ssm_AssociatedView m = v) (map snd taken))"
    using assms(1) unfolding feed_ok_def by blast
  obtain x todo1 where todo: "todo = x # todo1" "m = snd x" "ms = map snd todo1"
    using rs(2) Cons by auto
  have wf: "wf_view (ssm_AssociatedView m)" "wf_suqs (stateUpdateQuorumCounterList s)"
    using assms(2) Cons by (auto simp: server_inv_def chan_inv_def good_ssm_def suq_ok_def)
  have t: "snd (stateUpdateProcessing s) =
      s\<lparr>syncStateMsgChan := ms, stateUpdateQuorumCounterList := suq_count (stateUpdateQuorumCounterList s) m\<rparr>"
    using Cons by (simp add: stateUpdateProcessing_def suq_count_def split: prod.split)
  show ?thesis
    unfolding feed_ok_def t
    by (rule exI [of _ "taken @ [x]"], rule exI [of _ todo1])
      (use rs todo look wf in \<open>auto simp: suq_lookup_count\<close>)
qed (use assms in \<open>simp add: stateUpdateProcessing_def\<close>)

section \<open>Every step keeps the invariant\<close>

lemma hand_over_simps:
  "states_in out = [] \<Longrightarrow> hand_over p out h = h"
  "states_in out = [(w, m)] \<Longrightarrow> hand_over p out h =
     (\<lambda>v q. if v = ssm_AssociatedView m \<and> q = p then Some (ssm_Timestamp m) else h v q)"
  by (simp_all add: hand_over_def)

lemma states_to_simps:
  "states_in out = [] \<Longrightarrow> states_to d out = []"
  "states_in out = [(w, m)] \<Longrightarrow> states_to d out = (if d \<in> set (GetMembers w) then [m] else [])"
  by (simp_all add: states_to_def)

lemma act_silent:
  assumes "sys_inv parent v0 \<sigma>" "live_step e (node \<sigma> p) = (out, s)" "states_in out = []"
    and "node_inv parent v0 (handed \<sigma>) (acked \<sigma>) (received \<sigma> p) p s"
    and "\<And>v t. (v, p, t) \<in> ack_of p e (node \<sigma> p) \<Longrightarrow>
      v = currentView s \<and> t \<le> Timestamp (register s) \<and> handed \<sigma> v p = None"
  shows "sys_inv parent v0 (act p e \<sigma>)"
proof -
  have "acks_ok (handed \<sigma>) (acked \<sigma> \<union> ack_of p e (node \<sigma> p)) q (if q = p then s else node \<sigma> q)" for q
  proof (rule acks_more)
    show "acks_ok (handed \<sigma>) (acked \<sigma>) q (if q = p then s else node \<sigma> q)"
      using assms(1,4) by (simp add: sys_inv_def node_inv_def)
  qed (use assms(5) ack_of_process in fastforce)
  then show ?thesis
    using assms(1-4) by (simp add: sys_inv_def node_inv_def act_def hand_over_simps states_to_simps)
qed

lemma act_sends:
  fixes m :: "'a SyncStateMsg"
  assumes "sys_inv parent v0 \<sigma>" "live_step e (node \<sigma> p) = (out, s)" "states_in out = [(w, m)]"
    and "installPhase (node \<sigma> p) = Receiving" "p \<in> Members (currentView (node \<sigma> p))"
    and "ssm_AssociatedView m = currentView (node \<sigma> p)" "ssm_Timestamp m = Timestamp (register (node \<sigma> p))"
    and "good_ssm m" "currentView s = currentView (node \<sigma> p)" "register s = register (node \<sigma> p)"
      "installPhase s \<noteq> Receiving" "node_ok parent p s" "feed_ok (received \<sigma> p) s"
    and "ack_of p e (node \<sigma> p) = {}"
  shows "sys_inv parent v0 (act p e \<sigma>)"
proof -
  let ?h = "handed \<sigma>" and ?h' = "hand_over p out (handed \<sigma>)"
  have inv: "node_inv parent v0 ?h (acked \<sigma>) (received \<sigma> q) q (node \<sigma> q)"
    "mail_ok ?h (received \<sigma> q @ flight \<sigma> q)" for q
    using assms(1) by (simp_all add: sys_inv_def)
  have h': "?h' = (\<lambda>v q. if v = currentView (node \<sigma> p) \<and> q = p
      then Some (Timestamp (register (node \<sigma> p))) else ?h v q)"
    unfolding hand_over_simps(2) [OF assms(3)] assms(6,7) ..
  have "past_ok parent v0 ?h p (node \<sigma> p)" using inv(1) by (simp add: node_inv_def)
  note past = past_hand [OF this assms(4,5,9,10,11) h']
  have own: "node_inv parent v0 ?h' (acked \<sigma>) (received \<sigma> p) p s"
    using past acks_hand [OF _ assms(9,10) h' past(3)] inv(1) [of p] assms(12,13)
    by (simp add: node_inv_def)
  have others: "node_inv parent v0 ?h' (acked \<sigma>) (received \<sigma> q) q (node \<sigma> q)" if "q \<noteq> p" for q
  proof -
    have same: "\<forall>v. ?h' v q = ?h v q" using that by (simp add: h')
    show ?thesis
      using inv(1) [of q]
      by (simp add: node_inv_def past_grow [OF _ past(2) same] acks_cong [of ?h' q ?h, OF same])
  qed
  have "mail_ok ?h' ((received \<sigma> d @ flight \<sigma> d) @ [(p, m)])" for d
    by (rule mail_append [OF inv(2) assms(8)]) (use assms(5-7) past in \<open>simp_all add: h'\<close>)
  then have "mail_ok ?h' (received \<sigma> d @ flight \<sigma> d @ map (Pair p) (states_to d out))" for d
    using mail_grow [OF inv(2) past(2)] states_to_simps(2) [OF assms(3)] by simp
  then show ?thesis
    using own others assms(2,14) by (simp add: sys_inv_def act_def)
qed

lemma deliver_inv:
  assumes "sys_inv parent v0 \<sigma>" "(q, m) \<in> set (flight \<sigma> p)"
  shows "sys_inv parent v0 (deliver p q m \<sigma>)"
proof -
  have inv: "node_inv parent v0 (handed \<sigma>) (acked \<sigma>) (received \<sigma> p) p (node \<sigma> p)"
    "mail_ok (handed \<sigma>) (received \<sigma> p @ flight \<sigma> p)"
    using assms(1) by (simp_all add: sys_inv_def)
  have "good_ssm m" using inv(2) assms(2) by (auto simp: mail_ok_def)
  then have "server_inv (StateUpdate m (node \<sigma> p))"
    using inv(1) by (simp add: node_inv_def node_ok_def requests_inv)
  then have ok: "node_ok parent p (StateUpdate m (node \<sigma> p))"
    using inv(1) by (simp add: node_inv_def node_ok_def) (simp add: StateUpdate_def)
  have feed: "feed_ok (received \<sigma> p @ [(q, m)]) (StateUpdate m (node \<sigma> p))"
    using inv(1) by (simp add: node_inv_def feed_receive)
  have "node_inv parent v0 (handed \<sigma>) (acked \<sigma>) (received \<sigma> p @ [(q, m)]) p (StateUpdate m (node \<sigma> p))"
    by (rule node_keep [OF inv(1) ok feed]) (simp_all add: StateUpdate_def)
  then show ?thesis
    using assms(1) mail_deliver [OF inv(2) assms(2)] by (simp add: sys_inv_def deliver_def)
qed

text \<open>The six kinds of steps.\<close>

lemma transfer_ofD:
  assumes "transfer_of t = transfer_of s"
  shows "currentView t = currentView s" "register t = register s" "syncStateMsgChan t = syncStateMsgChan s"
    "stateUpdateQuorumCounterList t = stateUpdateQuorumCounterList s"
    "installSeqProcessingChan t = installSeqProcessingChan s"
  using assms by (simp_all add: transfer_of_def)

lemma live_step_process: "thisProcess (snd (live_step e s)) = thisProcess s"
  using live_step_frame [of e s] syncStateReady_frame [of s] by (cases "e = StateReady") auto

lemma live_node_ok:
  assumes "node_ok parent p s" "good_event e"
    and "set (installSeqProcessingChan (snd (live_step e s))) \<subseteq> set (installSeqProcessingChan s)"
    and "\<And>isq. installPhase (snd (live_step e s)) = WaitingState isq \<Longrightarrow>
      installPhase s = WaitingState isq \<or> planned parent isq \<and> p \<in> Members (is_InstallView isq)"
  shows "node_ok parent p (snd (live_step e s))"
  using assms live_step_inv [of s e] live_step_process [of e s] by (auto simp: node_ok_def)

lemma act_quiet:
  assumes "sys_inv parent v0 \<sigma>" "quiet e" "good_event e"
  shows "sys_inv parent v0 (act p e \<sigma>)"
proof -
  let ?s = "node \<sigma> p" and ?t = "snd (live_step e (node \<sigma> p))"
  have inv: "node_inv parent v0 (handed \<sigma>) (acked \<sigma>) (received \<sigma> p) p ?s"
    using assms(1) by (simp add: sys_inv_def)
  have calm: "calm (live_step e ?s) ?s" using quiet_calm [OF assms(2)] .
  then have tr: "transfer_of ?t = transfer_of ?s" and st: "states_in (fst (live_step e ?s)) = []"
    by (simp_all add: calm_def)
  note tr = transfer_ofD [OF tr]
  have ok: "node_ok parent p ?t"
    by (rule live_node_ok) (use inv assms(3) tr calm in \<open>auto simp: node_inv_def calm_def\<close>)
  have "node_inv parent v0 (handed \<sigma>) (acked \<sigma>) (received \<sigma> p) p ?t"
    by (rule node_keep [OF inv ok]) (use inv tr calm in \<open>auto simp: node_inv_def feed_ok_def calm_def\<close>)
  moreover have "ack_of p e ?s = {}" using assms(2) by (cases e) auto
  ultimately show ?thesis using act_silent [OF assms(1), of e p "fst (live_step e ?s)" ?t] st by simp
qed

lemma act_write:
  assumes "sys_inv parent v0 \<sigma>"
  shows "sys_inv parent v0 (act p (WriteReq w) \<sigma>)"
proof -
  let ?s = "node \<sigma> p" and ?t = "snd (live_step (WriteReq w) (node \<sigma> p))"
  have inv: "node_inv parent v0 (handed \<sigma>) (acked \<sigma>) (received \<sigma> p) p ?s"
    using assms by (simp add: sys_inv_def)
  have eff: "installSeqProcessingChan ?t = installSeqProcessingChan ?s" "installPhase ?t = installPhase ?s"
    "syncStateMsgChan ?t = syncStateMsgChan ?s"
    "stateUpdateQuorumCounterList ?t = stateUpdateQuorumCounterList ?s"
    "currentView ?t = currentView ?s" "Timestamp (register ?s) \<le> Timestamp (register ?t)"
    by (simp_all add: RegisterService_Write_def hold_view_def reg.stamp_put)
  have ok: "node_ok parent p ?t"
    by (rule live_node_ok) (use inv eff in \<open>auto simp: node_inv_def\<close>)
  have t: "node_inv parent v0 (handed \<sigma>) (acked \<sigma>) (received \<sigma> p) p ?t"
    by (rule node_keep [OF inv ok]) (use inv eff in \<open>simp_all add: node_inv_def feed_ok_def\<close>)
  have none: "handed \<sigma> (currentView ?s) p = None" if "installPhase ?s = Receiving"
    using inv that by (cases "handed \<sigma> (currentView ?s) p") (auto simp: node_inv_def past_ok_def)
  show ?thesis
  proof (rule act_silent [OF assms surjective_pairing _ t])
    fix v x assume "(v, p, x) \<in> ack_of p (WriteReq w) ?s"
    then show "v = currentView ?t \<and> x \<le> Timestamp (register ?t) \<and> handed \<sigma> v p = None"
      using none by (auto simp: RegisterService_Write_def hold_view_def reg.stamp_put old_view_reply_def
          split: if_splits)
  qed (simp_all add: case_prod_beta)
qed

lemma act_request:
  assumes "sys_inv parent v0 \<sigma>" "good_event (InstallSeqReq m :: 'a event)" "planned parent (ism_InstallSeq m)"
  shows "sys_inv parent v0 (act p (InstallSeqReq m) (\<sigma> :: 'a system))"
proof -
  let ?s = "node \<sigma> p" and ?t = "InstallSeqRequest m (node \<sigma> p)"
  have inv: "node_inv parent v0 (handed \<sigma>) (acked \<sigma>) (received \<sigma> p) p ?s"
    using assms(1) by (simp add: sys_inv_def)
  have "server_inv ?t" using inv assms(2) by (simp add: node_inv_def node_ok_def requests_inv)
  then have ok: "node_ok parent p ?t"
    using inv assms(3) by (simp add: node_inv_def node_ok_def) (simp add: InstallSeqRequest_def)
  have "node_inv parent v0 (handed \<sigma>) (acked \<sigma>) (received \<sigma> p) p ?t"
    by (rule node_keep [OF inv ok])
      (use inv in \<open>simp_all add: node_inv_def feed_ok_def InstallSeqRequest_def\<close>)
  from act_silent [OF assms(1) _ _ this, of "InstallSeqReq m" "[]"] show ?thesis by simp
qed

lemma act_take:
  assumes "sys_inv parent v0 \<sigma>"
  shows "sys_inv parent v0 (act p TakeStateUpdate \<sigma>)"
proof -
  let ?s = "node \<sigma> p" and ?t = "snd (stateUpdateProcessing (node \<sigma> p))"
  have inv: "node_inv parent v0 (handed \<sigma>) (acked \<sigma>) (received \<sigma> p) p ?s"
    using assms by (simp add: sys_inv_def)
  then have s: "server_inv ?s" "feed_ok (received \<sigma> p) ?s" by (simp_all add: node_inv_def node_ok_def)
  have eff: "installSeqProcessingChan ?t = installSeqProcessingChan ?s" "installPhase ?t = installPhase ?s"
    "currentView ?t = currentView ?s" "register ?t = register ?s" "fst (stateUpdateProcessing ?s) = []"
    by (simp_all add: stateUpdateProcessing_def case_prod_beta split: list.split)
  have "node_ok parent p (snd (live_step TakeStateUpdate ?s))"
    by (rule live_node_ok) (use inv eff in \<open>auto simp: node_inv_def\<close>)
  then have "node_inv parent v0 (handed \<sigma>) (acked \<sigma>) (received \<sigma> p) p ?t"
    using eff feed_take [OF s(2,1)] by (intro node_keep [OF inv]) simp_all
  from act_silent [OF assms _ _ this, of TakeStateUpdate "fst (stateUpdateProcessing ?s)"]
  show ?thesis using eff(5) by (simp add: prod_eq_iff)
qed

lemma act_ready:
  assumes "sys_inv parent v0 \<sigma>"
  shows "sys_inv parent v0 (act p StateReady \<sigma>)"
proof -
  let ?s = "node \<sigma> p" and ?t = "snd (syncStateReady (node \<sigma> p))"
  have inv: "node_inv parent v0 (handed \<sigma>) (acked \<sigma>) (received \<sigma> p) p ?s"
    and mail: "mail_ok (handed \<sigma>) (received \<sigma> p @ flight \<sigma> p)"
    using assms by (simp_all add: sys_inv_def)
  then have s: "server_inv ?s" "node_ok parent p ?s" "feed_ok (received \<sigma> p) ?s"
    by (simp_all add: node_inv_def node_ok_def)
  have "states_in (fst (syncStateReady ?s)) = [] \<and>
      node_inv parent v0 (handed \<sigma>) (acked \<sigma>) (received \<sigma> p) p ?t"
  proof (rule syncStateReady_effect [OF s(1)], goal_cases)
    case 1
    note tr = transfer_ofD [OF 1(2), simplified]
    have "node_ok parent p (snd (live_step StateReady ?s))"
      by (rule live_node_ok) (use s(2) tr 1(4) in auto)
    then have "node_inv parent v0 (handed \<sigma>) (acked \<sigma>) (received \<sigma> p) p ?t"
      using tr 1(3,4) feed_keep [OF s(3), of ?t] by (intro node_keep [OF inv]) simp_all
    with 1(1) show ?case by simp
  next
    case (2 isq st)
    have plan: "planned parent isq" "good_isq isq" "MoreUpdatedThan (is_InstallView isq) (currentView ?s)"
      using s 2(1) by (simp_all add: node_ok_def server_inv_def)
    have "node_ok parent p (snd (live_step StateReady ?s))"
      by (rule live_node_ok) (use s(2) 2 in auto)
    moreover have "feed_ok (received \<sigma> p) ?t" using feed_keep [OF s(3), of ?t] 2 by simp
    moreover have newer: "Entries (currentView ?s) \<subset> Entries (currentView ?t)"
      using plan s(1) 2(4) by (simp add: good_isq_def server_inv_def core_inv_def)
    moreover have "backed parent v0 (handed \<sigma>) (is_InstallView isq) (Timestamp (finalValue st))"
      using installed_state_backed [OF s(3) mail _ _ 2(2)] plan by (simp add: planned_def good_isq_def)
    then have "past_ok parent v0 (handed \<sigma>) p ?t"
      using past_install [of parent v0 "handed \<sigma>" p ?s ?t] inv newer 2(4,5) by (simp add: node_inv_def)
    ultimately show ?case
      using acks_install [of "handed \<sigma>" "acked \<sigma>" p ?s ?t] inv 2(3) by (simp add: node_inv_def)
  qed
  then show ?thesis
    using act_silent [OF assms, of StateReady p "fst (syncStateReady ?s)" ?t] by simp
qed

lemma install_seq_effect_ok:
  assumes "node_ok parent p s" "installSeqProcessingChan s = m # ms"
    and "transfer_of t = transfer_of (s\<lparr>installSeqProcessingChan := ms\<rparr>)"
    and "installPhase t = WaitingState (ism_InstallSeq m) \<longrightarrow>
      HasMember (is_InstallView (ism_InstallSeq m)) (thisProcess s)"
    and "\<forall>isq. installPhase t = WaitingState isq \<longrightarrow> isq = ism_InstallSeq m"
    and "t = snd (live_step TakeInstallSeq s)"
  shows "node_ok parent p t"
proof -
  have "planned parent isq \<and> p \<in> Members (is_InstallView isq)" if "installPhase t = WaitingState isq" for isq
    using assms(1,2,4,5) that by (simp add: node_ok_def HasMember_def)
  moreover have "installSeqProcessingChan t = ms" using transfer_ofD(5) [OF assms(3)] by simp
  ultimately show ?thesis
    unfolding assms(6) using assms(2) by (intro live_node_ok [OF assms(1)]) auto
qed

lemma act_install_seq:
  assumes "sys_inv parent v0 \<sigma>" "in_step (node \<sigma> p) (fst (live_step TakeInstallSeq (node \<sigma> p)))"
  shows "sys_inv parent v0 (act p TakeInstallSeq \<sigma>)"
proof -
  let ?s = "node \<sigma> p" and ?t = "snd (installSeqProcessing (node \<sigma> p))"
  let ?out = "fst (installSeqProcessing ?s)"
  have inv: "node_inv parent v0 (handed \<sigma>) (acked \<sigma>) (received \<sigma> p) p ?s"
    using assms(1) by (simp add: sys_inv_def)
  then have s: "server_inv ?s" "node_ok parent p ?s" "feed_ok (received \<sigma> p) ?s" "thisProcess ?s = p"
    by (simp_all add: node_inv_def node_ok_def)
  show ?thesis
  proof (rule installSeqProcessing_effect [of ?s], goal_cases)
    case 1
    then show ?case using act_silent [OF assms(1), of TakeInstallSeq p "[]" ?s] inv by simp
  next
    case (2 m ms)
    note tr = transfer_ofD [OF 2(4), simplified]
    have "node_ok parent p ?t" using install_seq_effect_ok [OF s(2) 2(1,4,5,6)] by simp
    then have "node_inv parent v0 (handed \<sigma>) (acked \<sigma>) (received \<sigma> p) p ?t"
      using tr 2(2) feed_keep [OF s(3), of ?t] by (intro node_keep [OF inv]) simp_all
    then show ?case using act_silent [OF assms(1), of TakeInstallSeq p ?out ?t] 2(3) by simp
  next
    case (3 m ms)
    let ?isq = "ism_InstallSeq m"
    note tr = transfer_ofD [OF 3(4), simplified]
    have plan: "planned parent ?isq" using s(2) 3(1) by (simp add: node_ok_def)
    have ok: "node_ok parent p ?t" using install_seq_effect_ok [OF s(2) 3(1,4,7,8)] by simp
    have av: "is_AssociatedView ?isq = currentView ?s"
      using assms(2) 3(3) by (simp add: in_step_def syncStateMsg_of_def)
    have good: "good_ssm (syncStateMsg_of ?isq ?s)"
      using syncStateMsg_good [OF s(1)] s(1) 3(1) by (simp add: server_inv_def chan_inv_def)
    have feed: "feed_ok (received \<sigma> p) ?t" using feed_keep [OF s(3), of ?t] tr by simp
    show ?case
      by (rule act_sends [OF assms(1) _ 3(3,2) _ _ _ good tr(1,2) _ ok feed])
        (use plan av s(4) 3(5,6) in \<open>simp_all add: planned_def syncStateMsg_of_def HasMember_def\<close>)
  qed
qed

lemma sys_step_inv:
  assumes "sys_step parent \<sigma> \<tau>" "sys_inv parent v0 \<sigma>"
  shows "sys_inv parent v0 \<tau>"
  using assms
proof (cases rule: sys_step.cases)
  case (Act p e)
  show ?thesis
  proof (cases "quiet e")
    case False
    then show ?thesis
      using Act assms(2) by (cases e) (auto intro: act_write act_request act_take act_ready act_install_seq
          simp del: live_step.simps)
  qed (use Act assms(2) act_quiet in blast)
qed (use assms(2) deliver_inv in blast)

lemma sys_init_inv:
  assumes "sys_init v0 \<sigma>"
  shows "sys_inv parent v0 \<sigma>"
proof -
  have "node_inv parent v0 (handed \<sigma>) (acked \<sigma>) (received \<sigma> p) p (node \<sigma> p)" for p
  proof -
    obtain addr u c out where u: "p = Process addr" "wf_view u" "p \<in> Members u \<longrightarrow> u = v0"
      and new: "NewServer (Some addr) False u c = Created out (node \<sigma> p)"
      using assms unfolding sys_init_def by blast
    have "server_inv (node \<sigma> p)" using NewServer_inv [OF new u(2)] .
    moreover have "node \<sigma> p = initServer addr u \<or> node \<sigma> p = initServer addr u\<lparr>registerLocked := True\<rparr>"
      using new by (auto simp: NewServer_def Let_def split: if_splits)
    ultimately show ?thesis
      using assms u by (auto simp: sys_init_def node_inv_def node_ok_def feed_ok_def past_ok_def acks_ok_def
          backed_def suq_lookup_simps)
  qed
  then show ?thesis using assms by (simp add: sys_inv_def sys_init_def mail_ok_def)
qed

lemma sys_steps_inv: "sys_steps parent \<sigma> \<tau> \<Longrightarrow> sys_inv parent v0 \<sigma> \<Longrightarrow> sys_inv parent v0 \<tau>"
  by (induction rule: rtranclp_induct) (auto intro: sys_step_inv)

end
