(* ===== verification/Register_Freeze.thy ===== *)
theory Register_Freeze
  imports Server_System
begin

text \<open>
  What the lock of the register is for: from the moment a server sends its state to a newer
  view until a newer view is installed, the register keeps the content that was sent, and
  requests for the old view are not answered. So nothing is acknowledged in the old view
  that the new one does not learn of.
\<close>

section \<open>A locked register\<close>

text \<open>Only the end of an installation releases it, and that brings a strictly newer view.\<close>

lemma frozen_step:
  assumes "server_inv s" "registerLocked s"
  shows "registerLocked (snd (server_step e s)) \<and> register (snd (server_step e s)) = register s \<or>
    Entries (currentView s) \<subset> Entries (currentView (snd (server_step e s)))"
proof (cases "e = StateReady \<or> is_dead (installPhase s)")
  case True
  then show ?thesis
    using syncStateReady_grows [OF assms(1)] core_ofD(4,6) [of "snd (syncStateReady s)" s] assms(2)
    by (auto simp: server_step_def)
next
  case False
  have "register (snd (live_step e s)) = register s"
  proof (cases e)
    case (WriteReq x)
    then show ?thesis using assms(2) by (simp add: RegisterService_Write_def hold_view_def)
  qed (use False in \<open>simp_all add: core_eqs [THEN core_ofD(6)] queue_requests_frame [THEN core_ofD(6)]
      installSeqProcessing_register hold_view_def split: rpc.split\<close>)
  then show ?thesis using False live_step_frame [of e s] assms(2) by (simp add: server_step_def)
qed

lemma frozen_run:
  assumes "server_inv s" "registerLocked s" "\<forall>e \<in> set es. good_event e"
    and "Entries (currentView (snd (server_run es s))) \<subseteq> Entries (currentView s)"
  shows "registerLocked (snd (server_run es s)) \<and> register (snd (server_run es s)) = register s"
  using assms
proof (induction es arbitrary: s)
  case (Cons e es)
  let ?s1 = "snd (server_step e s)"
  have inv: "server_inv ?s1" using server_run_inv [of s "[e]"] Cons.prems by simp
  have grows: "Entries (currentView s) \<subseteq> Entries (currentView ?s1)"
    using server_step_view [OF Cons.prems(1)] .
  moreover have "Entries (currentView ?s1) \<subseteq> Entries (currentView s)"
    using server_run_view [OF inv, of es] Cons.prems by simp
  ultimately have step: "registerLocked ?s1" "register ?s1 = register s"
    using frozen_step [OF Cons.prems(1,2), of e] by auto
  with Cons.IH [OF inv] Cons.prems grows show ?case by simp
qed simp

section \<open>Sending the state\<close>

lemma states_in_iff: "BroadcastStateUpdate w m \<in> set out \<longleftrightarrow> (w, m) \<in> set (states_in out)"
  by (induction out rule: states_in.induct) auto

lemma gotInstallSeqQuorum_freezes:
  assumes "BroadcastStateUpdate w m \<in> set (fst (gotInstallSeqQuorum isq s))"
    and "MoreUpdatedThan w (currentView s)" "registerLockOnce s \<longrightarrow> registerLocked s"
  shows "registerLocked (snd (gotInstallSeqQuorum isq s))"
    "ssm_Value m = Value (register s)" "ssm_Timestamp m = Timestamp (register s)"
  using assms by (auto simp: gotInstallSeqQuorum_def afterStateSent_def syncStateMsg_of_def Let_def split: if_splits
      simp del: MoreUpdatedThan_wf_iff)

lemma installSeqProcessing_freezes:
  assumes "BroadcastStateUpdate w m \<in> set (fst (installSeqProcessing s))"
    and "MoreUpdatedThan w (currentView s)" "registerLockOnce s \<longrightarrow> registerLocked s"
  shows "registerLocked (snd (installSeqProcessing s)) \<and>
    ssm_Value m = Value (register s) \<and> ssm_Timestamp m = Timestamp (register s)"
  using assms gotInstallSeqQuorum_freezes [of w m]
  by (auto simp: installSeqProcessing_def case_prod_beta Let_def split: list.splits option.splits if_splits
      simp del: MoreUpdatedThan_wf_iff)

lemma only_install_sends_state:
  assumes "server_inv s" "BroadcastStateUpdate w m \<in> set (fst (server_step e s))"
  shows "e = TakeInstallSeq \<and> \<not> is_dead (installPhase s)"
proof -
  have sent: "states_in (fst (live_step e s)) \<noteq> []" "\<not> is_dead (installPhase s)"
    using assms(2) by (auto simp: server_step_def states_in_iff split: if_splits)
  then have "\<not> quiet e" using quiet_calm [of e s] by (auto simp: calm_def)
  moreover have "states_in (fst (syncStateReady s)) = []"
    by (rule syncStateReady_effect [OF assms(1)]) simp_all
  ultimately show ?thesis
    using sent by (cases e) (auto simp: stateUpdateProcessing_def case_prod_beta split: list.splits)
qed

section \<open>Property\<close>

text \<open>C19: A server that sends its state to the members of a newer view freezes it: whatever requests
  and turns follow, as long as the server has not installed a newer view its register is
  locked and holds exactly the value and the timestamp it sent, and neither a read nor a write for its view is
  answered; both wait for the view or the register, and the write changes nothing. The one
  condition is that the lock of the register is not already used up (\<^verbatim>\<open>registerLockOnce\<close>) while
  the register is released.\<close>

theorem register_frozen_until_installed:
  assumes "NewServer (Some addr) g v c = Created out s0" "wf_view v" "\<forall>e \<in> set es. good_event e"
    and "snd (server_run es s0) = s" "registerLockOnce s \<longrightarrow> registerLocked s"
    and "BroadcastStateUpdate w m \<in> set (fst (server_step e s))" "MoreUpdatedThan w (currentView s)"
    and "\<forall>f \<in> set (e # fs). good_event f" "snd (server_run (e # fs) s) = t" "currentView t = currentView s"
  shows "registerLocked t \<and> Value (register t) = ssm_Value m \<and> Timestamp (register t) = ssm_Timestamp m \<and>
    RegisterService_Read t (VRef (currentView s)) \<in> {WaitsForView, WaitsForRegister} \<and>
    (\<forall>x. RegisterService_Write t (x\<lparr>ViewRef_of := VRef (currentView s)\<rparr>) \<in> {(WaitsForView, t), (WaitsForRegister, t)})"
proof -
  have inv: "server_inv s" using server_run_inv [OF NewServer_inv [OF assms(1,2)] assms(3)] assms(4) by simp
  have e: "e = TakeInstallSeq" "\<not> is_dead (installPhase s)"
    using only_install_sends_state [OF inv assms(6)] by simp_all
  let ?s1 = "snd (server_step e s)"
  have sent: "registerLocked ?s1" "ssm_Value m = Value (register s)" "ssm_Timestamp m = Timestamp (register s)"
    "register ?s1 = register s" "currentView ?s1 = currentView s"
    using installSeqProcessing_freezes [of w m s] assms(5-7) e
    by (simp_all add: server_step_def installSeqProcessing_register installSeqProcessing_frame)
  have "server_inv ?s1" using server_run_inv [OF inv, of "[e]"] assms(8) by simp
  then have "registerLocked t \<and> register t = register s"
    using frozen_run [of ?s1 fs] sent assms(8-10) by simp
  then show ?thesis
    using sent assms(10) by (simp add: RegisterService_Read_def RegisterService_Write_def)
qed

theorem register_frozen_until_installed_witness:
  "let v = NewWithProcesses [Process ''a'']; w = NewWithProcesses [Process ''a'', Process ''b''];
       m = \<lparr>ism_Sender = Process ''a'', ism_InstallSeq = \<lparr>is_InstallView = w, is_ViewSeq = [w], is_AssociatedView = v\<rparr>\<rparr>;
       x = \<lparr>Value = Some 7, Timestamp = 5, ViewRef_of = VRef v, Err = None\<rparr> :: nat Value;
       t = snd (server_run [TakeInstallSeq, WriteReq x] (InstallSeqRequest m (initServer ''a'' v)))
   in Timestamp (register t) = 0 \<and> RegisterService_Read t (VRef v) \<in> {WaitsForView, WaitsForRegister}"
proof -
  let ?v = "NewWithProcesses [Process ''a'']" and ?w = "NewWithProcesses [Process ''a'', Process ''b'']"
  let ?isq = "\<lparr>is_InstallView = ?w, is_ViewSeq = [?w], is_AssociatedView = ?v\<rparr>"
  let ?m = "\<lparr>ism_Sender = Process ''a'', ism_InstallSeq = ?isq\<rparr>"
  let ?x = "\<lparr>Value = Some 7, Timestamp = 5, ViewRef_of = VRef ?v, Err = None\<rparr> :: nat Value"
  let ?start = "initServer ''a'' ?v :: nat Server"
  let ?s = "InstallSeqRequest ?m ?start"
  let ?t = "snd (server_run [TakeInstallSeq, WriteReq ?x] ?s)"
  have new: "NewServer (Some ''a'') False ?v False = Created [] ?start"
    by (simp add: NewServer_def HasMember_def Let_def)
  have newer: "MoreUpdatedThan ?w ?v"
    using NewWithProcesses_more [of "[Process ''a'']" "[Process ''a'', Process ''b'']" "Process ''b''"]
    by (simp del: MoreUpdatedThan_wf_iff)
  have good: "good_event (InstallSeqReq ?m :: nat event)"
    using newer by (simp add: good_isq_def good_seq_def chain_seq_def)
  have "QuorumSize ?v = 1" "HasMember ?v (Process ''a'')" "HasMember ?w (Process ''a'')"
    by (simp_all add: QuorumSize_def HasMember_def)
  then have step: "BroadcastStateUpdate ?w (syncStateMsg_of ?isq ?s) \<in> set (fst (server_step TakeInstallSeq ?s))"
    and view: "currentView ?t = ?v"
    using newer by (simp_all add: server_step_def InstallSeqRequest_def installSeqProcessing_def
        installSeqQuorumCounter_count_def count_by_def empty_counter_def gotInstallSeqQuorum_def afterStateSent_def
        syncStateMsg_of_def RegisterService_Write_def hold_view_def Let_def del: MoreUpdatedThan_wf_iff)
  have "ssm_Timestamp (syncStateMsg_of ?isq ?s) = 0" by (simp add: syncStateMsg_of_def InstallSeqRequest_def zero_Value_def)
  then show ?thesis
    using register_frozen_until_installed [OF new, of "[InstallSeqReq ?m]" ?s ?w "syncStateMsg_of ?isq ?s"
        TakeInstallSeq "[WriteReq ?x]" ?t] step view newer good
    by (simp add: server_step_def InstallSeqRequest_def Let_def del: MoreUpdatedThan_wf_iff)
qed

end
