(* ===== verification/View_Changes.thy ===== *)
theory View_Changes
  imports Server_System
begin

text \<open>
  What the register keeps when the view changes. A timestamp that a quorum of a view
  acknowledged is held by every server of every view that descends from it, so that the
  atomicity of \<open>Atomic_Register\<close> extends over any number of reconfigurations in a line, as long
  as each server hands over its state in the view the state belongs to. The code does not ensure this; \<open>Lost_Write\<close>
  has an execution of it that loses a write.
\<close>

section \<open>What later views hold\<close>

lemma ack_mono: "sys_steps parent \<sigma> \<tau> \<Longrightarrow> acked \<sigma> \<subseteq> acked \<tau>"
proof (induction rule: rtranclp_induct)
  case (step \<tau> \<rho>)
  from step(2) have "acked \<tau> \<subseteq> acked \<rho>"
    by cases (auto simp: act_def deliver_def case_prod_beta)
  with step show ?case by blast
qed simp

text \<open>A timestamp that a quorum of a view acknowledged, and the views that descend from a view.\<close>

definition written :: "'a system \<Rightarrow> View \<Rightarrow> int \<Rightarrow> bool" where
  "written \<sigma> v t \<longleftrightarrow>
     (\<exists>Q. Q \<subseteq> Members v \<and> QuorumSize v \<le> card Q \<and> (\<forall>q \<in> Q. (v, q, t) \<in> acked \<sigma>))"

abbreviation descends :: "(View \<Rightarrow> View option) \<Rightarrow> View \<Rightarrow> View \<Rightarrow> bool" where
  "descends parent \<equiv> (\<lambda>v w. parent w = Some v)\<^sup>+\<^sup>+"

lemma backedE:
  assumes "backed parent v0 h w x" "parent w = Some v" "parent v0 = None"
  obtains S where "S \<subseteq> Members v" "QuorumSize v \<le> card S"
    "\<forall>q \<in> S. \<exists>t'. h v q = Some t' \<and> t' \<le> x"
proof -
  have "w \<noteq> v0" using assms(2,3) by auto
  then obtain u S where S: "parent w = Some u" "S \<subseteq> Members u" "QuorumSize u \<le> card S"
    "\<forall>q \<in> S. \<exists>t'. h u q = Some t' \<and> t' \<le> x"
    using assms(1) unfolding backed_def by blast
  have "u = v" using S(1) assms(2) by simp
  with S show thesis by (intro that [of S]) simp_all
qed

lemma backed_newer:
  assumes "descends parent v w" "sys_inv parent v0 \<sigma>" "written \<sigma> v t" "wf_view v" "parent v0 = None"
    and "backed parent v0 (handed \<sigma>) w x"
  shows "t \<le> x"
  using assms(1,6)
proof (induction arbitrary: x rule: tranclp_induct)
  case (base w)
  obtain S where S: "S \<subseteq> Members v" "QuorumSize v \<le> card S"
    "\<forall>q \<in> S. \<exists>t'. handed \<sigma> v q = Some t' \<and> t' \<le> x"
    by (rule backedE [OF base(2,1) assms(5)])
  obtain Q where Q: "Q \<subseteq> Members v" "QuorumSize v \<le> card Q" "\<forall>q \<in> Q. (v, q, t) \<in> acked \<sigma>"
    using assms(3) unfolding written_def by blast
  obtain q where q: "q \<in> Q" "q \<in> S" using vq.quorums_meet [OF assms(4) Q(1) S(1) Q(2) S(2)] by blast
  obtain t' where t': "handed \<sigma> v q = Some t'" "t' \<le> x" using S(3) q(2) by blast
  have "acks_ok (handed \<sigma>) (acked \<sigma>) q (node \<sigma> q)" using assms(2) by (simp add: sys_inv_def node_inv_def)
  then have "t \<le> t'" using Q(3) q(1) t'(1) unfolding acks_ok_def by force
  with t'(2) show ?case by simp
next
  case (step u w)
  obtain S where S: "QuorumSize u \<le> card S"
    "\<forall>q \<in> S. \<exists>t'. handed \<sigma> u q = Some t' \<and> t' \<le> x"
    by (rule backedE [OF step(4,2) assms(5)])
  have "S \<noteq> {}" using S(1) by (auto simp: QuorumSize_eq)
  then obtain q t' where t': "handed \<sigma> u q = Some t'" "t' \<le> x" using S(2) by blast
  have "past_ok parent v0 (handed \<sigma>) q (node \<sigma> q)" using assms(2) by (simp add: sys_inv_def node_inv_def)
  then have "backed parent v0 (handed \<sigma>) u t'" using t'(1) by (simp add: past_ok_def)
  from step.IH [OF this] t'(2) show ?case by simp
qed

text \<open>
  The replies of a later read, and the acknowledgements of a write. A server that accepts a
  request of a view is in this view, up to collisions of SHA-1.
\<close>

definition answered ::
    "(View \<Rightarrow> View option) \<Rightarrow> 'a system \<Rightarrow> View \<Rightarrow> 'a RegisterMsg list \<Rightarrow> bool" where
  "answered parent \<sigma> w st \<longleftrightarrow> distinct (map msg_process (succs st)) \<and>
     (\<forall>m \<in> set (succs st). msg_process m \<in> Members w \<and>
        (\<exists>\<tau> r. sys_steps parent \<sigma> \<tau> \<and> currentView (node \<tau> (msg_process m)) = w \<and>
           RegisterService_Read (node \<tau> (msg_process m)) (VRef w) = Reply r \<and>
           m = send_reply (msg_process m) (Inr (of_Value r))))"

definition acknowledged :: "'a system \<Rightarrow> View \<Rightarrow> int \<Rightarrow> 'a RegisterMsg list \<Rightarrow> bool" where
  "acknowledged \<sigma> v t st \<longleftrightarrow> distinct (map msg_process (succs st)) \<and>
     (\<forall>m \<in> set (succs st). msg_process m \<in> Members v \<and> (v, msg_process m, t) \<in> acked \<sigma>)"

lemma acknowledged_written:
  assumes "acknowledged \<sigma> v t st" "write_loop v 0 0 st = WriteDone"
  shows "written \<sigma> v t"
proof -
  obtain R where "card R = QuorumSize v" "R \<subseteq> msg_process ` set (succs st)"
    by (rule write_loop_quorum [OF assms(2)]) (use assms(1) in \<open>simp add: acknowledged_def\<close>)
  with assms(1) show ?thesis unfolding written_def acknowledged_def by (intro exI [of _ R]) auto
qed

lemma answer_stamp:
  assumes "answered parent \<sigma> w st" "m \<in> set (succs st)"
  obtains \<tau> where "sys_steps parent \<sigma> \<tau>" "currentView (node \<tau> (msg_process m)) = w"
    "installPhase (node \<tau> (msg_process m)) = Receiving" "msg_process m \<in> Members w"
    "msg_Timestamp m = Timestamp (register (node \<tau> (msg_process m)))"
proof -
  obtain \<tau> r where \<tau>: "sys_steps parent \<sigma> \<tau>" "currentView (node \<tau> (msg_process m)) = w"
    "RegisterService_Read (node \<tau> (msg_process m)) (VRef w) = Reply r" "msg_process m \<in> Members w"
    and m: "m = send_reply (msg_process m) (Inr (of_Value r))"
    using assms unfolding answered_def by blast
  then have r: "installPhase (node \<tau> (msg_process m)) = Receiving"
    "Timestamp r = Timestamp (register (node \<tau> (msg_process m)))"
    by (auto simp: RegisterService_Read_def split: if_splits)
  moreover have "msg_Timestamp m = Timestamp r" by (subst m) (simp add: send_reply_def of_Value_def)
  ultimately show thesis using \<tau> by (intro that) simp_all
qed

lemma read_sees_written:
  assumes "sys_inv parent v0 \<sigma>" "parent v0 = None" "written \<sigma> v t" "wf_view v"
    and "v = w \<or> descends parent v w" "answered parent \<sigma> w st"
    and "read_loop w 0 [] zero_RegisterMsg st = ReadDone m same"
  shows "t \<le> msg_Timestamp m"
proof -
  have "distinct (map msg_process (succs st))" using assms(6) by (simp add: answered_def)
  then obtain R where card: "card R = QuorumSize w" and
    R: "\<forall>p \<in> R. \<exists>x \<in> set (succs st). msg_process x = p \<and> msg_Timestamp x \<le> msg_Timestamp m"
    by (rule read_loop_quorum [OF assms(7)]) blast
  have at: "\<exists>\<tau>. sys_steps parent \<sigma> \<tau> \<and> sys_inv parent v0 \<tau> \<and> written \<tau> v t \<and> p \<in> Members w \<and>
      currentView (node \<tau> p) = w \<and> installPhase (node \<tau> p) = Receiving \<and>
      Timestamp (register (node \<tau> p)) \<le> msg_Timestamp m" if "p \<in> R" for p
  proof -
    obtain x where x: "x \<in> set (succs st)" "msg_process x = p" "msg_Timestamp x \<le> msg_Timestamp m"
      using R \<open>p \<in> R\<close> by blast
    obtain \<tau> where \<tau>: "sys_steps parent \<sigma> \<tau>" "currentView (node \<tau> p) = w"
      "installPhase (node \<tau> p) = Receiving" "p \<in> Members w"
      "msg_Timestamp x = Timestamp (register (node \<tau> p))"
      using answer_stamp [OF assms(6) x(1)] x(2) by blast
    moreover have "written \<tau> v t" using assms(3) ack_mono [OF \<tau>(1)] unfolding written_def by blast
    ultimately show ?thesis using sys_steps_inv [OF \<tau>(1) assms(1)] x(3) by auto
  qed
  show ?thesis
  proof (cases "v = w")
    case True
    obtain Q where Q: "Q \<subseteq> Members v" "QuorumSize v \<le> card Q" "\<forall>q \<in> Q. (v, q, t) \<in> acked \<sigma>"
      using assms(3) unfolding written_def by blast
    have "p \<in> Members v" if "p \<in> R" for p using at [OF that] True by blast
    then have sub: "R \<subseteq> Members v" by blast
    obtain p where p: "p \<in> Q" "p \<in> R"
      using vq.quorums_meet [OF assms(4) Q(1) sub Q(2)] card True by auto
    obtain \<tau> where \<tau>: "sys_steps parent \<sigma> \<tau>" "sys_inv parent v0 \<tau>" "currentView (node \<tau> p) = w"
      "installPhase (node \<tau> p) = Receiving" "Timestamp (register (node \<tau> p)) \<le> msg_Timestamp m"
      using at [OF p(2)] by blast
    have "(v, p, t) \<in> acked \<tau>" using Q(3) p(1) ack_mono [OF \<tau>(1)] by blast
    moreover have "past_ok parent v0 (handed \<tau>) p (node \<tau> p)" "acks_ok (handed \<tau>) (acked \<tau>) p (node \<tau> p)"
      using \<tau>(2) by (simp_all add: sys_inv_def node_inv_def)
    moreover from this(1) have "handed \<tau> v p = None"
      using \<tau>(3,4) True by (cases "handed \<tau> v p") (auto simp: past_ok_def)
    ultimately have "t \<le> Timestamp (register (node \<tau> p))"
      using \<tau>(3) True unfolding acks_ok_def by force
    with \<tau>(5) show ?thesis by simp
  next
    case False
    then have desc: "descends parent v w" using assms(5) by simp
    have "R \<noteq> {}" using card by (auto simp: QuorumSize_eq)
    then obtain p where "p \<in> R" by blast
    from at [OF this] obtain \<tau> where \<tau>: "sys_inv parent v0 \<tau>" "written \<tau> v t" "p \<in> Members w"
      "sys_steps parent \<sigma> \<tau>" "currentView (node \<tau> p) = w" "Timestamp (register (node \<tau> p)) \<le> msg_Timestamp m" by blast
    have "past_ok parent v0 (handed \<tau>) p (node \<tau> p)" using \<tau>(1) by (simp add: sys_inv_def node_inv_def)
    then have "backed parent v0 (handed \<tau>) w (Timestamp (register (node \<tau> p)))"
      using \<tau>(3,5) by (auto simp: past_ok_def)
    from backed_newer [OF desc \<tau>(1,2) assms(4,2) this] \<tau>(6) show ?thesis by simp
  qed
qed

section \<open>Views in one line\<close>

text \<open>No view has two successors, and a successor is more updated.\<close>

definition one_line :: "(View \<Rightarrow> View option) \<Rightarrow> bool" where
  "one_line parent \<longleftrightarrow>
     (\<forall>v w x. parent w = Some v \<and> parent x = Some v \<longrightarrow> w = x) \<and>
     (\<forall>v w. parent w = Some v \<longrightarrow> Entries v \<subset> Entries w)"

lemma line_comparable:
  assumes "(\<lambda>v w. parent w = Some v)\<^sup>*\<^sup>* v0 v" "(\<lambda>v w. parent w = Some v)\<^sup>*\<^sup>* v0 w" "one_line parent"
  shows "(\<lambda>v w. parent w = Some v)\<^sup>*\<^sup>* v w \<or> (\<lambda>v w. parent w = Some v)\<^sup>*\<^sup>* w v"
  using assms(1)
proof induction
  case (step y z)
  show ?case
  proof (cases "y = w")
    case False
    from step.IH show ?thesis
    proof
      assume "(\<lambda>v w. parent w = Some v)\<^sup>*\<^sup>* y w"
      then obtain x where "parent x = Some y" "(\<lambda>v w. parent w = Some v)\<^sup>*\<^sup>* x w"
        using False by (blast elim: converse_rtranclpE)
      moreover have "x = z" using calculation(1) step.hyps(2) assms(3) unfolding one_line_def by blast
      ultimately show ?thesis by simp
    qed (use step.hyps in \<open>auto intro: rtranclp.rtrancl_into_rtrancl\<close>)
  qed (use step.hyps in auto)
qed (use assms(2) in simp)

lemma line_grows:
  assumes "(\<lambda>v w. parent w = Some v)\<^sup>*\<^sup>* w v" "one_line parent"
  shows "Entries w \<subseteq> Entries v"
  using assms(1)
proof induction
  case (step y z)
  then have "Entries y \<subset> Entries z" using assms(2) unfolding one_line_def by blast
  with step.IH show ?case by blast
qed simp

lemma line_descends:
  assumes "(\<lambda>v w. parent w = Some v)\<^sup>*\<^sup>* v0 v" "(\<lambda>v w. parent w = Some v)\<^sup>*\<^sup>* v0 w"
    "one_line parent" "Entries v \<subset> Entries w"
  shows "descends parent v w"
proof -
  have "\<not> (\<lambda>v w. parent w = Some v)\<^sup>*\<^sup>* w v" using line_grows [OF _ assms(3)] assms(4) by blast
  then have "(\<lambda>v w. parent w = Some v)\<^sup>*\<^sup>* v w" using line_comparable [OF assms(1-3)] by blast
  then show ?thesis using assms(4) by (auto dest: rtranclpD)
qed

section \<open>Properties\<close>

text \<open>C4: Writes survive reconfigurations along a line of views: a write that ended in a view is seen
  by every read that starts after it in the same view or in a view that descends from it, that
  is, was installed from it directly or through other views, as long as every view is
  installed from one other view and every server hands its state over while it is in the view the
  state is for. If no view has two successors, every more updated view descends from
  the write's view, so every later read sees the write. A view on another branch, installed
  from an ancestor of the write's view without passing through it, is not covered.\<close>

theorem writes_survive_reconfiguration:
  assumes "sys_init v0 \<sigma>0" "parent v0 = None" "sys_steps parent \<sigma>0 \<sigma>" "wf_view v"
    and "v = w \<or> descends parent v w \<or> one_line parent \<and> Entries v \<subset> Entries w \<and>
      (\<lambda>v w. parent w = Some v)\<^sup>*\<^sup>* v0 v \<and> (\<lambda>v w. parent w = Some v)\<^sup>*\<^sup>* v0 w"
    and "cl_view writer = v" "cl_err writer = None" "no_newer v st1" "no_newer v st2"
    and "Client_Write x writer \<lparr>attempts = [st1, st2], furtherViews = []\<rparr> = Some (err1, Some m1, writer1, e1)"
    and "acknowledged \<sigma> v (msg_Timestamp m1) st2"
    and "cl_view reader = w" "cl_err reader = None" "no_newer w st3" "no_newer w st4"
    and "Client_Read reader \<lparr>attempts = [st3, st4], furtherViews = []\<rparr> = Some (err2, m2, reader1, e2)"
    and "answered parent \<sigma> w st3"
  shows "err1 = None \<and> err2 = None \<and> msg_Timestamp m1 \<le> msg_Timestamp m2"
proof -
  have "write_loop v 0 0 st2 = WriteDone" "err1 = None"
    using Client_Write_first [OF assms(10,7)] assms(6,8,9) by auto
  moreover from this(1) have "written \<sigma> v (msg_Timestamp m1)"
    using acknowledged_written [OF assms(11)] by blast
  moreover obtain same where "read_loop w 0 [] zero_RegisterMsg st3 = ReadDone m2 same" "err2 = None"
    using Client_Read_first [OF assms(16,13)] assms(12,14,15) by auto
  moreover have "sys_inv parent v0 \<sigma>" using sys_steps_inv [OF assms(3) sys_init_inv [OF assms(1)]] .
  moreover have "v = w \<or> descends parent v w" using assms(5) line_descends by blast
  ultimately show ?thesis using read_sees_written [OF _ assms(2) _ assms(4) _ assms(17)] by blast
qed

text \<open>
  A run with one reconfiguration: a server acknowledges a write, is told to install the
  next view, sends its state to itself, installs the view and answers a read.
\<close>

definition wv2 :: View where
  "wv2 = NewCopyWithUpdates wv [Update Join (Process ''b''), Update Leave (Process ''b'')]"

definition wisq :: InstallSeq where
  "wisq = \<lparr>is_InstallView = wv2, is_ViewSeq = [wv2], is_AssociatedView = wv\<rparr>"

definition wism :: InstallSeqMsg where
  "wism = \<lparr>ism_Sender = Process ''a'', ism_InstallSeq = wisq\<rparr>"

definition wparent :: "View \<Rightarrow> View option" where "wparent = (\<lambda>v. if v = wv2 then Some wv else None)"

definition wsys :: "nat system" where
  "wsys = \<lparr>node = (\<lambda>p. if p = Process ''a'' then ws
      else (case p of Process addr \<Rightarrow> initServer addr wv \<lparr>registerLocked := True\<rparr>)),
    flight = (\<lambda>_. []), received = (\<lambda>_. []), handed = (\<lambda>_ _. None), acked = {}\<rparr>"

definition wstate :: "nat SyncStateMsg" where
  "wstate = \<lparr>ssm_Value = Some 7, ssm_Timestamp = 1, ssm_Recv = {}, ssm_AssociatedView = wv\<rparr>"

definition wsys1 :: "nat system" where "wsys1 = act (Process ''a'') (WriteReq (to_Value wmsg)) wsys"

definition wsys2 :: "nat system" where "wsys2 = act (Process ''a'') (InstallSeqReq wism) wsys1"

definition wsys3 :: "nat system" where "wsys3 = act (Process ''a'') TakeInstallSeq wsys2"

definition wsys4 :: "nat system" where "wsys4 = deliver (Process ''a'') (Process ''a'') wstate wsys3"

definition wsys5 :: "nat system" where "wsys5 = act (Process ''a'') TakeStateUpdate wsys4"

definition wsys6 :: "nat system" where "wsys6 = act (Process ''a'') StateReady wsys5"

lemma wv2_facts: "wf_view wv2" "Members wv2 = {Process ''a''}" "QuorumSize wv2 = 1" "NumberOfMembers wv2 = 1"
  "NumberOfToleratedFaults wv2 = 0" "MoreUpdatedThan wv2 wv" "wv2 \<noteq> wv"
  "Entries wv2 = {Update Join (Process ''a''), Update Join (Process ''b''), Update Leave (Process ''b'')}"
proof -
  show wf: "wf_view wv2" by (simp add: wv2_def)
  show en: "Entries wv2 = {Update Join (Process ''a''), Update Join (Process ''b''), Update Leave (Process ''b'')}"
    by (auto simp: wv2_def wv_def NewWithProcesses_eq)
  have ev: "Entries wv = {Update Join (Process ''a'')}" by (auto simp: wv_def NewWithProcesses_eq)
  show mem: "Members wv2 = {Process ''a''}"
    using wf en by (auto simp: wf_view_def members_of_def)
  then show "QuorumSize wv2 = 1" "NumberOfMembers wv2 = 1" "NumberOfToleratedFaults wv2 = 0"
    by (simp_all add: QuorumSize_eq NumberOfMembers_def ToleratedFaults_eq)
  show "MoreUpdatedThan wv2 wv" "wv2 \<noteq> wv" using wf en ev by (auto simp: wv_facts(1))
qed

text \<open>The server of the run after each step.\<close>

definition ws1 :: "nat Server" where
  "ws1 = ws\<lparr>register := zero_Value\<lparr>Value := Some 7, Timestamp := 1\<rparr>\<rparr>"

definition ws3 :: "nat Server" where
  "ws3 = ws1\<lparr>processToInstallSeqMsgMap := [Process ''a'' \<mapsto> wism],
     installSeqQuorumCounter := snd (installSeqQuorumCounter_count empty_counter wisq 1),
     registerLockOnce := True, registerLocked := True, installPhase := WaitingState wisq\<rparr>"

definition ws5 :: "nat Server" where
  "ws5 = ws3\<lparr>stateUpdateQuorumCounterList := [count_stateUpdate (new_stateUpdateQuorum wv) wstate]\<rparr>"

lemma ws_sel: "installPhase ws = Receiving" "currentView ws = wv" "thisProcess ws = Process ''a''"
  "registerLocked ws = False" "registerLockOnce ws = False" "viewReaders ws = 0" "recv ws = {}"
  "register ws = zero_Value" "installSeqProcessingChan ws = []" "syncStateMsgChan ws = []"
  "stateUpdateQuorumCounterList ws = []" "processToInstallSeqMsgMap ws = Map.empty"
  "installSeqQuorumCounter ws = empty_counter"
  by (simp_all add: ws_def)

lemma wisq_sel: "is_InstallView wisq = wv2" "is_ViewSeq wisq = [wv2]" "is_AssociatedView wisq = wv"
  by (simp_all add: wisq_def)

lemma wrun1: "live_step (WriteReq (to_Value wmsg)) ws = ([], ws1)"
  by (simp add: RegisterService_Write_def ws_sel to_Value_def wmsg_def write_register_def zero_Value_def
      hold_view_def ws1_def)

lemma wrun2: "live_step (InstallSeqReq wism) ws1 = ([], ws1\<lparr>installSeqProcessingChan := [wism]\<rparr>)"
  by (simp add: InstallSeqRequest_def ws1_def ws_sel)

lemma wcount: "fst (installSeqQuorumCounter_count empty_counter isq (Suc 0))"
  by (simp add: installSeqQuorumCounter_count_def count_by_def empty_counter_def)

lemma wrun3: "live_step TakeInstallSeq (ws1\<lparr>installSeqProcessingChan := [wism]\<rparr>) =
   ([BroadcastInstallSeq (NewWithProcesses (GetMembers wv @ GetMembers wv2)) wism,
     BroadcastStateUpdate wv2 wstate], ws3)"
  using wv2_facts(2,6)
  by (simp add: installSeqProcessing_def gotInstallSeqQuorum_def afterStateSent_def ws1_def ws_sel wism_def
      wv_facts HasMember_def syncStateMsg_of_def wstate_def ws3_def wisq_def zero_Value_def Let_def
      case_prod_beta wcount del: MoreUpdatedThan_wf_iff)

lemma wrun4: "live_step (StateUpdateReq wstate) ws3 = ([], ws3\<lparr>syncStateMsgChan := [wstate]\<rparr>)"
  by (simp add: StateUpdate_def ws3_def ws1_def ws_sel)

lemma wrun5: "live_step TakeStateUpdate (ws3\<lparr>syncStateMsgChan := [wstate]\<rparr>) = ([], ws5)"
  by (simp add: stateUpdateProcessing_def getOrCreateStateUpdateQuorum_def ws5_def ws3_def ws1_def ws_sel)
    (simp add: wstate_def ws_def initServer_def)

lemma wrun6: "installPhase (snd (live_step StateReady ws5)) = Receiving"
  "currentView (snd (live_step StateReady ws5)) = wv2" "\<not> registerLocked (snd (live_step StateReady ws5))"
  "Value (register (snd (live_step StateReady ws5))) = Some 7"
  "Timestamp (register (snd (live_step StateReady ws5))) = 1"
  "states_in (fst (live_step StateReady ws5)) = []"
proof -
  let ?st = "\<lparr>finalValue = zero_Value\<lparr>Value := Some 7, Timestamp := 1\<rparr>, st_recv = {}\<rparr> :: nat State"
  have "resultChan (count_stateUpdate (new_stateUpdateQuorum wv) wstate) = Some ?st"
    "View_Equal (suq_associatedView (count_stateUpdate (new_stateUpdateQuorum wv) wstate)) wv"
    by (simp_all add: count_stateUpdate_def new_stateUpdateQuorum_def wstate_def wv_facts State_NewCopy_def
        zero_Value_def Let_def)
  then have req: "requestStateChan wv ws5 = (Some ?st, ws5)"
    by (simp add: requestStateChan_def getOrCreateStateUpdateQuorum_def ws5_def)
  have ws5: "installPhase ws5 = WaitingState wisq" "currentView ws5 = wv" "registerLocked ws5"
    by (simp_all add: ws5_def ws3_def ws1_def ws_sel)
  define x where "x = apply_state ?st wisq ws5"
  have x: "currentView x = wv" "registerLocked x" "Value (register x) = Some 7" "Timestamp (register x) = 1"
    using ws5 by (simp_all add: x_def apply_state_def Let_def)
  have none: "\<not> MoreUpdatedThan wv2 wv2" by (simp add: wv2_facts(1))
  have "live_step StateReady ws5 = afterSync wisq x"
    using ws5(1) req by (simp add: syncStateReady_def wisq_sel x_def)
  then show "installPhase (snd (live_step StateReady ws5)) = Receiving"
    "currentView (snd (live_step StateReady ws5)) = wv2" "\<not> registerLocked (snd (live_step StateReady ws5))"
    "Value (register (snd (live_step StateReady ws5))) = Some 7"
    "Timestamp (register (snd (live_step StateReady ws5))) = 1" "states_in (fst (live_step StateReady ws5)) = []"
    using x none wv2_facts(6)
    by (simp_all add: afterSync_def updateCurrentViewLocked_def wisq_sel Let_def del: MoreUpdatedThan_wf_iff
        live_step.simps)
qed

lemma wnodes:
  "node wsys (Process ''a'') = ws" "node wsys1 (Process ''a'') = ws1"
  "node wsys2 (Process ''a'') = ws1\<lparr>installSeqProcessingChan := [wism]\<rparr>" "node wsys3 (Process ''a'') = ws3"
  "node wsys4 (Process ''a'') = ws3\<lparr>syncStateMsgChan := [wstate]\<rparr>" "node wsys5 (Process ''a'') = ws5"
  "node wsys6 (Process ''a'') = snd (live_step StateReady ws5)"
proof -
  show n: "node wsys (Process ''a'') = ws" by (simp add: wsys_def)
  show n: "node wsys1 (Process ''a'') = ws1" by (simp add: wsys1_def act_def n wrun1 del: live_step.simps)
  show n: "node wsys2 (Process ''a'') = ws1\<lparr>installSeqProcessingChan := [wism]\<rparr>"
    by (simp add: wsys2_def act_def n wrun2 del: live_step.simps)
  show n: "node wsys3 (Process ''a'') = ws3" by (simp add: wsys3_def act_def n wrun3 del: live_step.simps)
  show n: "node wsys4 (Process ''a'') = ws3\<lparr>syncStateMsgChan := [wstate]\<rparr>"
    by (simp add: wsys4_def deliver_def n wrun4 del: live_step.simps)
  show n: "node wsys5 (Process ''a'') = ws5" by (simp add: wsys5_def act_def n wrun5 del: live_step.simps)
  show "node wsys6 (Process ''a'') = snd (live_step StateReady ws5)"
    by (simp add: wsys6_def act_def n case_prod_beta del: live_step.simps)
qed

lemma wsys_init: "sys_init wv wsys"
proof -
  have "\<exists>addr u c out. p = Process addr \<and> wf_view u \<and> (p \<in> Members u \<longrightarrow> u = wv) \<and>
      NewServer (Some addr) False u c = Created out (node wsys p)" for p
  proof (cases p)
    case (Process addr)
    then have "\<exists>out. NewServer (Some addr) False wv False = Created out (node wsys p)"
      by (auto simp: NewServer_def wsys_def ws_def HasMember_def wv_facts Let_def)
    then show ?thesis using Process wv_facts(1) by blast
  qed
  then show ?thesis by (simp add: sys_init_def wv_facts(1)) (simp add: wsys_def)
qed

lemma wsys_steps: "sys_steps wparent wsys wsys1" "sys_steps wparent wsys1 wsys6"
proof -
  note [simp del] = live_step.simps
  have alive: "\<not> is_dead (installPhase ws)" "\<not> is_dead (installPhase ws1)"
    "\<not> is_dead (installPhase (ws1\<lparr>installSeqProcessingChan := [wism]\<rparr>))" "\<not> is_dead (installPhase ws3)"
    "\<not> is_dead (installPhase (ws3\<lparr>syncStateMsgChan := [wstate]\<rparr>))" "\<not> is_dead (installPhase ws5)"
    by (simp_all add: ws_sel ws1_def ws3_def ws5_def)
  have plan: "good_isq wisq" "planned wparent wisq"
    using wv2_facts(6) by (simp_all add: good_isq_def wisq_def wv_facts wv2_facts(1) planned_def wparent_def
        del: MoreUpdatedThan_wf_iff)
  have "sys_step wparent wsys wsys1"
    unfolding wsys1_def by (rule sys_step.Act) (simp_all add: wnodes alive wrun1 in_step_def)
  then show "sys_steps wparent wsys wsys1" by blast
  have "sys_step wparent wsys1 wsys2"
    unfolding wsys2_def using plan by (intro sys_step.Act) (simp_all add: wnodes alive wrun2 in_step_def, simp_all add: wism_def)
  moreover have "sys_step wparent wsys2 wsys3"
    unfolding wsys3_def by (rule sys_step.Act)
      (simp_all add: wnodes alive wrun3 in_step_def wstate_def, simp add: ws1_def ws_sel)
  moreover have "(Process ''a'', wstate) \<in> set (flight wsys3 (Process ''a''))"
    by (simp add: wsys3_def act_def wnodes wrun3 states_to_def GetMembers_def wv2_facts(2))
  then have "sys_step wparent wsys3 wsys4"
    unfolding wsys4_def by (intro sys_step.Deliver) (simp_all add: wnodes alive)
  moreover have "sys_step wparent wsys4 wsys5"
    unfolding wsys5_def by (rule sys_step.Act) (simp_all add: wnodes alive wrun5 in_step_def)
  moreover have "sys_step wparent wsys5 wsys6"
    unfolding wsys6_def by (rule sys_step.Act) (simp_all add: wnodes alive wrun6 in_step_def)
  ultimately show "sys_steps wparent wsys1 wsys6"
    by (meson converse_rtranclp_into_rtranclp r_into_rtranclp)
qed

definition wreply2 :: "nat RegisterMsg" where
  "wreply2 = send_reply (Process ''a'') (Inr (of_Value (zero_Value\<lparr>Value := Some 7, Timestamp := 1\<rparr>)))"

lemma wreply2_sel: "msg_Err wreply2 = None" "msg_process wreply2 = Process ''a''" "msg_Timestamp wreply2 = 1"
  by (simp_all add: wreply2_def send_reply_def of_Value_def zero_Value_def)

lemma wanswered: "answered wparent wsys1 wv2 [wreply2]"
proof -
  have "RegisterService_Read (node wsys6 (Process ''a'')) (VRef wv2) =
      Reply (zero_Value\<lparr>Value := Some 7, Timestamp := 1\<rparr>)" "currentView (node wsys6 (Process ''a'')) = wv2"
    using wrun6 by (simp_all add: RegisterService_Read_def wnodes del: live_step.simps)
  then have "\<exists>\<tau> r. sys_steps wparent wsys1 \<tau> \<and> currentView (node \<tau> (Process ''a'')) = wv2 \<and>
      RegisterService_Read (node \<tau> (Process ''a'')) (VRef wv2) = Reply r \<and>
      wreply2 = send_reply (Process ''a'') (Inr (of_Value r))"
    using wsys_steps(2) unfolding wreply2_def by blast
  then show ?thesis by (simp add: answered_def wreply2_sel wv2_facts(2))
qed

theorem writes_survive_reconfiguration_witness:
  "\<exists>m1 writer1 e1 m2 reader1 e2.
     Client_Write (Some 7) \<lparr>cl_view = wv, num2ndPhaseReads = 0, cl_err = None\<rparr>
       \<lparr>attempts = [[wreply], [wreply]], furtherViews = []\<rparr> = Some (None, Some m1, writer1, e1) \<and>
     Client_Read \<lparr>cl_view = wv2, num2ndPhaseReads = 0, cl_err = None\<rparr>
       \<lparr>attempts = [[wreply2], []], furtherViews = []\<rparr> = Some (None, m2, reader1, e2) \<and>
     msg_Timestamp m1 \<le> msg_Timestamp m2"
proof -
  let ?wc = "\<lparr>cl_view = wv, num2ndPhaseReads = 0, cl_err = None\<rparr>"
  let ?rc = "\<lparr>cl_view = wv2, num2ndPhaseReads = 0, cl_err = None\<rparr>"
  have "go_int 1 = 1" "write_loop wv 0 0 [wreply] = WriteDone"
    by (simp_all add: go_int_def wreply_sel write_check_def wv_facts Let_def)
  then have wr: "Client_Write (Some 7) ?wc \<lparr>attempts = [[wreply], [wreply]], furtherViews = []\<rparr> =
      Some (None, Some wmsg, ?wc, \<lparr>attempts = [], furtherViews = []\<rparr>)"
    by (simp add: Client_Write_def readQuorum_def writeQuorum_def wreply_read wmsg_def Let_def
        del: read_loop.simps write_loop.simps) (simp add: zero_RegisterMsg_def)
  have "read_loop wv2 0 [] zero_RegisterMsg [wreply2] = ReadDone wreply2 True"
    by (simp add: wreply2_sel read_check_def wv2_facts Let_def) (simp add: zero_RegisterMsg_def)
  then have rd: "Client_Read ?rc \<lparr>attempts = [[wreply2], []], furtherViews = []\<rparr> =
      Some (None, wreply2, ?rc, \<lparr>attempts = [[]], furtherViews = []\<rparr>)"
    by (simp add: Client_Read_def readQuorum_def del: read_loop.simps)
  have "acked wsys1 = {(wv, Process ''a'', 1)}"
    by (simp add: wsys1_def act_def case_prod_beta RegisterService_Write_def ws_sel to_Value_def wmsg_def
        wsys_def zero_Value_def del: live_step.simps)
  then have ack: "acknowledged wsys1 wv (msg_Timestamp wmsg) [wreply]"
    by (simp add: acknowledged_def wreply_sel wv_facts wmsg_def)
  have pa: "wparent wv = None" "wparent wv2 = Some wv" using wv2_facts(7) by (simp_all add: wparent_def)
  then have desc: "wv = wv2 \<or> descends wparent wv wv2 \<or> one_line wparent \<and> Entries wv \<subset> Entries wv2 \<and>
      (\<lambda>v w. wparent w = Some v)\<^sup>*\<^sup>* wv wv \<and> (\<lambda>v w. wparent w = Some v)\<^sup>*\<^sup>* wv wv2" by blast
  have "msg_Timestamp wmsg \<le> msg_Timestamp wreply2"
    using writes_survive_reconfiguration [OF wsys_init pa(1) wsys_steps(1) wv_facts(1) desc _ _ _ _ wr ack
        _ _ _ _ rd wanswered]
    by (simp add: no_newer_def wreply_sel wreply2_sel)
  with wr rd show ?thesis by blast
qed

end
