(* ===== verification/Lost_Write.thy ===== *)
theory Lost_Write
  imports Deployment Atomic_Register
begin

text \<open>
  A run of a deployment in which a completed write is lost: an execution of five servers
  whose every message was sent by one of them, evaluated server by server. What each server
  puts out is computed once; a schedule then says how far each server goes in turn, and
  checks that what it receives was sent by then.
\<close>

section \<open>Views and messages of the run\<close>

abbreviation "pa \<equiv> Process ''a''"
abbreviation "pb \<equiv> Process ''b''"
abbreviation "pc \<equiv> Process ''c''"
abbreviation "pd \<equiv> Process ''d''"
abbreviation "pe \<equiv> Process ''e''"

definition lv0 :: View where "lv0 = NewWithProcesses [pa, pb, pc, pd, pe]"

definition lv1 :: View where "lv1 = NewCopyWithUpdates lv0 [Update Leave pa, Update Leave pb]"

definition lv2 :: View where "lv2 = NewCopyWithUpdates lv0 [Update Leave pa, Update Leave pb, Update Leave pc]"

lemma lv_wf [simp]: "wf_view lv0" "wf_view lv1" "wf_view lv2"
  by (simp_all add: lv0_def lv1_def lv2_def)

lemma lv_entries:
  "Entries lv0 = Update Join ` {pa, pb, pc, pd, pe}"
  "Entries lv1 = Update Join ` {pa, pb, pc, pd, pe} \<union> {Update Leave pa, Update Leave pb}"
  "Entries lv2 = Update Join ` {pa, pb, pc, pd, pe} \<union> {Update Leave pa, Update Leave pb, Update Leave pc}"
proof -
  show v0: "Entries lv0 = Update Join ` {pa, pb, pc, pd, pe}"
    by (auto simp: lv0_def NewWithProcesses_eq)
  show "Entries lv1 = Update Join ` {pa, pb, pc, pd, pe} \<union> {Update Leave pa, Update Leave pb}"
    "Entries lv2 = Update Join ` {pa, pb, pc, pd, pe} \<union> {Update Leave pa, Update Leave pb, Update Leave pc}"
    by (auto simp: lv1_def lv2_def v0)
qed

lemma lv_incl:
  "Entries lv0 \<subseteq> Entries lv1" "Entries lv1 \<subseteq> Entries lv2" "Entries lv0 \<subseteq> Entries lv2"
  "\<not> Entries lv1 \<subseteq> Entries lv0" "\<not> Entries lv2 \<subseteq> Entries lv1" "\<not> Entries lv2 \<subseteq> Entries lv0"
  by (simp_all add: lv_entries)

lemma lv_order:
  "MoreUpdatedThan lv1 lv0" "MoreUpdatedThan lv2 lv1" "MoreUpdatedThan lv2 lv0"
  "\<not> MoreUpdatedThan lv0 lv0" "\<not> MoreUpdatedThan lv1 lv1" "\<not> MoreUpdatedThan lv2 lv2"
  "\<not> LessUpdatedThan lv1 lv0" "\<not> LessUpdatedThan lv2 lv1" "\<not> LessUpdatedThan lv2 lv0"
  "\<not> LessUpdatedThan lv1 lv1" "\<not> LessUpdatedThan lv2 lv2"
  using lv_incl by (simp_all add: less_le_not_le)

lemma lv_distinct: "lv0 \<noteq> lv1" "lv0 \<noteq> lv2" "lv1 \<noteq> lv2" "lv1 \<noteq> lv0" "lv2 \<noteq> lv0" "lv2 \<noteq> lv1"
  using lv_order by auto

lemma lv_equal:
  "View_Equal lv0 lv0" "View_Equal lv1 lv1" "View_Equal lv2 lv2" "\<not> View_Equal lv0 lv1" "\<not> View_Equal lv1 lv0"
  by (simp_all add: lv_distinct)

lemma lv_members:
  "Members lv0 = {pa, pb, pc, pd, pe}" "Members lv1 = {pc, pd, pe}" "Members lv2 = {pd, pe}"
  "QuorumSize lv0 = 3" "QuorumSize lv1 = 2" "QuorumSize lv2 = 2"
proof -
  show m: "Members lv0 = {pa, pb, pc, pd, pe}" "Members lv1 = {pc, pd, pe}" "Members lv2 = {pd, pe}"
    by (auto simp: wf_view_caches(1) members_of_def lv_entries)
  show "QuorumSize lv0 = 3" "QuorumSize lv1 = 2" "QuorumSize lv2 = 2"
    by (simp_all add: QuorumSize_eq NumberOfMembers_def m)
qed

lemma lv_has:
  "HasMember lv0 p \<longleftrightarrow> p \<in> {pa, pb, pc, pd, pe}" "HasMember lv1 p \<longleftrightarrow> p \<in> {pc, pd, pe}"
  "HasMember lv2 p \<longleftrightarrow> p \<in> {pd, pe}" "\<not> HasUpdate lv0 (Update Leave p)"
  "HasUpdate lv1 (Update Leave p) \<longleftrightarrow> p \<in> {pa, pb}"
  by (auto simp: HasMember_def HasUpdate_def lv_members lv_entries)

lemma members_after_leave:
  "wf_view v \<Longrightarrow> Members (NewCopyWithUpdates v [Update Leave p]) = Members v - {p}"
  by (auto simp: wf_view_caches(1) members_of_def)

lemma members_merged: "Members (NewWithProcesses (GetMembers v @ GetMembers w)) = Members v \<union> Members w"
  if "wf_view v" "wf_view w"
  using that by (simp add: GetMembers_def)

lemma lv_lists:
  "GetMembers lv0 = [pa, pb, pc, pd, pe]" "GetMembers lv1 = [pc, pd, pe]" "GetMembers lv2 = [pd, pe]"
  "GetMembers (NewCopyWithUpdates lv0 [Update Leave pa]) = [pb, pc, pd, pe]"
  "GetMembers (NewCopyWithUpdates lv0 [Update Leave pb]) = [pa, pc, pd, pe]"
  "GetMembers (NewCopyWithUpdates lv0 [Update Leave pc]) = [pa, pb, pd, pe]"
  "GetMembers (NewCopyWithUpdates lv1 [Update Leave pc]) = [pd, pe]"
  "GetMembers (NewCopyWithUpdates lv1 [Update Leave pd]) = [pc, pe]"
  "GetMembers (NewCopyWithUpdates lv1 [Update Leave pe]) = [pc, pd]"
proof -
  have list: "GetMembers v = xs" if "Members v = set xs" "sorted xs" "distinct xs" for v xs
    using range_keys_sorted [OF that(2,3)] that(1) by (simp add: GetMembers_def)
  note ord = less_eq_Process_def Process_Less_def
  show "GetMembers lv0 = [pa, pb, pc, pd, pe]" "GetMembers lv1 = [pc, pd, pe]" "GetMembers lv2 = [pd, pe]"
    "GetMembers (NewCopyWithUpdates lv0 [Update Leave pa]) = [pb, pc, pd, pe]"
    "GetMembers (NewCopyWithUpdates lv0 [Update Leave pb]) = [pa, pc, pd, pe]"
    "GetMembers (NewCopyWithUpdates lv0 [Update Leave pc]) = [pa, pb, pd, pe]"
    "GetMembers (NewCopyWithUpdates lv1 [Update Leave pc]) = [pd, pe]"
    "GetMembers (NewCopyWithUpdates lv1 [Update Leave pd]) = [pc, pe]"
    "GetMembers (NewCopyWithUpdates lv1 [Update Leave pe]) = [pc, pd]"
    by (rule list; auto simp: lv_members members_after_leave ord)+
qed

lemma lv_merged:
  "GetMembers (NewWithProcesses [pa, pb, pc, pd, pe, pc, pd, pe]) = [pa, pb, pc, pd, pe]"
  "GetMembers (NewWithProcesses [pc, pd, pe, pd, pe]) = [pc, pd, pe]"
proof -
  have list: "GetMembers v = xs" if "Members v = set xs" "sorted xs" "distinct xs" for v xs
    using range_keys_sorted [OF that(2,3)] that(1) by (simp add: GetMembers_def)
  show "GetMembers (NewWithProcesses [pa, pb, pc, pd, pe, pc, pd, pe]) = [pa, pb, pc, pd, pe]"
    "GetMembers (NewWithProcesses [pc, pd, pe, pd, pe]) = [pc, pd, pe]"
    by (rule list; auto simp: less_eq_Process_def Process_Less_def)+
qed

lemma lv_copy:
  "NewCopyWithUpdates lv0 (range_keys {Update Leave pa, Update Leave pb}) = lv1"
  "NewCopyWithUpdates lv0 (range_keys {Update Leave pb, Update Leave pa}) = lv1"
  "NewCopyWithUpdates lv0 (range_keys {Update Leave pc, Update Leave pb, Update Leave pa}) = lv2"
  "NewCopyWithUpdates lv1 (range_keys {Update Leave pc}) = lv2"
  by (rule wf_view_eqI; auto simp: lv_entries)+

lemma lv1_next: "NewCopyWithUpdates lv1 (range_keys (insert (Update Leave pc) (U - Entries lv1))) = lv2"
  if "finite U" "U \<subseteq> {Update Leave pa, Update Leave pb}"
  using that by (intro wf_view_eqI) (auto simp: lv_entries)

definition lmsg :: "nat Value" where
  "lmsg = zero_Value\<lparr>Value := Some 7, Timestamp := 1, ViewRef_of := VRef lv0\<rparr>"

definition lreq :: "View \<Rightarrow> Process \<Rightarrow> ReconfigMsg" where
  "lreq v p = \<lparr>rm_Update = Update Leave p, rm_AssociatedView = v\<rparr>"

definition lprop :: "Process \<Rightarrow> View \<Rightarrow> View \<Rightarrow> ViewSeqMsg" where
  "lprop p v w = \<lparr>vsm_Sender = p, vsm_AssociatedView = v, vsm_ProposedSeq = [w], vsm_LastConvergedSeq = []\<rparr>"

definition lconv :: "View \<Rightarrow> View \<Rightarrow> SeqConvMsg" where
  "lconv v w = \<lparr>scm_AssociatedView = v, scm_SeqConv = \<lparr>sc_Seq = [w]\<rparr>\<rparr>"

definition linst :: "Process \<Rightarrow> View \<Rightarrow> View \<Rightarrow> InstallSeqMsg" where
  "linst p v w = \<lparr>ism_Sender = p,
     ism_InstallSeq = \<lparr>is_InstallView = w, is_ViewSeq = [w], is_AssociatedView = v\<rparr>\<rparr>"

lemmas lv_eval = lv1_next lv_lists lv_merged lv_order lv_equal lv_distinct lv_members lv_has lv_copy lreq_def lprop_def lconv_def linst_def
  lmsg_def server_step_def RegisterService_Write_def write_register_def hold_view_def zero_Value_def
  AdminService_Leave_def leave_def Reconfig_def startReconfiguration_def hasUpdatesToCurrentView_def
  getInitialViewSeq_eq runGeneration_def generateViewSequenceWithoutConsensus_def
  getOrCreateViewGenerator_def startWorker_def countViewSeq_def viewSeqQuorumCounter_count_def count_by_def
  empty_counter_def Let_def ProposeSeqView_def add_job_def runWorker_def onViewSeqMsg_def
  SameButDifferentSender_def ViewSeq_Equal_def SeqConvRequest_def onSeqConv_def
  seqConvQuorumCounter_count_def SeqConv_Equal_def generatedViewSeqProcessing_def GetLeastUpdatedView_def
  InstallSeqRequest_def installSeqProcessing_def gotInstallSeqQuorum_def installSeqQuorumCounter_count_def
  InstallSeq_Equal_def InstallSeqMsg_Equal_def afterStateSent_def syncStateMsg_of_def StateUpdate_def
  stateUpdateProcessing_def getOrCreateStateUpdateQuorum_def new_stateUpdateQuorum_def count_stateUpdate_def
  State_NewCopy_def requestStateChan_def syncStateReady_def afterSync_def apply_state_def
  updateCurrentViewLocked_def



section \<open>What each server does\<close>

text \<open>What a server puts out, event by event.\<close>

fun server_outs :: "'a event list \<Rightarrow> 'a Server \<Rightarrow> 'a server_out list list" where
  "server_outs [] s = []"
| "server_outs (e # es) s = fst (server_step e s) # server_outs es (snd (server_step e s))"

lemma server_run_outs: "fst (server_run (take n es) s) = concat (take n (server_outs es s))"
proof (induction es arbitrary: n s)
  case (Cons e es)
  then show ?case by (cases n) simp_all
qed simp

definition lstate :: "View \<Rightarrow> nat Value \<Rightarrow> Update set \<Rightarrow> nat SyncStateMsg" where
  "lstate v r U = \<lparr>ssm_Value = Value r, ssm_Timestamp = Timestamp r, ssm_Recv = U, ssm_AssociatedView = v\<rparr>"

definition lst :: "nat SyncStateMsg" where "lst = lstate lv0 lmsg {Update Leave pb, Update Leave pa}"

definition lstale :: "nat SyncStateMsg" where
  "lstale = lstate lv1 zero_Value {Update Leave pc, Update Leave pb, Update Leave pa}"

definition levents1 :: "Process \<Rightarrow> Process \<Rightarrow> Process \<Rightarrow> (Process \<times> nat event) list" where
  "levents1 p q r = [(p, WriteReq lmsg), (p, LeaveReq),
     (pa, ReconfigReq (lreq lv0 pa)), (pb, ReconfigReq (lreq lv0 pb)), (p, TimerFires), (p, RunGeneration),
     (q, ProposeSeqViewReq (lprop q lv0 lv1)), (p, RunWorker 0), (r, ProposeSeqViewReq (lprop r lv0 lv1)), (p, RunWorker 0),
     (pa, SeqConvReq (lconv lv0 lv1)), (p, RunWorker 0), (pb, SeqConvReq (lconv lv0 lv1)), (p, RunWorker 0),
     (pc, SeqConvReq (lconv lv0 lv1)), (p, RunWorker 0), (p, TakeGenerated),
     (pa, InstallSeqReq (linst pa lv0 lv1)), (p, TakeInstallSeq), (pb, InstallSeqReq (linst pb lv0 lv1)), (p, TakeInstallSeq),
     (pc, InstallSeqReq (linst pc lv0 lv1)), (p, TakeInstallSeq)]"

definition levents_c :: "(Process \<times> nat event) list" where
  "levents_c = [(pa, StateUpdateReq lst), (pc, TakeStateUpdate), (pb, StateUpdateReq lst), (pc, TakeStateUpdate),
     (pc, StateUpdateReq lst), (pc, TakeStateUpdate), (pc, StateReady), (pc, LeaveReq),
     (pc, ReconfigReq (lreq lv1 pc)), (pc, TimerFires), (pc, RunGeneration)]"

definition levents2 :: "Process \<Rightarrow> (Process \<times> nat event) list" where
  "levents2 p = [(pa, ReconfigReq (lreq lv0 pa)), (pb, ReconfigReq (lreq lv0 pb)), (pc, ReconfigReq (lreq lv0 pc)),
     (pc, ProposeSeqViewReq (lprop pc lv1 lv2)), (p, RunWorker 0),
     (pd, SeqConvReq (lconv lv1 lv2)), (p, RunWorker 0), (pe, SeqConvReq (lconv lv1 lv2)), (p, RunWorker 0), (p, TakeGenerated),
     (pd, InstallSeqReq (linst pd lv1 lv2)), (p, TakeInstallSeq), (pe, InstallSeqReq (linst pe lv1 lv2)), (p, TakeInstallSeq),
     (pd, StateUpdateReq lstale), (p, TakeStateUpdate), (pe, StateUpdateReq lstale), (p, TakeStateUpdate), (p, StateReady)]"

definition louts1 :: "Process \<Rightarrow> nat server_out list list" where
  "louts1 p = [[], [BroadcastReconfigRequest lv0 (lreq lv0 p)], [], [], [],
     [GeneratorSends (BroadcastViewSequence lv0 (lprop p lv0 lv1))], [], [], [],
     [GeneratorSends (BroadcastViewSequenceConv lv0 (lconv lv0 lv1))], [], [], [], [], [], [],
     [BroadcastInstallSeq (NewWithProcesses [pa, pb, pc, pd, pe, pc, pd, pe]) (linst p lv0 lv1)],
     [], [BroadcastInstallSeq (NewWithProcesses [pa, pb, pc, pd, pe, pc, pd, pe]) (linst pa lv0 lv1)],
     [], [BroadcastInstallSeq (NewWithProcesses [pa, pb, pc, pd, pe, pc, pd, pe]) (linst pb lv0 lv1)],
     [], [BroadcastInstallSeq (NewWithProcesses [pa, pb, pc, pd, pe, pc, pd, pe]) (linst pc lv0 lv1),
          BroadcastStateUpdate lv1 lst]]"

lemmas lv_evals = lv_eval levents1_def levents_c_def levents2_def louts1_def lstate_def lst_def lstale_def

lemma a_outs: "server_outs (map snd (levents1 pa pb pc)) (initServer ''a'' lv0) = louts1 pa"
  by (simp add: lv_evals del: LessUpdatedThan_wf_iff MoreUpdatedThan_wf_iff View_Equal_wf_iff)

lemma b_outs: "server_outs (map snd (levents1 pb pa pc)) (initServer ''b'' lv0) = louts1 pb"
  by (simp add: lv_evals del: LessUpdatedThan_wf_iff MoreUpdatedThan_wf_iff View_Equal_wf_iff)

definition louts_c :: "nat server_out list list" where
  "louts_c = [[], [], [], [], [], [],
     [BroadcastViewInstalled (NewWithProcesses (GetMembersNotIn lv0 lv1)) \<lparr>vim_InstalledView = lv1\<rparr>,
      ResetReconfigurationTimer],
     [BroadcastReconfigRequest lv1 (lreq lv1 pc)], [], [],
     [GeneratorSends (BroadcastViewSequence lv1 (lprop pc lv1 lv2))]]"

definition louts2 :: "Process \<Rightarrow> nat server_out list list" where
  "louts2 p = [[], [], [], [GeneratorSends (BroadcastViewSequence lv1 (lprop p lv1 lv2))],
     [GeneratorSends (BroadcastViewSequenceConv lv1 (lconv lv1 lv2))], [], [], [], [],
     [BroadcastInstallSeq (NewWithProcesses [pc, pd, pe, pd, pe]) (linst p lv1 lv2)], [],
     [BroadcastInstallSeq (NewWithProcesses [pc, pd, pe, pd, pe]) (linst pd lv1 lv2)], [],
     [BroadcastInstallSeq (NewWithProcesses [pc, pd, pe, pd, pe]) (linst pe lv1 lv2),
      BroadcastStateUpdate lv2 lstale], [], [], [], [],
     [BroadcastViewInstalled (NewWithProcesses (GetMembersNotIn lv1 lv2)) \<lparr>vim_InstalledView = lv2\<rparr>,
      ResetReconfigurationTimer]]"

lemma c_outs: "server_outs (map snd (levents1 pc pa pb @ levents_c)) (initServer ''c'' lv0) = louts1 pc @ louts_c"
  by (simp add: lv_evals louts_c_def del: LessUpdatedThan_wf_iff MoreUpdatedThan_wf_iff View_Equal_wf_iff)

lemma d_outs: "server_outs (map snd (levents2 pd)) (initServer ''d'' lv0) = louts2 pd"
  by (simp add: lv_evals louts2_def del: LessUpdatedThan_wf_iff MoreUpdatedThan_wf_iff View_Equal_wf_iff)

lemma e_outs: "server_outs (map snd (levents2 pe)) (initServer ''e'' lv0) = louts2 pe"
  by (simp add: lv_evals louts2_def del: LessUpdatedThan_wf_iff MoreUpdatedThan_wf_iff View_Equal_wf_iff)

lemma d_end: "RegisterService_Read (snd (server_run (map snd (levents2 pd)) (initServer ''d'' lv0))) (VRef lv2) =
    Reply zero_Value"
  by (simp add: lv_evals RegisterService_Read_def del: LessUpdatedThan_wf_iff MoreUpdatedThan_wf_iff View_Equal_wf_iff)

lemma e_end: "RegisterService_Read (snd (server_run (map snd (levents2 pe)) (initServer ''e'' lv0))) (VRef lv2) =
    Reply zero_Value"
  by (simp add: lv_evals RegisterService_Read_def del: LessUpdatedThan_wf_iff MoreUpdatedThan_wf_iff View_Equal_wf_iff)

section \<open>The whole run\<close>

text \<open>The servers, what each processes in the whole run, and how far each is.\<close>

definition lstart :: "Process \<Rightarrow> nat transition" where
  "lstart p = (case p of Process addr \<Rightarrow>
     if HasMember lv0 p then ([], initServer addr lv0)
     else (joinLocked (initServer addr lv0 :: nat Server), initServer addr lv0 \<lparr>registerLocked := True\<rparr>))"

definition levents :: "Process \<Rightarrow> (Process \<times> nat event) list" where
  "levents p = (if p = pa then levents1 pa pb pc else if p = pb then levents1 pb pa pc
     else if p = pc then levents1 pc pa pb @ levents_c
     else if p = pd then levents2 pd else if p = pe then levents2 pe else [])"

definition louts :: "Process \<Rightarrow> nat server_out list list" where
  "louts p = (if p = pa \<or> p = pb then louts1 p else if p = pc then louts1 p @ louts_c
     else if p = pd \<or> p = pe then louts2 p else [])"

fun pos :: "(Process \<times> nat) list \<Rightarrow> Process \<Rightarrow> nat" where
  "pos [] q = 0"
| "pos ((p, k) # n) q = (if q = p then k else pos n q)"

definition progress :: "(Process \<times> nat) list \<Rightarrow> nat history" where
  "progress n p = take (pos n p) (levents p)"

text \<open>A schedule: which server goes on to which position. Its messages must have been sent by then.\<close>

definition was_sent :: "(Process \<times> nat) list \<Rightarrow> Process \<Rightarrow> Process \<Rightarrow> nat event \<Rightarrow> bool" where
  "was_sent n q p e \<longleftrightarrow> (p, e) \<in> set (concat (map (packets q) (concat (take (pos n q) (louts q)))))"

fun all_sent :: "(Process \<times> nat) list \<Rightarrow> Process \<Rightarrow> (Process \<times> nat event) list \<Rightarrow> bool" where
  "all_sent n p [] = True"
| "all_sent n p ((q, e) # es) = ((message e \<longrightarrow> was_sent n q p e) \<and> all_sent n p es)"

fun schedule_ok :: "(Process \<times> nat) list \<Rightarrow> (Process \<times> nat) list \<Rightarrow> bool" where
  "schedule_ok [] n = True"
| "schedule_ok ((p, k) # moves) n =
     (pos n p \<le> k \<and> all_sent n p (drop (pos n p) (take k (levents p))) \<and> schedule_ok moves ((p, k) # n))"

lemma levents_outs: "server_outs (map snd (levents p)) (snd (lstart p)) = louts p"
  using a_outs b_outs c_outs d_outs e_outs
  by (simp add: levents_def louts_def lstart_def lv_has del: map_append split: Process.split)

lemma all_sentD: "all_sent n p es \<Longrightarrow> (q, e) \<in> set es \<Longrightarrow> message e \<Longrightarrow> was_sent n q p e"
  by (induction n p es rule: all_sent.induct) auto

lemma was_sent_network:
  assumes "was_sent n q p e"
  shows "(q, p, e) \<in> network lstart (progress n)"
proof -
  have "map snd (progress n q) = take (pos n q) (map snd (levents q))" by (simp add: progress_def take_map)
  then have "set (concat (take (pos n q) (louts q))) \<subseteq> set (outputs lstart (progress n) q)"
    using levents_outs [of q] by (simp add: outputs_def server_run_outs)
  with assms show ?thesis by (fastforce simp: was_sent_def network_def)
qed

lemma progress_step:
  assumes "happened lstart (progress n)" "pos n p \<le> k" "all_sent n p (drop (pos n p) (take k (levents p)))"
  shows "happened lstart (progress ((p, k) # n))"
proof -
  have "take k (levents p) = take (pos n p) (levents p) @ drop (pos n p) (take k (levents p))"
    using assms(2) by (metis append_take_drop_id min.absorb1 take_take)
  then have "progress ((p, k) # n) = later (progress n) p (drop (pos n p) (take k (levents p)))"
    by (simp add: progress_def later_def fun_eq_iff)
  moreover have "\<forall>(q, e) \<in> set (drop (pos n p) (take k (levents p))). message e \<longrightarrow>
      (q, p, e) \<in> network lstart (progress n)"
    using all_sentD [OF assms(3)] was_sent_network by blast
  ultimately show ?thesis using happened_batch [OF assms(1)] by simp
qed

lemma schedule_happens:
  "schedule_ok moves n \<Longrightarrow> happened lstart (progress n) \<Longrightarrow> happened lstart (progress (rev moves @ n))"
proof (induction moves arbitrary: n)
  case (Cons m moves)
  obtain p k where m: "m = (p, k)" by fastforce
  then have "happened lstart (progress ((p, k) # n))"
    using Cons.prems by (intro progress_step) simp_all
  with Cons m show ?case by simp
qed simp

lemma levents_simps:
  "levents pa = levents1 pa pb pc" "levents pb = levents1 pb pa pc"
  "levents pc = levents1 pc pa pb @ levents_c" "levents pd = levents2 pd" "levents pe = levents2 pe"
  "louts pa = louts1 pa" "louts pb = louts1 pb" "louts pc = louts1 pc @ louts_c" "louts pd = louts2 pd"
  "louts pe = louts2 pe"
  by (simp_all add: levents_def louts_def)

definition lschedule :: "(Process \<times> nat) list" where
  "lschedule = [(pa, 2), (pb, 2), (pc, 2), (pa, 6), (pb, 6), (pc, 6), (pd, 3), (pe, 3),
     (pa, 10), (pb, 10), (pc, 10), (pa, 17), (pb, 17), (pc, 17), (pa, 23), (pb, 23), (pc, 23),
     (pc, 31), (pc, 34), (pd, 5), (pe, 5), (pd, 10), (pe, 10), (pd, 14), (pe, 14), (pd, 19), (pe, 19)]"

lemma lschedule_ok: "schedule_ok lschedule []"
  by (simp add: lschedule_def was_sent_def levents_simps levents1_def levents_c_def levents2_def louts1_def
      louts_c_def louts2_def lv_lists lv_merged)


section \<open>Properties\<close>

definition lhist :: "nat history" where "lhist = progress (rev lschedule)"

lemma lhist_simps:
  "lhist pa = levents1 pa pb pc" "lhist pb = levents1 pb pa pc" "lhist pc = levents1 pc pa pb @ levents_c"
  "lhist pd = levents2 pd" "lhist pe = levents2 pe"
  by (simp_all add: lhist_def progress_def lschedule_def levents_simps)
    (simp_all add: levents1_def levents_c_def levents2_def)

lemma lhist_other: "p \<notin> {pa, pb, pc, pd, pe} \<Longrightarrow> lhist p = []"
  by (simp add: lhist_def progress_def levents_def)

lemma lhist_happened: "happened lstart lhist"
proof -
  have "progress [] = (\<lambda>_. [])" by (simp add: progress_def fun_eq_iff)
  then show ?thesis
    using schedule_happens [OF lschedule_ok] happened.Start [of lstart] by (simp add: lhist_def)
qed

lemma lhist_once: "distinct (filter (\<lambda>(q, e). message e) (lhist p))"
proof (cases "p \<in> {pa, pb, pc, pd, pe}")
  case True
  then show ?thesis
    by (auto simp: lhist_simps levents1_def levents_c_def levents2_def lreq_def)
qed (simp add: lhist_other)

lemma lstart_ok: "well_started lstart"
  unfolding well_started_def
proof
  fix addr
  have "NewServer (Some addr) False lv0 False =
      Created (fst (lstart (Process addr))) (snd (lstart (Process addr)))"
    by (simp add: NewServer_def lstart_def joinLocked_def Let_def)
  then show "\<exists>u c. wf_view u \<and> NewServer (Some addr) False u c =
      Created (fst (lstart (Process addr))) (snd (lstart (Process addr)))"
    using lv_wf(1) by blast
qed

lemma lhist_end:
  "RegisterService_Read (server_at lstart lhist pd) (VRef lv2) = Reply zero_Value"
  "RegisterService_Read (server_at lstart lhist pe) (VRef lv2) = Reply zero_Value"
  using d_end e_end by (simp_all add: server_at_def lhist_simps lstart_def lv_has)


text \<open>Answers that carry the zero value, as the replies to reads before and after the run do.\<close>

lemma zero_answers:
  "msg_Err (answer p (Reply zero_Value)) = None" "msg_Timestamp (answer p (Reply zero_Value)) = 0"
  "msg_Value (answer p (Reply zero_Value)) = None"
  by (simp_all add: answer_def send_reply_def of_Value_def zero_Value_def)

lemma lwrite_answers:
  "RegisterService_Read (snd (lstart p)) (VRef lv0) = Reply zero_Value"
  "fst (RegisterService_Write (snd (lstart p)) lmsg) = Reply zero_Value" if "p \<in> {pa, pb, pc}"
  using that by (auto simp: lstart_def lv_has RegisterService_Read_def RegisterService_Write_def lmsg_def
      zero_Value_def)

lemma lv_counts: "NumberOfMembers lv0 = 5" "NumberOfToleratedFaults lv0 = 2" "NumberOfMembers lv2 = 2"
  "NumberOfToleratedFaults lv2 = 0"
  by (simp_all add: NumberOfMembers_def ToleratedFaults_eq lv_members)

text \<open>C30: A completed write can be lost when a server lags behind. Five servers with the write of a
  client, acknowledged by \<open>a\<close>, \<open>b\<close> and \<open>c\<close>, remove \<open>a\<close> and \<open>b\<close> and then \<open>c\<close>. While \<open>c\<close> has installed
  the second view, \<open>d\<close> and \<open>e\<close> are still in the first when the quorum to leave the second
  reaches them: both hand over their old state as the state of the second view and install
  the third view with it. Every message of the run was sent by a server and is received
  once, and afterwards a client that reads in the third view gets the initial value.\<close>

theorem late_servers_lose_a_write:
  "well_started lstart \<and> happened lstart lhist \<and> (\<forall>p. distinct (filter (\<lambda>(q, e). message e) (lhist p))) \<and>
   map (hd \<circ> lhist) [pa, pb, pc] = [(pa, WriteReq lmsg), (pb, WriteReq lmsg), (pc, WriteReq lmsg)] \<and>
   (\<exists>w c env. Client_Write (Some 7) \<lparr>cl_view = lv0, num2ndPhaseReads = 0, cl_err = None\<rparr>
      \<lparr>attempts = [map (\<lambda>p. answer p (RegisterService_Read (snd (lstart p)) (VRef lv0))) [pa, pb, pc],
         map (\<lambda>p. answer p (fst (RegisterService_Write (snd (lstart p)) lmsg))) [pa, pb, pc]],
       furtherViews = []\<rparr> = Some (None, Some w, c, env) \<and> to_Value w = lmsg \<and> msg_Timestamp w = 1) \<and>
   (\<exists>r c env. Client_Read \<lparr>cl_view = lv2, num2ndPhaseReads = 0, cl_err = None\<rparr>
      \<lparr>attempts = [map (\<lambda>p. answer p (RegisterService_Read (server_at lstart lhist p) (VRef lv2))) [pd, pe]],
       furtherViews = []\<rparr> = Some (None, r, c, env) \<and> msg_Timestamp r = 0 \<and> msg_Value r = None)"
proof (intro conjI)
  let ?w = "zero_RegisterMsg\<lparr>msg_Value := Some 7, msg_Timestamp := 1, msg_ViewRef := VRef lv0\<rparr> :: nat RegisterMsg"
  let ?z = "\<lambda>p. answer p (Reply zero_Value) :: nat RegisterMsg"
  have "read_loop lv0 0 [] zero_RegisterMsg [?z pa, ?z pb, ?z pc] = ReadDone zero_RegisterMsg True"
    "write_loop lv0 0 0 [?z pa, ?z pb, ?z pc] = WriteDone" "go_int 1 = 1"
    by (simp_all add: zero_answers read_check_def write_check_def lv_members lv_counts go_int_def Let_def
        zero_RegisterMsg_def)
  then have "Client_Write (Some 7) \<lparr>cl_view = lv0, num2ndPhaseReads = 0, cl_err = None\<rparr>
      \<lparr>attempts = [[?z pa, ?z pb, ?z pc], [?z pa, ?z pb, ?z pc]], furtherViews = []\<rparr> =
    Some (None, Some ?w, \<lparr>cl_view = lv0, num2ndPhaseReads = 0, cl_err = None\<rparr>,
      \<lparr>attempts = [], furtherViews = []\<rparr>)"
    by (simp add: Client_Write_def readQuorum_def writeQuorum_def Let_def del: read_loop.simps write_loop.simps)
      (simp add: zero_RegisterMsg_def)
  moreover have "to_Value ?w = lmsg" by (simp add: to_Value_def lmsg_def zero_Value_def zero_RegisterMsg_def)
  ultimately show "\<exists>w c env. Client_Write (Some 7) \<lparr>cl_view = lv0, num2ndPhaseReads = 0, cl_err = None\<rparr>
      \<lparr>attempts = [map (\<lambda>p. answer p (RegisterService_Read (snd (lstart p)) (VRef lv0))) [pa, pb, pc],
         map (\<lambda>p. answer p (fst (RegisterService_Write (snd (lstart p)) lmsg))) [pa, pb, pc]],
       furtherViews = []\<rparr> = Some (None, Some w, c, env) \<and> to_Value w = lmsg \<and> msg_Timestamp w = 1"
    by (simp add: lwrite_answers)
  have "read_loop lv2 0 [] zero_RegisterMsg [?z pd, ?z pe] = ReadDone zero_RegisterMsg True"
    by (simp add: zero_answers read_check_def lv_members lv_counts Let_def zero_RegisterMsg_def)
  then show "\<exists>r c env. Client_Read \<lparr>cl_view = lv2, num2ndPhaseReads = 0, cl_err = None\<rparr>
      \<lparr>attempts = [map (\<lambda>p. answer p (RegisterService_Read (server_at lstart lhist p) (VRef lv2))) [pd, pe]],
       furtherViews = []\<rparr> = Some (None, r, c, env) \<and> msg_Timestamp r = 0 \<and> msg_Value r = None"
    by (simp add: Client_Read_def readQuorum_def lhist_end del: read_loop.simps)
      (simp add: zero_RegisterMsg_def)
qed (auto simp: lstart_ok lhist_happened lhist_once lhist_simps levents1_def)

text \<open>The invariant of the deployment along this run.\<close>

theorem deployment_invariant_witness:
  "wf_view (currentView (server_at lstart lhist pd)) \<and>
   recv (server_at lstart lhist pd) \<inter> Entries (currentView (server_at lstart lhist pd)) = {}"
  using deployment_invariant [OF lstart_ok lhist_happened, of pd] by simp

end
