(* ===== verification/Consensus_Storage.thy ===== *)
theory Consensus_Storage
  imports Views
begin

text \<open>
  \<^verbatim>\<open>pkg/consensus/storage.go\<close>: what a process of the consensus writes to its key-value store.

  The store is \<^verbatim>\<open>github.com/cznic/kv\<close>, a package outside this repository: its \<^verbatim>\<open>Set\<close> and
  \<^verbatim>\<open>Get\<close> are the fields of the record \<open>kv\<close>, an argument of every definition, and \<open>kv_ok\<close> is
  the documented behaviour the theorems rely on (a key holds what was last set under it).
  The numbers are written and read back with \<^verbatim>\<open>encoding/gob\<close>, whose wire format for a
  single integer is defined here byte by byte. Accepted proposals and prepare requests are
  written and never read, and their values have any type, so their encoding is a parameter
  that may fail.
\<close>

section \<open>Data\<close>

datatype consensus_error = OldProposalNumberErr | RPCError string

text \<open>A \<^verbatim>\<open>nil\<close> view pointer or value is \<open>None\<close>.\<close>

record 'v Proposal =
  AssociatedView :: "View option"
  PN :: int
  PValue :: "'v option"
  PErr :: "consensus_error option"

definition zero_Proposal :: "'v Proposal" where
  "zero_Proposal = \<lparr>AssociatedView = None, PN = 0, PValue = None, PErr = None\<rparr>"

lemma zero_Proposal_simps [simp]:
  "AssociatedView zero_Proposal = None" "PN zero_Proposal = 0" "PValue zero_Proposal = None"
  "PErr zero_Proposal = None"
  by (simp_all add: zero_Proposal_def)

section \<open>The wire format of an integer\<close>

fun gob_bytes :: "nat \<Rightarrow> byte list" where
  "gob_bytes n = (if n < 256 then [of_nat n] else gob_bytes (n div 256) @ [of_nat (n mod 256)])"

declare gob_bytes.simps [simp del]

definition gob_value :: "byte list \<Rightarrow> nat" where
  "gob_value bs = foldl (\<lambda>n b. n * 256 + unat b) 0 bs"

text \<open>Up to 127 a number is its own byte; else the negated count of its bytes comes first.\<close>

definition gob_uint :: "nat \<Rightarrow> byte list" where
  "gob_uint n = (if n \<le> 127 then [of_nat n]
     else let bs = gob_bytes n in of_nat (256 - length bs) # bs)"

definition gob_read_uint :: "byte list \<Rightarrow> (nat \<times> byte list) option" where
  "gob_read_uint bs =
     (case bs of
        [] \<Rightarrow> None
      | b # rest \<Rightarrow>
          if unat b \<le> 127 then Some (unat b, rest)
          else let n = 256 - unat b in
            if n > 8 \<or> length rest < n then None
            else Some (gob_value (take n rest), drop n rest))"

text \<open>The sign is the lowest bit.\<close>

definition gob_sint :: "int \<Rightarrow> byte list" where
  "gob_sint i = gob_uint (if i < 0 then nat (2 * (- i - 1) + 1) else nat (2 * i))"

definition gob_read_sint :: "byte list \<Rightarrow> (int \<times> byte list) option" where
  "gob_read_sint bs =
     (case gob_read_uint bs of
        None \<Rightarrow> None
      | Some (x, rest) \<Rightarrow> Some (if odd x then - int (x div 2) - 1 else int (x div 2), rest))"

text \<open>The message: its length, the type number of \<^verbatim>\<open>int\<close>, a zero byte, the integer.\<close>

definition gob_int :: "int \<Rightarrow> byte list" where
  "gob_int i = (let body = gob_sint 2 @ gob_uint 0 @ gob_sint i in gob_uint (length body) @ body)"

definition gob_read_int :: "byte list \<Rightarrow> int option" where
  "gob_read_int bs =
     (case gob_read_uint bs of
        None \<Rightarrow> None
      | Some (len, body) \<Rightarrow>
          if length body < len then None
          else case gob_read_sint (take len body) of
            None \<Rightarrow> None
          | Some (ty, b1) \<Rightarrow>
              if ty \<noteq> 2 then None
              else case gob_read_uint b1 of
                None \<Rightarrow> None
              | Some (z, b2) \<Rightarrow> if z \<noteq> 0 then None else map_option fst (gob_read_sint b2))"

section \<open>Keys\<close>

fun fmt_nat :: "nat \<Rightarrow> string" where
  "fmt_nat n = (if n < 10 then [char_of (48 + n)] else fmt_nat (n div 10) @ [char_of (48 + n mod 10)])"

declare fmt_nat.simps [simp del]

definition proposalNumber_key :: "nat \<Rightarrow> string" where
  "proposalNumber_key consensusId = ''lastProposalNumber_'' @ fmt_nat consensusId"

definition acceptedProposal_key :: "nat \<Rightarrow> string" where
  "acceptedProposal_key consensusId = ''acceptedProposal_'' @ fmt_nat consensusId"

definition prepareRequest_key :: "nat \<Rightarrow> string" where
  "prepareRequest_key consensusId = ''prepareRequest_'' @ fmt_nat consensusId"

section \<open>Operations\<close>

record ('db, 'v) kv =
  kv_Set :: "'db \<Rightarrow> string \<Rightarrow> byte list \<Rightarrow> string + 'db"
  kv_Get :: "'db \<Rightarrow> string \<Rightarrow> string + byte list option"
  gob_Proposal :: "'v Proposal \<Rightarrow> string + byte list"
  gob_Prepare :: "'v Proposal \<Rightarrow> string + byte list"

text \<open>The store is created in memory when the process starts; the argument is what \<^verbatim>\<open>kv.CreateMem\<close> returns.\<close>

definition initStorage :: "string + 'db \<Rightarrow> 'db outcome" where
  "initStorage created =
     (case created of Inl err \<Rightarrow> Fatal ''initStorage error:'' | Inr storage \<Rightarrow> Returns storage)"

definition saveProposalNumberOnStorage :: "('db, 'v) kv \<Rightarrow> nat \<Rightarrow> int \<Rightarrow> 'db \<Rightarrow> 'db outcome" where
  "saveProposalNumberOnStorage kv consensusId proposalNumber db =
     (case kv_Set kv db (proposalNumber_key consensusId) (gob_int proposalNumber) of
        Inl err \<Rightarrow> Fatal ''storage.Set failed:''
      | Inr db1 \<Rightarrow> Returns db1)"

text \<open>The number and the error of \<^verbatim>\<open>getLastProposalNumber\<close>.\<close>

definition getLastProposalNumber ::
    "('db, 'v) kv \<Rightarrow> nat \<Rightarrow> 'db \<Rightarrow> (int \<times> string option) outcome" where
  "getLastProposalNumber kv consensusId db =
     (case kv_Get kv db (proposalNumber_key consensusId) of
        Inl err \<Rightarrow> Fatal err
      | Inr None \<Rightarrow> Returns (0, Some ''Last proposal number not found'')
      | Inr (Some lastProposalNumberBytes) \<Rightarrow>
          (case gob_read_int lastProposalNumberBytes of
             None \<Rightarrow> Fatal ''dec.Decode failed:''
           | Some lastProposalNumber \<Rightarrow> Returns (lastProposalNumber, None)))"

definition saveAcceptedProposalOnStorage ::
    "('db, 'v) kv \<Rightarrow> nat \<Rightarrow> 'v Proposal \<Rightarrow> 'db \<Rightarrow> 'db outcome" where
  "saveAcceptedProposalOnStorage kv ciId proposal db =
     (case gob_Proposal kv proposal of
        Inl err \<Rightarrow> Fatal ''enc.Encode failed:''
      | Inr bytes \<Rightarrow>
          (case kv_Set kv db (acceptedProposal_key ciId) bytes of
             Inl err \<Rightarrow> Fatal ''ERROR to save acceptedProposal:''
           | Inr db1 \<Rightarrow> Returns db1))"

definition savePrepareRequestOnStorage ::
    "('db, 'v) kv \<Rightarrow> nat \<Rightarrow> 'v Proposal \<Rightarrow> 'db \<Rightarrow> 'db outcome" where
  "savePrepareRequestOnStorage kv ciId proposal db =
     (case gob_Prepare kv proposal of
        Inl err \<Rightarrow> Fatal ''enc.Encode failed:''
      | Inr bytes \<Rightarrow>
          (case kv_Set kv db (prepareRequest_key ciId) bytes of
             Inl err \<Rightarrow> Fatal ''ERROR to save prepareRequest:''
           | Inr db1 \<Rightarrow> Returns db1))"

definition kv_ok :: "('db, 'v) kv \<Rightarrow> bool" where
  "kv_ok kv \<longleftrightarrow> (\<forall>db k b db1. kv_Set kv db k b = Inr db1 \<longrightarrow>
     (\<forall>k'. kv_Get kv db1 k' = (if k' = k then Inr (Some b) else kv_Get kv db k')))"

section \<open>Round trips\<close>

lemma gob_value_snoc: "gob_value (bs @ [b]) = gob_value bs * 256 + unat b"
  by (simp add: gob_value_def)

lemma unat_byte: "n < 256 \<Longrightarrow> unat (of_nat n :: byte) = n"
  by (simp add: unat_of_nat take_bit_nat_eq_self)

lemma gob_value_bytes: "gob_value (gob_bytes n) = n"
proof (induction n rule: gob_bytes.induct)
  case (1 n)
  show ?case
  proof (cases "n < 256")
    case True
    then show ?thesis by (simp add: gob_bytes.simps [of n] gob_value_def unat_byte)
  next
    case False
    then have "gob_value (gob_bytes n) = n div 256 * 256 + n mod 256"
      using 1 by (simp add: gob_bytes.simps [of n] gob_value_snoc unat_byte)
    then show ?thesis by simp
  qed
qed

lemma length_gob_bytes: "n < 256 ^ k \<Longrightarrow> 0 < k \<Longrightarrow> length (gob_bytes n) \<le> k"
proof (induction k arbitrary: n)
  case (Suc k)
  show ?case
  proof (cases "n < 256")
    case False
    then have "0 < k" using Suc.prems by (cases k) simp_all
    moreover have "n div 256 < 256 ^ k" using Suc.prems(1) by (simp add: less_mult_imp_div_less mult.commute)
    ultimately show ?thesis using Suc.IH False by (simp add: gob_bytes.simps [of n])
  qed (simp add: gob_bytes.simps [of n])
qed simp

lemma gob_bytes_pos: "0 < length (gob_bytes n)"
  by (simp add: gob_bytes.simps [of n])

lemma gob_read_uint_append:
  assumes "n < 2 ^ 64"
  shows "gob_read_uint (gob_uint n @ rest) = Some (n, rest)"
proof (cases "n \<le> 127")
  case True
  then show ?thesis by (simp add: gob_uint_def gob_read_uint_def unat_byte)
next
  case False
  let ?bs = "gob_bytes n"
  have len: "length ?bs \<le> 8" using length_gob_bytes [of n 8] assms by simp
  have "unat (of_nat (256 - length ?bs) :: byte) = 256 - length ?bs"
    using gob_bytes_pos [of n] by (intro unat_byte) simp
  moreover have "256 - (256 - length ?bs) = length ?bs" using len by simp
  moreover have "\<not> 256 - length ?bs \<le> 127" using len by simp
  ultimately show ?thesis
    using False len by (simp add: gob_uint_def gob_read_uint_def Let_def gob_value_bytes)
qed

lemma length_gob_uint: "n < 2 ^ 64 \<Longrightarrow> length (gob_uint n) \<le> 9"
  using length_gob_bytes [of n 8] by (simp add: gob_uint_def Let_def)

lemma gob_read_sint_append:
  assumes "- (2 ^ 63) \<le> i" "i < 2 ^ 63"
  shows "gob_read_sint (gob_sint i @ rest) = Some (i, rest)"
proof (cases "i < 0")
  case True
  have "nat (2 * (- i - 1) + 1) < 2 ^ 64" using assms True by simp
  moreover have "odd (nat (2 * (- i - 1) + 1))" "int (nat (2 * (- i - 1) + 1) div 2) = - i - 1"
    using True by (simp_all add: even_nat_iff zdiv_int)
  ultimately show ?thesis using True
    by (simp add: gob_sint_def gob_read_sint_def gob_read_uint_append)
next
  case False
  have "nat (2 * i) < 2 ^ 64" using assms False by simp
  moreover have "even (nat (2 * i))" "int (nat (2 * i) div 2) = i"
    using False by (simp_all add: even_nat_iff zdiv_int)
  ultimately show ?thesis using False
    by (simp add: gob_sint_def gob_read_sint_def gob_read_uint_append)
qed

lemma length_gob_sint:
  assumes "- (2 ^ 63) \<le> i" "i < 2 ^ 63"
  shows "length (gob_sint i) \<le> 9"
  using assms unfolding gob_sint_def by (intro length_gob_uint) auto

lemma gob_int_round_trip:
  assumes "- (2 ^ 63) \<le> i" "i < 2 ^ 63"
  shows "gob_read_int (gob_int i) = Some i"
proof -
  let ?body = "gob_sint 2 @ gob_uint 0 @ gob_sint i"
  have "length (gob_sint 2) \<le> 9" "length (gob_uint 0) \<le> 9" "length (gob_sint i) \<le> 9"
    using assms by (intro length_gob_sint length_gob_uint; simp)+
  then have "length ?body < 2 ^ 64" by simp
  then have "gob_read_uint (gob_int i) = Some (length ?body, ?body)"
    by (simp only: gob_int_def Let_def gob_read_uint_append)
  moreover have "gob_read_sint ?body = Some (2, gob_uint 0 @ gob_sint i)"
    by (simp add: gob_read_sint_append)
  moreover have "gob_read_uint (gob_uint 0 @ gob_sint i) = Some (0, gob_sint i)"
    by (simp add: gob_read_uint_append)
  moreover have "gob_read_sint (gob_sint i) = Some (i, [])"
    using gob_read_sint_append [OF assms, of "[]"] by simp
  ultimately show ?thesis by (simp add: gob_read_int_def)
qed

text \<open>Decimal numbers determine their value, so the keys of different instances differ.\<close>

definition dec_value :: "string \<Rightarrow> nat" where
  "dec_value cs = foldl (\<lambda>n c. n * 10 + (of_char c - 48)) 0 cs"

lemma dec_value_fmt: "dec_value (fmt_nat n) = n"
proof (induction n rule: fmt_nat.induct)
  case (1 n)
  show ?case
  proof (cases "n < 10")
    case True
    then show ?thesis by (simp add: fmt_nat.simps [of n] dec_value_def)
  next
    case False
    then have "dec_value (fmt_nat n) = n div 10 * 10 + n mod 10"
      using 1 by (simp add: fmt_nat.simps [of n] dec_value_def)
    then show ?thesis by simp
  qed
qed

lemma fmt_nat_inject [simp]: "fmt_nat m = fmt_nat n \<longleftrightarrow> m = n"
  by (metis dec_value_fmt)

lemma keys_distinct [simp]:
  "proposalNumber_key i = proposalNumber_key j \<longleftrightarrow> i = j"
  "proposalNumber_key i \<noteq> acceptedProposal_key j" "proposalNumber_key i \<noteq> prepareRequest_key j"
  "acceptedProposal_key j \<noteq> proposalNumber_key i" "prepareRequest_key j \<noteq> proposalNumber_key i"
  by (simp_all add: proposalNumber_key_def acceptedProposal_key_def prepareRequest_key_def)

lemma kv_get_set:
  assumes "kv_ok kv" "kv_Set kv db k b = Inr db1"
  shows "kv_Get kv db1 k' = (if k' = k then Inr (Some b) else kv_Get kv db k')"
  using assms unfolding kv_ok_def by blast

lemma getLast_saved:
  assumes "kv_ok kv" "- (2 ^ 63) \<le> n" "n \<le> max_int64" "saveProposalNumberOnStorage kv i n db = Returns db1"
  shows "getLastProposalNumber kv j db1 = (if j = i then Returns (n, None) else getLastProposalNumber kv j db)"
proof -
  have "gob_read_int (gob_int n) = Some n" using assms(2,3) by (intro gob_int_round_trip) simp_all
  moreover have "kv_Set kv db (proposalNumber_key i) (gob_int n) = Inr db1"
    using assms(4) by (simp add: saveProposalNumberOnStorage_def split: sum.splits)
  note kv_get_set [OF assms(1) this]
  ultimately show ?thesis by (simp add: getLastProposalNumber_def)
qed

lemma getLast_other:
  assumes "kv_ok kv"
  shows "saveAcceptedProposalOnStorage kv i p db = Returns db1 \<Longrightarrow>
      getLastProposalNumber kv j db1 = getLastProposalNumber kv j db"
    and "savePrepareRequestOnStorage kv i p db = Returns db1 \<Longrightarrow>
      getLastProposalNumber kv j db1 = getLastProposalNumber kv j db"
  using kv_get_set [OF assms]
  by (auto simp: saveAcceptedProposalOnStorage_def savePrepareRequestOnStorage_def getLastProposalNumber_def
      split: sum.splits)

section \<open>Properties\<close>

text \<open>C24: A saved proposal number is read back unchanged, for every 64-bit integer: writing it in the
  wire format of gob and reading it from the store gives the number and no error. The numbers
  of other instances, and the reports that there is none, stay as they were, and saving an
  accepted proposal or a prepare request of any instance does not disturb them.\<close>

theorem proposal_number_round_trip:
  assumes "kv_ok kv" "- (2 ^ 63) \<le> n" "n \<le> max_int64"
  shows "(saveProposalNumberOnStorage kv i n db = Returns db1 \<longrightarrow>
      getLastProposalNumber kv i db1 = Returns (n, None) \<and>
      (\<forall>j. j \<noteq> i \<longrightarrow> getLastProposalNumber kv j db1 = getLastProposalNumber kv j db)) \<and>
    (saveAcceptedProposalOnStorage kv i p db = Returns db1 \<longrightarrow>
      getLastProposalNumber kv j db1 = getLastProposalNumber kv j db) \<and>
    (savePrepareRequestOnStorage kv i p db = Returns db1 \<longrightarrow>
      getLastProposalNumber kv j db1 = getLastProposalNumber kv j db)"
  using getLast_saved [OF assms] getLast_other [OF assms(1)] by simp

text \<open>A store in memory, as \<^verbatim>\<open>kv.CreateMem\<close> makes it, with nothing that can fail.\<close>

definition mem_kv :: "(string \<rightharpoonup> byte list, 'v) kv" where
  "mem_kv = \<lparr>kv_Set = (\<lambda>db k b. Inr (db(k \<mapsto> b))), kv_Get = (\<lambda>db k. Inr (db k)),
     gob_Proposal = (\<lambda>p. Inr (gob_int (PN p))), gob_Prepare = (\<lambda>p. Inr (gob_int (PN p)))\<rparr>"

lemma mem_kv_ok: "kv_ok mem_kv"
  by (simp add: kv_ok_def mem_kv_def)

theorem proposal_number_round_trip_witness:
  "getLastProposalNumber (mem_kv :: (_, nat) kv) 3
     (Map.empty(proposalNumber_key 3 \<mapsto> gob_int (- 129))) = Returns (- 129, None) \<and>
   gob_int 7 = [3, 4, 0, 14] \<and> gob_int (- 129) = [5, 4, 0, 254, 1, 1]"
proof -
  have "saveProposalNumberOnStorage (mem_kv :: (_, nat) kv) 3 (- 129) Map.empty =
      Returns (Map.empty(proposalNumber_key 3 \<mapsto> gob_int (- 129)))"
    by (simp add: saveProposalNumberOnStorage_def mem_kv_def)
  with proposal_number_round_trip [OF mem_kv_ok, of "- 129" 3 Map.empty
      "Map.empty(proposalNumber_key 3 \<mapsto> gob_int (- 129))" "zero_Proposal :: nat Proposal" 0]
  have "getLastProposalNumber (mem_kv :: (_, nat) kv) 3
      (Map.empty(proposalNumber_key 3 \<mapsto> gob_int (- 129))) = Returns (- 129, None)"
    by simp
  then show ?thesis
    by (simp add: gob_int_def gob_sint_def gob_uint_def gob_bytes.simps Let_def)
qed

end
