(* ===== verification/Quorum_Tally.thy ===== *)
theory Quorum_Tally
  imports Views
begin

text \<open>
  The counting loop that the broadcast of \<^verbatim>\<open>pkg/comm\<close> and both phases of \<^verbatim>\<open>pkg/consensus\<close> have in
  common: replies are counted as they arrive, the loop succeeds with the reply that completes
  a quorum and fails with the first failure beyond the tolerated ones. \<open>tally\<close> is its
  reference definition on the flags of the replies; its lemmas are proved once and the
  components show that their loops compute it.
\<close>

fun tally :: "nat \<Rightarrow> int \<Rightarrow> nat \<Rightarrow> nat \<Rightarrow> bool list \<Rightarrow> bool option" where
  "tally q t s f [] = None"
| "tally q t s f (b # bs) =
     (if b then if s + 1 = q then Some True else tally q t (s + 1) f bs
      else if int (f + 1) > t then Some False else tally q t s (f + 1) bs)"

abbreviation successes :: "bool list \<Rightarrow> nat" where "successes bs \<equiv> length (filter (\<lambda>b. b) bs)"

abbreviation failures :: "bool list \<Rightarrow> nat" where "failures bs \<equiv> length (filter Not bs)"

text \<open>A result is reached by the shortest prefix that decides, and rests on that prefix alone.\<close>

lemma tally_Some:
  assumes "tally q t s f bs = Some ok" "s < q" "int f \<le> t"
  shows "\<exists>taken rest. bs = taken @ rest \<and> taken \<noteq> [] \<and> last taken = ok \<and>
    (if ok then s + successes taken = q \<and> int (f + failures taken) \<le> t
     else s + successes taken < q \<and> int (f + failures taken) = t + 1)"
  using assms
proof (induction bs arbitrary: s f)
  case (Cons b bs)
  show ?case
  proof (cases "if b then s + 1 = q else int (f + 1) > t")
    case True
    then show ?thesis using Cons.prems
      by (intro exI [of _ "[b]"] exI [of _ bs]) (auto split: if_splits)
  next
    case False
    let ?s = "if b then s + 1 else s" and ?f = "if b then f else f + 1"
    have "tally q t ?s ?f bs = Some ok" "?s < q" "int ?f \<le> t"
      using Cons.prems False by (auto split: if_splits)
    from Cons.IH [OF this] obtain taken rest where "bs = taken @ rest" "taken \<noteq> []" "last taken = ok"
      "if ok then ?s + successes taken = q \<and> int (?f + failures taken) \<le> t
       else ?s + successes taken < q \<and> int (?f + failures taken) = t + 1" by blast
    then show ?thesis by (intro exI [of _ "b # taken"] exI [of _ rest]) (auto split: if_splits)
  qed
qed simp

text \<open>It waits exactly as long as neither count is reached.\<close>

lemma tally_None:
  assumes "s < q" "int f \<le> t"
  shows "tally q t s f bs = None \<longleftrightarrow> s + successes bs < q \<and> int (f + failures bs) \<le> t"
  using assms by (induction bs arbitrary: s f) auto

lemma quorum_and_faults:
  assumes "NumberOfMembers v \<noteq> 0"
  shows "int (QuorumSize v) + NumberOfToleratedFaults v = int (NumberOfMembers v)"
    "0 \<le> NumberOfToleratedFaults v"
proof -
  obtain m where "NumberOfMembers v = Suc m" using assms not0_implies_Suc by blast
  then show "int (QuorumSize v) + NumberOfToleratedFaults v = int (NumberOfMembers v)"
    "0 \<le> NumberOfToleratedFaults v"
    by (simp_all add: QuorumSize_eq ToleratedFaults_eq)
qed

lemma successes_failures: "successes bs + failures bs = length bs"
  by (induction bs) auto

abbreviation view_tally :: "View \<Rightarrow> bool list \<Rightarrow> bool option" where
  "view_tally v \<equiv> tally (QuorumSize v) (NumberOfToleratedFaults v) 0 0"

text \<open>Once every member answered, the loop has ended.\<close>

lemma view_tally_returns:
  assumes "NumberOfMembers v \<noteq> 0" "NumberOfMembers v \<le> length bs"
  shows "view_tally v bs \<noteq> None"
proof
  assume "view_tally v bs = None"
  then have "successes bs < QuorumSize v \<and> int (failures bs) \<le> NumberOfToleratedFaults v"
    using tally_None [of 0 "QuorumSize v" 0 "NumberOfToleratedFaults v" bs] quorum_and_faults(2) [OF assms(1)]
    by simp
  then show False
    using quorum_and_faults(1) [OF assms(1)] successes_failures [of bs] assms(2) by simp
qed

lemma view_tally_True:
  assumes "view_tally v bs = Some True" "NumberOfMembers v \<noteq> 0"
  obtains taken rest where "bs = taken @ rest" "successes taken = QuorumSize v"
    "int (failures taken) \<le> NumberOfToleratedFaults v"
  using tally_Some [OF assms(1)] quorum_and_faults(2) [OF assms(2)] by auto

lemma view_tally_False:
  assumes "view_tally v bs = Some False" "NumberOfMembers v \<noteq> 0"
  obtains taken rest where "bs = taken @ rest" "successes taken < QuorumSize v"
    "int (failures taken) = NumberOfToleratedFaults v + 1"
  using tally_Some [OF assms(1)] quorum_and_faults(2) [OF assms(2)] by auto

text \<open>With an empty view nobody answers and the loop waits for ever.\<close>

lemma view_tally_empty: "view_tally v [] = None"
  by simp

lemma tally_append: "tally q t s f bs = Some ok \<Longrightarrow> tally q t s f (bs @ cs) = Some ok"
  by (induction bs arbitrary: s f) (simp_all split: if_splits)

text \<open>It succeeds exactly when some prefix holds a quorum of successes and no more failures than tolerated.\<close>

lemma view_tally_True_iff:
  assumes "NumberOfMembers v \<noteq> 0"
  shows "view_tally v bs = Some True \<longleftrightarrow> (\<exists>taken rest. bs = taken @ rest \<and>
    successes taken = QuorumSize v \<and> int (failures taken) \<le> NumberOfToleratedFaults v)"
proof
  assume "view_tally v bs = Some True"
  then show "\<exists>taken rest. bs = taken @ rest \<and>
      successes taken = QuorumSize v \<and> int (failures taken) \<le> NumberOfToleratedFaults v"
    using view_tally_True [OF _ assms] by metis
next
  assume "\<exists>taken rest. bs = taken @ rest \<and>
      successes taken = QuorumSize v \<and> int (failures taken) \<le> NumberOfToleratedFaults v"
  then obtain taken rest where bs: "bs = taken @ rest" and s: "successes taken = QuorumSize v"
    and f: "int (failures taken) \<le> NumberOfToleratedFaults v" by blast
  have "view_tally v taken \<noteq> None"
    using s f tally_None [of 0 "QuorumSize v" 0 "NumberOfToleratedFaults v" taken] quorum_and_faults(2) [OF assms]
    by simp
  moreover have "view_tally v taken \<noteq> Some False"
  proof
    assume "view_tally v taken = Some False"
    from view_tally_False [OF this assms] obtain a b where "taken = a @ b"
      "int (failures a) = NumberOfToleratedFaults v + 1" by blast
    then show False using f by simp
  qed
  ultimately have "view_tally v taken = Some True" by (cases "view_tally v taken") auto
  then show "view_tally v bs = Some True" using tally_append bs by simp
qed

lemma view_tally_map_True_iff:
  assumes "NumberOfMembers v \<noteq> 0"
  shows "view_tally v (map ok rs) = Some True \<longleftrightarrow> (\<exists>taken rest. rs = taken @ rest \<and>
    length (filter ok taken) = QuorumSize v \<and>
    int (length taken - length (filter ok taken)) \<le> NumberOfToleratedFaults v)"
proof -
  have s: "successes (map ok xs) = length (filter ok xs)" for xs by (induction xs) auto
  have f: "failures (map ok xs) = length xs - length (filter ok xs)" for xs
    using successes_failures [of "map ok xs"] s [of xs] by simp
  have split: "(\<exists>taken rest. map ok rs = taken @ rest \<and> P taken) \<longleftrightarrow>
      (\<exists>taken rest. rs = taken @ rest \<and> P (map ok taken))" for P
    by (auto simp: map_eq_append_conv)
  show ?thesis by (simp only: view_tally_True_iff [OF assms] split s f)
qed

end
