(* ===== verification/Consensus.thy ===== *)
theory Consensus
  imports Consensus_Storage Quorum_Tally
begin

text \<open>
  \<^verbatim>\<open>pkg/consensus/consensus.go\<close>: the Paxos instances of one process.

  \<^verbatim>\<open>consensusTable\<close> is a map from the number of updates of a view to its instance. An instance
  holds the queue of its worker (what lies beyond the buffer are requests that wait to send),
  the channel with the learned value, whose buffer holds one (a second element is the send the
  worker is blocked in, and a blocked worker takes no task), and the local variables of the
  worker. The RPC that waits for the worker's answer to a request is a number, and the answer
  is the output \<open>Return\<close>. The loops of the proposer take the replies in the order the channel
  delivers them; a loop that has used them up is still waiting.
\<close>

section \<open>State\<close>

datatype 'v consensusTask = Prepare nat "'v Proposal" | Accept nat "'v Proposal" | Learn "'v Proposal"

record 'v consensusInstance =
  ciView :: View
  taskChan :: "'v consensusTask list"
  callbackLearnChan :: "'v option list"
  acceptedProposal :: "'v Proposal"
  lastPromiseProposalNumber :: int
  learnCounter :: int

definition ci_Id :: "'v consensusInstance \<Rightarrow> nat" where
  "ci_Id ci = NumberOfUpdates (ciView ci)"

definition newInstance :: "View \<Rightarrow> 'v consensusInstance" where
  "newInstance v = \<lparr>ciView = v, taskChan = [], callbackLearnChan = [],
     acceptedProposal = zero_Proposal, lastPromiseProposalNumber = 0, learnCounter = 0\<rparr>"

record ('v, 'db) Consensus =
  consensusTable :: "nat \<rightharpoonup> 'v consensusInstance"
  storage :: 'db

definition getOrCreateConsensus ::
    "View \<Rightarrow> ('v, 'db) Consensus \<Rightarrow> 'v consensusInstance \<times> ('v, 'db) Consensus" where
  "getOrCreateConsensus associatedView st =
     (case consensusTable st (NumberOfUpdates associatedView) of
        Some ci \<Rightarrow> (ci, st)
      | None \<Rightarrow>
          let ci = newInstance associatedView in
          (ci, st\<lparr>consensusTable := (consensusTable st)(NumberOfUpdates associatedView \<mapsto> ci)\<rparr>))"

section \<open>The worker\<close>

datatype 'v consensus_out = Return nat "'v Proposal" | BroadcastLearn View "'v Proposal"

definition worker_Prepare :: "('db, 'v) kv \<Rightarrow> nat \<Rightarrow> 'v Proposal \<Rightarrow> 'v consensusInstance \<Rightarrow> 'db \<Rightarrow>
    ('v consensus_out list \<times> 'v consensusInstance \<times> 'db) outcome" where
  "worker_Prepare kv call request ci db =
     (if PN request > lastPromiseProposalNumber ci then
        (case savePrepareRequestOnStorage kv (ci_Id ci) request db of
           Fatal err \<Rightarrow> Fatal err
         | Returns db1 \<Rightarrow>
             Returns ([Return call (zero_Proposal\<lparr>PN := PN (acceptedProposal ci),
                 PValue := PValue (acceptedProposal ci)\<rparr>)],
               ci\<lparr>lastPromiseProposalNumber := PN request\<rparr>, db1))
      else Returns ([Return call (zero_Proposal\<lparr>PErr := Some OldProposalNumberErr\<rparr>)], ci, db))"

text \<open>Calling a method of a \<^verbatim>\<open>nil\<close> view ends the process.\<close>

definition worker_Accept :: "('db, 'v) kv \<Rightarrow> nat \<Rightarrow> 'v Proposal \<Rightarrow> 'v consensusInstance \<Rightarrow> 'db \<Rightarrow>
    ('v consensus_out list \<times> 'v consensusInstance \<times> 'db) outcome" where
  "worker_Accept kv call request ci db =
     (if PN request \<ge> lastPromiseProposalNumber ci then
        (case saveAcceptedProposalOnStorage kv (ci_Id ci) request db of
           Fatal err \<Rightarrow> Fatal err
         | Returns db1 \<Rightarrow>
             (case AssociatedView request of
                None \<Rightarrow> Fatal ''nil view''
              | Some v \<Rightarrow> Returns ([BroadcastLearn v request, Return call zero_Proposal],
                  ci\<lparr>acceptedProposal := request\<rparr>, db1)))
      else Returns ([Return call (zero_Proposal\<lparr>PErr := Some OldProposalNumberErr\<rparr>)], ci, db))"

definition worker_Learn :: "'v Proposal \<Rightarrow> 'v consensusInstance \<Rightarrow> 'db \<Rightarrow>
    ('v consensus_out list \<times> 'v consensusInstance \<times> 'db) outcome" where
  "worker_Learn request ci db =
     (case AssociatedView request of
        None \<Rightarrow> Fatal ''nil view''
      | Some v \<Rightarrow>
          let ci1 = ci\<lparr>learnCounter := go_int (learnCounter ci + 1)\<rparr> in
          Returns ([], if learnCounter ci1 = int (QuorumSize v)
                       then ci1\<lparr>callbackLearnChan := callbackLearnChan ci1 @ [PValue request]\<rparr>
                       else ci1, db))"

fun worker_task :: "('db, 'v) kv \<Rightarrow> 'v consensusTask \<Rightarrow> 'v consensusInstance \<Rightarrow> 'db \<Rightarrow>
    ('v consensus_out list \<times> 'v consensusInstance \<times> 'db) outcome" where
  "worker_task kv (Prepare call request) ci db = worker_Prepare kv call request ci db"
| "worker_task kv (Accept call request) ci db = worker_Accept kv call request ci db"
| "worker_task kv (Learn request) ci db = worker_Learn request ci db"

text \<open>One turn of the loop of \<^verbatim>\<open>consensusWorker\<close>, for the instance with the given number.\<close>

definition consensusWorker :: "('db, 'v) kv \<Rightarrow> nat \<Rightarrow> ('v, 'db) Consensus \<Rightarrow>
    ('v consensus_out list \<times> ('v, 'db) Consensus) outcome" where
  "consensusWorker kv i st =
     (case consensusTable st i of
        None \<Rightarrow> Returns ([], st)
      | Some ci \<Rightarrow>
          (if length (callbackLearnChan ci) > 1 then Returns ([], st)
           else case taskChan ci of
             [] \<Rightarrow> Returns ([], st)
           | task # tasks \<Rightarrow>
               (case worker_task kv task (ci\<lparr>taskChan := tasks\<rparr>) (storage st) of
                  Fatal err \<Rightarrow> Fatal err
                | Returns (outs, ci1, db1) \<Rightarrow>
                    Returns (outs, st\<lparr>consensusTable := (consensusTable st)(i \<mapsto> ci1), storage := db1\<rparr>))))"

section \<open>Requests\<close>

definition send_task :: "'v consensusTask \<Rightarrow> View option \<Rightarrow> ('v, 'db) Consensus \<Rightarrow>
    ('v, 'db) Consensus outcome" where
  "send_task task associatedView st =
     (case associatedView of
        None \<Rightarrow> Fatal ''nil view''
      | Some v \<Rightarrow>
          let (ci, st1) = getOrCreateConsensus v st in
          Returns (st1\<lparr>consensusTable := (consensusTable st1)
            (NumberOfUpdates v \<mapsto> ci\<lparr>taskChan := taskChan ci @ [task]\<rparr>)\<rparr>))"

definition ConsensusRequest_Prepare ::
    "nat \<Rightarrow> 'v Proposal \<Rightarrow> ('v, 'db) Consensus \<Rightarrow> ('v, 'db) Consensus outcome" where
  "ConsensusRequest_Prepare call arg st = send_task (Prepare call arg) (AssociatedView arg) st"

definition ConsensusRequest_Accept ::
    "nat \<Rightarrow> 'v Proposal \<Rightarrow> ('v, 'db) Consensus \<Rightarrow> ('v, 'db) Consensus outcome" where
  "ConsensusRequest_Accept call arg st = send_task (Accept call arg) (AssociatedView arg) st"

definition ConsensusRequest_Learn ::
    "'v Proposal \<Rightarrow> ('v, 'db) Consensus \<Rightarrow> ('v, 'db) Consensus outcome" where
  "ConsensusRequest_Learn arg st = send_task (Learn arg) (AssociatedView arg) st"

text \<open>\<^verbatim>\<open>GetConsensusResultChan\<close> and a receive from it; \<open>None\<close> waits.\<close>

definition GetConsensusResultChan ::
    "View \<Rightarrow> ('v, 'db) Consensus \<Rightarrow> 'v option list \<times> ('v, 'db) Consensus" where
  "GetConsensusResultChan associatedView st =
     (let (ci, st1) = getOrCreateConsensus associatedView st in (callbackLearnChan ci, st1))"

definition receiveResult ::
    "View \<Rightarrow> ('v, 'db) Consensus \<Rightarrow> ('v option \<times> ('v, 'db) Consensus) option" where
  "receiveResult associatedView st =
     (case consensusTable st (NumberOfUpdates associatedView) of
        None \<Rightarrow> None
      | Some ci \<Rightarrow>
          (case callbackLearnChan ci of
             [] \<Rightarrow> None
           | value # rest \<Rightarrow> Some (value, st\<lparr>consensusTable := (consensusTable st)
               (NumberOfUpdates associatedView \<mapsto> ci\<lparr>callbackLearnChan := rest\<rparr>)\<rparr>)))"

section \<open>The proposer\<close>

definition go_rem :: "int \<Rightarrow> int \<Rightarrow> int" where
  "go_rem a b = (if a < 0 then - ((- a) mod \<bar>b\<bar>) else a mod \<bar>b\<bar>)"

definition getNextProposalNumber ::
    "('db, 'v) kv \<Rightarrow> View \<Rightarrow> Process \<Rightarrow> 'db \<Rightarrow> (int \<times> 'db) outcome" where
  "getNextProposalNumber kv associatedView thisProcess db =
     (if NumberOfMembers associatedView = 0 then Fatal ''associatedView is empty''
      else
        let members = int (NumberOfMembers associatedView);
            thisProcessPosition = GetProcessPosition associatedView thisProcess
        in case getLastProposalNumber kv (NumberOfUpdates associatedView) db of
             Fatal err \<Rightarrow> Fatal err
           | Returns (lastProposalNumber, err) \<Rightarrow>
               let proposalNumber =
                     (if err \<noteq> None then go_int (members + thisProcessPosition)
                      else go_int (lastProposalNumber - go_rem lastProposalNumber members
                             + members + thisProcessPosition))
               in case saveProposalNumberOnStorage kv (NumberOfUpdates associatedView) proposalNumber db of
                    Fatal err1 \<Rightarrow> Fatal err1
                  | Returns db1 \<Rightarrow> Returns (proposalNumber, db1))"

datatype 'v prepare_outcome = PrepareFailed | PrepareDone "'v option" | PrepareWaiting

fun prepare_loop ::
    "View \<Rightarrow> nat \<Rightarrow> nat \<Rightarrow> 'v Proposal \<Rightarrow> 'v Proposal list \<Rightarrow> 'v prepare_outcome" where
  "prepare_loop v successTotal failedTotal highest [] = PrepareWaiting"
| "prepare_loop v successTotal failedTotal highest (receivedProposal # replies) =
     (if PErr receivedProposal \<noteq> None then
        if int (failedTotal + 1) > NumberOfToleratedFaults v then PrepareFailed
        else prepare_loop v successTotal (failedTotal + 1) highest replies
      else
        let highest1 = (if PN highest < PN receivedProposal then receivedProposal else highest) in
        if successTotal + 1 = QuorumSize v then PrepareDone (PValue highest1)
        else prepare_loop v (successTotal + 1) failedTotal highest1 replies)"

datatype accept_outcome = AcceptFailed | AcceptDone | AcceptWaiting

fun accept_loop :: "View \<Rightarrow> nat \<Rightarrow> nat \<Rightarrow> 'v Proposal list \<Rightarrow> accept_outcome" where
  "accept_loop v successTotal failedTotal [] = AcceptWaiting"
| "accept_loop v successTotal failedTotal (receivedProposal # replies) =
     (if PErr receivedProposal \<noteq> None then
        if int (failedTotal + 1) > NumberOfToleratedFaults v then AcceptFailed
        else accept_loop v successTotal (failedTotal + 1) replies
      else
        if successTotal + 1 = QuorumSize v then AcceptDone
        else accept_loop v (successTotal + 1) failedTotal replies)"

text \<open>The requests of a phase and the reply put into the channel for the result of an RPC.\<close>

definition broadcastRequest :: "View \<Rightarrow> 'v Proposal \<Rightarrow> (Process \<times> 'v Proposal) list" where
  "broadcastRequest destinationView proposal =
     map (\<lambda>process. (process, proposal)) (GetMembers destinationView)"

definition request_reply :: "string + 'v Proposal \<Rightarrow> 'v Proposal" where
  "request_reply rpc =
     (case rpc of Inl err \<Rightarrow> zero_Proposal\<lparr>PErr := Some (RPCError err)\<rparr> | Inr result \<Rightarrow> result)"

definition prepare :: "'v Proposal \<Rightarrow> View \<Rightarrow> 'v Proposal list \<Rightarrow>
    (Process \<times> 'v Proposal) list \<times> 'v prepare_outcome" where
  "prepare proposal v replies =
     (broadcastRequest v proposal, prepare_loop v 0 0 zero_Proposal replies)"

definition accept :: "'v Proposal \<Rightarrow> View \<Rightarrow> 'v Proposal list \<Rightarrow>
    (Process \<times> 'v Proposal) list \<times> accept_outcome" where
  "accept proposal v replies = (broadcastRequest v proposal, accept_loop v 0 0 replies)"

text \<open>The value of the second phase: what the first one found, else the proposer's own.\<close>

definition chooseValue :: "'v option \<Rightarrow> 'v option \<Rightarrow> 'v option" where
  "chooseValue found defaultValue = (if found = None then defaultValue else found)"

text \<open>
  \<^verbatim>\<open>Propose\<close> with the replies of its two phases. \<open>Returns None\<close> is a proposer that waits; a
  proposer that returned gives the proposal it made and the store.
\<close>

definition Propose :: "('db, 'v) kv \<Rightarrow> View \<Rightarrow> Process \<Rightarrow> 'v option \<Rightarrow>
    'v Proposal list \<Rightarrow> 'v Proposal list \<Rightarrow> 'db \<Rightarrow> ('v Proposal \<times> 'db) option outcome" where
  "Propose kv associatedView thisProcess defaultValue prepareReplies acceptReplies db =
     (case getNextProposalNumber kv associatedView thisProcess db of
        Fatal err \<Rightarrow> Fatal err
      | Returns (proposalNumber, db1) \<Rightarrow>
          let proposal = zero_Proposal\<lparr>AssociatedView := Some associatedView, PN := proposalNumber\<rparr> in
          case snd (prepare proposal associatedView prepareReplies) of
            PrepareWaiting \<Rightarrow> Returns None
          | PrepareFailed \<Rightarrow> Fatal ''Failed to propose. Could not pass prepare phase''
          | PrepareDone value \<Rightarrow>
              let proposal1 = proposal\<lparr>PValue := chooseValue value defaultValue\<rparr> in
              case snd (accept proposal1 associatedView acceptReplies) of
                AcceptWaiting \<Rightarrow> Returns None
              | AcceptFailed \<Rightarrow> Fatal ''Failed to propose. Could not pass accept phase''
              | AcceptDone \<Rightarrow> Returns (Some (proposal1, db1)))"

section \<open>The loops of the proposer\<close>

abbreviation oks :: "'v Proposal list \<Rightarrow> 'v Proposal list" where
  "oks rs \<equiv> filter (\<lambda>r. PErr r = None) rs"

abbreviation flags :: "'v Proposal list \<Rightarrow> bool list" where
  "flags rs \<equiv> map (\<lambda>r. PErr r = None) rs"

lemma accept_loop_tally:
  "accept_loop v s f rs =
     (case tally (QuorumSize v) (NumberOfToleratedFaults v) s f (flags rs) of
        None \<Rightarrow> AcceptWaiting | Some ok \<Rightarrow> if ok then AcceptDone else AcceptFailed)"
  by (induction rs arbitrary: s f) simp_all

fun prepare_flag :: "'v prepare_outcome \<Rightarrow> bool option" where
  "prepare_flag PrepareWaiting = None"
| "prepare_flag (PrepareDone x) = Some True"
| "prepare_flag PrepareFailed = Some False"

lemma prepare_loop_tally:
  "prepare_flag (prepare_loop v s f h rs) = tally (QuorumSize v) (NumberOfToleratedFaults v) s f (flags rs)"
  by (induction rs arbitrary: s f h) (simp_all add: Let_def)

text \<open>The first phase returns the value of the highest-numbered of exactly a quorum of replies.\<close>

lemma prepare_loop_done:
  assumes "prepare_loop v s f h rs = PrepareDone x" "s < QuorumSize v"
  shows "\<exists>taken rest r. rs = taken @ rest \<and> s + length (oks taken) = QuorumSize v \<and> x = PValue r \<and>
    r \<in> insert h (set (oks taken)) \<and> (\<forall>y \<in> insert h (set (oks taken)). PN y \<le> PN r)"
  using assms
proof (induction rs arbitrary: s f h)
  case (Cons y rs)
  show ?case
  proof (cases "PErr y = None")
    case ok: True
    let ?h = "if PN h < PN y then y else h"
    show ?thesis
    proof (cases "s + 1 = QuorumSize v")
      case True
      then have "x = PValue ?h" using Cons.prems ok by simp
      then show ?thesis using True ok
        by (intro exI [of _ "[y]"] exI [of _ rs] exI [of _ ?h]) auto
    next
      case False
      then have "prepare_loop v (s + 1) f ?h rs = PrepareDone x" "s + 1 < QuorumSize v"
        using Cons.prems ok by (simp_all add: Let_def)
      from Cons.IH [OF this] obtain taken rest r where IH: "rs = taken @ rest"
        "s + 1 + length (oks taken) = QuorumSize v" "x = PValue r" "r \<in> insert ?h (set (oks taken))"
        "\<forall>z \<in> insert ?h (set (oks taken)). PN z \<le> PN r" by blast
      have "r \<in> insert h (set (oks (y # taken)))" using IH(4) ok by (auto split: if_splits)
      moreover have "\<forall>z \<in> insert h (set (oks (y # taken))). PN z \<le> PN r"
        using IH(5) ok by (auto split: if_splits)
      ultimately show ?thesis using IH(1-3) ok
        by (intro exI [of _ "y # taken"] exI [of _ rest] exI [of _ r]) simp
    qed
  next
    case False
    then have "prepare_loop v s (f + 1) h rs = PrepareDone x"
      using Cons.prems by (simp split: if_splits)
    from Cons.IH [OF this Cons.prems(2)] obtain taken rest r where IH: "rs = taken @ rest"
      "s + length (oks taken) = QuorumSize v" "x = PValue r" "r \<in> insert h (set (oks taken))"
      "\<forall>z \<in> insert h (set (oks taken)). PN z \<le> PN r" by blast
    then show ?thesis using False
      by (intro exI [of _ "y # taken"] exI [of _ rest] exI [of _ r]) simp
  qed
qed simp

lemma successes_flags: "successes (flags rs) = length (oks rs)"
  by (induction rs) auto

section \<open>Proposal numbers\<close>

definition no_overflow :: "('db, 'v) kv \<Rightarrow> View \<Rightarrow> 'db \<Rightarrow> bool" where
  "no_overflow kv v db \<longleftrightarrow> 2 * int (NumberOfMembers v) \<le> max_int64 \<and>
     (\<forall>l. getLastProposalNumber kv (NumberOfUpdates v) db = Returns (l, None) \<longrightarrow>
        0 \<le> l \<and> l + 2 * int (NumberOfMembers v) \<le> max_int64)"

lemma position_bounds:
  assumes "wf_view v" "p \<in> Members v"
  shows "0 \<le> GetProcessPosition v p" "GetProcessPosition v p < int (NumberOfMembers v)"
proof -
  have "card {q \<in> Members v. q < p} < card (Members v)"
    using assms by (intro psubset_card_mono) auto
  then show "0 \<le> GetProcessPosition v p" "GetProcessPosition v p < int (NumberOfMembers v)"
    using assms by (simp_all add: GetProcessPosition_eq NumberOfMembers_def)
qed

text \<open>The round a number falls in, and the position it carries.\<close>

lemma next_round:
  fixes l m p :: int
  assumes "0 \<le> l" "0 \<le> p" "p < m"
  shows "l < l - l mod m + m + p" "(l - l mod m + m + p) mod m = p" "l - l mod m + m + p \<le> l + 2 * m"
    "m \<le> l - l mod m + m + p"
proof -
  have r: "0 \<le> l mod m" "l mod m < m" using assms by simp_all
  show "l < l - l mod m + m + p" using r(2) assms(2) by linarith
  show "l - l mod m + m + p \<le> l + 2 * m" using r(1) assms(3) by linarith
  have "l - l mod m = m * (l div m)" by (simp add: minus_mod_eq_mult_div)
  moreover have "0 \<le> m * (l div m)" using assms by (simp add: pos_imp_zdiv_nonneg_iff)
  ultimately show "m \<le> l - l mod m + m + p" using assms by simp
  have "l - l mod m + m + p = p + m * (l div m + 1)"
    by (simp add: minus_mod_eq_mult_div algebra_simps)
  then show "(l - l mod m + m + p) mod m = p" using assms by (simp only: mod_mult_self2) simp
qed

lemma getNext_eq:
  assumes "wf_view v" "p \<in> Members v" "no_overflow kv v db"
    and "getNextProposalNumber kv v p db = Returns (n, db1)"
  shows "n mod int (NumberOfMembers v) = GetProcessPosition v p" "int (NumberOfMembers v) \<le> n" "n \<le> max_int64"
    "getLastProposalNumber kv (NumberOfUpdates v) db = Returns (l, None) \<Longrightarrow> l < n"
    "saveProposalNumberOnStorage kv (NumberOfUpdates v) n db = Returns db1"
proof -
  let ?m = "int (NumberOfMembers v)" and ?p = "GetProcessPosition v p"
  note pos = position_bounds [OF assms(1,2)]
  obtain l0 err where last: "getLastProposalNumber kv (NumberOfUpdates v) db = Returns (l0, err)"
    using assms(4) by (auto simp: getNextProposalNumber_def Let_def split: outcome.splits if_splits)
  define n0 where "n0 = (if err \<noteq> None then ?m + ?p else l0 - go_rem l0 ?m + ?m + ?p)"
  have n: "n = go_int n0" and save: "saveProposalNumberOnStorage kv (NumberOfUpdates v) n db = Returns db1"
    using assms(4) last by (auto simp: getNextProposalNumber_def Let_def n0_def split: outcome.splits if_splits)
  have facts: "n0 mod ?m = ?p \<and> ?m \<le> n0 \<and> n0 \<le> max_int64 \<and> (err = None \<longrightarrow> l0 < n0)"
  proof (cases "err = None")
    case True
    then have l0: "0 \<le> l0" "l0 + 2 * ?m \<le> max_int64" using assms(3) last by (simp_all add: no_overflow_def)
    then have "n0 = l0 - l0 mod ?m + ?m + ?p" using True by (simp add: n0_def go_rem_def)
    then show ?thesis using next_round [OF l0(1) pos] l0 by simp
  next
    case False
    then show ?thesis using pos assms(3) by (auto simp: n0_def no_overflow_def)
  qed
  have "0 \<le> n0" using facts by simp
  then have "n = n0" using facts n by (simp add: go_int_id)
  then show "n mod ?m = ?p" "?m \<le> n" "n \<le> max_int64" "saveProposalNumberOnStorage kv (NumberOfUpdates v) n db = Returns db1"
    using facts save by simp_all
  show "l < n" if "getLastProposalNumber kv (NumberOfUpdates v) db = Returns (l, None)"
    using that last facts \<open>n = n0\<close> by simp
qed

text \<open>
  The numbers start again when the process restarts: its new store has none saved, so its first
  number is the one it began with before, which it may have used for another value.
\<close>

lemma restart_repeats_number:
  assumes "initStorage created = Returns db" "\<forall>k. kv_Get kv db k = Inr None"
    and "getNextProposalNumber kv v p db = Returns (n, db1)"
  shows "created = Inr db \<and> n = go_int (int (NumberOfMembers v) + GetProcessPosition v p)"
  using assms by (auto simp: initStorage_def getNextProposalNumber_def getLastProposalNumber_def Let_def
      split: sum.splits outcome.splits if_splits)

text \<open>C23: Proposal numbers are unique and grow. Two members of a view never propose with the same
  number, whatever their stores hold, since a number modulo the size of the view is the
  position of its proposer; and a number is larger than the last one the process saved for
  the view and is what it finds saved afterwards, so the numbers of one process increase
  from proposal to proposal. The numbers are positive and do not overflow while two more
  rounds fit into 64 bits.\<close>

theorem proposal_numbers_unique:
  assumes "kv_ok kv" "wf_view v" "p \<in> Members v" "no_overflow kv v db"
    and "getNextProposalNumber kv v p db = Returns (n, db1)"
  shows "(q \<in> Members v \<and> q \<noteq> p \<and> no_overflow kv v dbq \<and> getNextProposalNumber kv v q dbq = Returns (m, dbq1) \<longrightarrow>
      m \<noteq> n) \<and>
    (getLastProposalNumber kv (NumberOfUpdates v) db = Returns (l, None) \<longrightarrow> l < n) \<and>
    getLastProposalNumber kv (NumberOfUpdates v) db1 = Returns (n, None) \<and> 0 < n \<and> n \<le> max_int64"
proof (intro conjI impI)
  note n = getNext_eq [OF assms(2-5)]
  show "m \<noteq> n"
    if q: "q \<in> Members v \<and> q \<noteq> p \<and> no_overflow kv v dbq \<and> getNextProposalNumber kv v q dbq = Returns (m, dbq1)"
  proof -
    have "GetProcessPosition v p \<noteq> GetProcessPosition v q"
      using assms(2,3) q position_strict [of "Members v" p q] position_strict [of "Members v" q p]
      by (cases p q rule: linorder_cases) (auto simp: GetProcessPosition_eq)
    then show ?thesis using n(1) getNext_eq(1) [OF assms(2), of q] q by metis
  qed
  show "l < n" if "getLastProposalNumber kv (NumberOfUpdates v) db = Returns (l, None)"
    using n(4) [OF that] .
  have "0 < int (NumberOfMembers v)"
    using position_bounds [OF assms(2,3)] by simp
  then show pos: "0 < n" using n(2) by simp
  show "n \<le> max_int64" using n(3) .
  show "getLastProposalNumber kv (NumberOfUpdates v) db1 = Returns (n, None)"
    using getLast_saved [OF assms(1) _ n(3,5)] pos by simp
qed

text \<open>A view of three members whose second one proposes twice.\<close>

definition cv :: View where "cv = NewWithProcesses [Process ''a'', Process ''b'', Process ''c'']"

lemma cv_facts: "wf_view cv" "Members cv = {Process ''a'', Process ''b'', Process ''c''}"
    "NumberOfMembers cv = 3" "QuorumSize cv = 2" "NumberOfToleratedFaults cv = 1"
  by (simp_all add: cv_def QuorumSize_eq NumberOfMembers_def ToleratedFaults_eq)

lemma cv_position: "GetProcessPosition cv (Process ''b'') = 1"
proof -
  have "{q \<in> Members cv. q < Process ''b''} = {Process ''a''}"
    by (auto simp: cv_facts less_Process_def Process_Less_def)
  then show ?thesis by (simp add: GetProcessPosition_eq cv_facts)
qed

theorem proposal_numbers_unique_witness:
  "\<exists>db1 db2. getNextProposalNumber (mem_kv :: (_, nat) kv) cv (Process ''b'') Map.empty = Returns (4, db1) \<and>
     getNextProposalNumber (mem_kv :: (_, nat) kv) cv (Process ''b'') db1 = Returns (7, db2) \<and> (4 :: int) < 7"
proof -
  let ?kv = "mem_kv :: (_, nat) kv" and ?k = "proposalNumber_key (NumberOfUpdates cv)"
  have g: "gob_read_int (gob_int 4) = Some 4" by (rule gob_int_round_trip) simp_all
  have i: "go_int 4 = 4" "go_int 7 = 7" by (simp_all add: go_int_def)
  have n1: "getNextProposalNumber ?kv cv (Process ''b'') Map.empty = Returns (4, Map.empty(?k \<mapsto> gob_int 4))"
    by (simp add: getNextProposalNumber_def getLastProposalNumber_def saveProposalNumberOnStorage_def
        mem_kv_def cv_facts cv_position i)
  have n2: "getNextProposalNumber ?kv cv (Process ''b'') (Map.empty(?k \<mapsto> gob_int 4)) =
      Returns (7, Map.empty(?k \<mapsto> gob_int 7))"
    by (simp add: getNextProposalNumber_def getLastProposalNumber_def saveProposalNumberOnStorage_def
        mem_kv_def cv_facts cv_position i g go_rem_def)
  have "no_overflow ?kv cv (Map.empty(?k \<mapsto> gob_int 4))"
    by (simp add: no_overflow_def getLastProposalNumber_def mem_kv_def g cv_facts)
  then have "(4 :: int) < 7"
    using proposal_numbers_unique [OF mem_kv_ok cv_facts(1) _ _ n2, of "Process ''a''" Map.empty 0 Map.empty 4]
    by (simp add: cv_facts getLastProposalNumber_def mem_kv_def g)
  with n1 n2 show ?thesis by blast
qed

text \<open>C25: Both phases of a proposer end and only for their reasons: once as many replies as the view
  has members have arrived neither phase waits any more; the accept phase succeeds exactly
  when the quorum of error-free replies is reached before the failures exceed the tolerated
  ones, the prepare phase ends the same way on the same replies, and the value it finds is
  that of the highest-numbered of a quorum of error-free replies (none if they accepted
  nothing).\<close>

theorem proposer_phases_return:
  assumes "NumberOfMembers v \<noteq> 0" "NumberOfMembers v \<le> length rs"
  shows "snd (prepare p v rs) \<noteq> PrepareWaiting \<and> snd (accept p v rs) \<noteq> AcceptWaiting \<and>
    (snd (accept p v rs) = AcceptDone \<longleftrightarrow> (\<exists>x. snd (prepare p v rs) = PrepareDone x)) \<and>
    (snd (accept p v rs) = AcceptDone \<longleftrightarrow> (\<exists>taken rest. rs = taken @ rest \<and>
       length (oks taken) = QuorumSize v \<and> int (length taken - length (oks taken)) \<le> NumberOfToleratedFaults v)) \<and>
    (\<forall>x. snd (prepare p v rs) = PrepareDone x \<longrightarrow> (\<exists>taken rest r. rs = taken @ rest \<and>
       length (oks taken) = QuorumSize v \<and> x = PValue r \<and> r \<in> insert zero_Proposal (set (oks taken)) \<and>
       (\<forall>y \<in> set (oks taken). PN y \<le> PN r)))"
proof -
  let ?t = "view_tally v (flags rs)"
  have acc: "snd (accept p v rs) = (case ?t of None \<Rightarrow> AcceptWaiting | Some ok \<Rightarrow> if ok then AcceptDone else AcceptFailed)"
    by (simp add: accept_def accept_loop_tally)
  have prep: "prepare_flag (snd (prepare p v rs)) = ?t" by (simp add: prepare_def prepare_loop_tally)
  have some: "?t \<noteq> None" using view_tally_returns [OF assms(1), of "flags rs"] assms(2) by simp
  have done_iff: "?t = Some True \<longleftrightarrow> (\<exists>taken rest. rs = taken @ rest \<and> length (oks taken) = QuorumSize v \<and>
      int (length taken - length (oks taken)) \<le> NumberOfToleratedFaults v)"
    using view_tally_map_True_iff [OF assms(1)] .
  have done_prep: "?t = Some True \<longleftrightarrow> (\<exists>x. snd (prepare p v rs) = PrepareDone x)"
    using prep by (cases "snd (prepare p v rs)") auto
  have found: "\<exists>taken rest r. rs = taken @ rest \<and> length (oks taken) = QuorumSize v \<and> x = PValue r \<and>
      r \<in> insert zero_Proposal (set (oks taken)) \<and> (\<forall>y \<in> set (oks taken). PN y \<le> PN r)"
    if "snd (prepare p v rs) = PrepareDone x" for x
    using prepare_loop_done [of v 0 0 zero_Proposal rs x] that by (simp add: prepare_def) blast
  show ?thesis using acc prep some done_iff done_prep found by (cases ?t) auto
qed

theorem proposer_phases_return_witness:
  "let ok = zero_Proposal\<lparr>PN := 4, PValue := Some (7 :: nat)\<rparr>;
       bad = zero_Proposal\<lparr>PErr := Some OldProposalNumberErr\<rparr>
   in snd (prepare ok cv [ok, bad, zero_Proposal]) = PrepareDone (Some 7) \<and>
      snd (accept ok cv [ok, bad, zero_Proposal]) = AcceptDone \<and>
      snd (accept ok cv [bad, ok, bad]) \<noteq> AcceptWaiting"
proof -
  let ?ok = "zero_Proposal\<lparr>PN := 4, PValue := Some (7 :: nat)\<rparr>"
  let ?bad = "zero_Proposal\<lparr>PErr := Some OldProposalNumberErr\<rparr> :: nat Proposal"
  have "snd (accept ?ok cv [?bad, ?ok, ?bad]) \<noteq> AcceptWaiting"
    using proposer_phases_return [of cv "[?bad, ?ok, ?bad]" ?ok] by (simp add: cv_facts)
  then show ?thesis by (simp add: prepare_def accept_def cv_facts Let_def)
qed

end
