(* ===== verification/Paxos.thy ===== *)
theory Paxos
  imports Consensus
begin

text \<open>
  The consensus instances of all members of one view together. The acceptors are the workers
  of \<open>Consensus\<close>, the proposers its prepare and accept phases, and the network may delay,
  reorder and repeat messages: what was broadcast or answered is kept in lists, and an event
  delivers any element of them. Proposers start with fresh numbers, which is what
  \<^verbatim>\<open>getNextProposalNumber\<close> gives them.

  A value is chosen when a quorum of members accepted one proposal with it. The safety proof
  needs that no acceptor accepts a proposal after one with a higher number: a worker checks a
  request against its last promise only, and replaces what it accepted by whatever comes
  later. The flag of the step function says whether the network delivers in such an order;
  without it two values can be chosen.
\<close>

section \<open>The network\<close>

record ('v, 'db) paxos =
  acceptor :: "Process \<Rightarrow> 'v consensusInstance"
  store :: "Process \<Rightarrow> 'db"
  prepares :: "int list"
  promises :: "(Process \<times> int \<times> 'v Proposal) list"
  accepts :: "'v Proposal list"
  learns :: "(Process \<times> 'v Proposal) list"

definition paxos_init :: "View \<Rightarrow> 'db \<Rightarrow> ('v, 'db) paxos" where
  "paxos_init v db = \<lparr>acceptor = (\<lambda>p. newInstance v), store = (\<lambda>p. db), prepares = [], promises = [],
     accepts = [], learns = []\<rparr>"

definition prepare_request :: "View \<Rightarrow> int \<Rightarrow> 'v Proposal" where
  "prepare_request v n = zero_Proposal\<lparr>AssociatedView := Some v, PN := n\<rparr>"

fun promises_of :: "Process \<Rightarrow> int \<Rightarrow> 'v consensus_out list \<Rightarrow> (Process \<times> int \<times> 'v Proposal) list" where
  "promises_of p n [] = []"
| "promises_of p n (Return c r # outs) =
     (if PErr r = None then (p, n, r) # promises_of p n outs else promises_of p n outs)"
| "promises_of p n (BroadcastLearn w r # outs) = promises_of p n outs"

fun learns_of :: "Process \<Rightarrow> 'v consensus_out list \<Rightarrow> (Process \<times> 'v Proposal) list" where
  "learns_of p [] = []"
| "learns_of p (Return c r # outs) = learns_of p outs"
| "learns_of p (BroadcastLearn w r # outs) = (p, r) # learns_of p outs"

text \<open>The replies of the first phase: one per member, and the error-free ones are its promises.\<close>

definition replies_ok ::
    "View \<Rightarrow> int \<Rightarrow> (Process \<times> 'v Proposal) list \<Rightarrow> ('v, 'db) paxos \<Rightarrow> bool" where
  "replies_ok v n rs st \<longleftrightarrow> distinct (map fst rs) \<and>
     (\<forall>(p, r) \<in> set rs. p \<in> Members v \<and> (PErr r = None \<longrightarrow> (p, n, r) \<in> set (promises st)))"

datatype 'v paxos_event =
    StartProposal int
  | DeliverPrepare Process int
  | BeginAccept int "(Process \<times> 'v Proposal) list" 'v
  | DeliverAccept Process "'v Proposal"
  | DeliverLearn Process Process "'v Proposal"

fun paxos_step :: "bool \<Rightarrow> ('db, 'v) kv \<Rightarrow> View \<Rightarrow> 'v paxos_event \<Rightarrow> ('v, 'db) paxos \<Rightarrow>
    ('v, 'db) paxos option" where
  "paxos_step ordered kv v (StartProposal n) st =
     (if 0 < n \<and> n \<notin> set (prepares st) then Some (st\<lparr>prepares := n # prepares st\<rparr>) else None)"
| "paxos_step ordered kv v (DeliverPrepare p n) st =
     (if p \<in> Members v \<and> n \<in> set (prepares st) then
        case worker_Prepare kv 0 (prepare_request v n) (acceptor st p) (store st p) of
          Fatal err \<Rightarrow> None
        | Returns (outs, ci, db) \<Rightarrow> Some (st\<lparr>acceptor := (acceptor st)(p := ci),
            store := (store st)(p := db), promises := promises_of p n outs @ promises st\<rparr>)
      else None)"
| "paxos_step ordered kv v (BeginAccept n rs defaultValue) st =
     (if n \<in> set (prepares st) \<and> n \<notin> PN ` set (accepts st) \<and> replies_ok v n rs st then
        case snd (prepare (prepare_request v n) v (map snd rs)) of
          PrepareDone x \<Rightarrow> Some (st\<lparr>accepts :=
            (prepare_request v n)\<lparr>PValue := chooseValue x (Some defaultValue)\<rparr> # accepts st\<rparr>)
        | _ \<Rightarrow> None
      else None)"
| "paxos_step ordered kv v (DeliverAccept p a) st =
     (if p \<in> Members v \<and> a \<in> set (accepts st) \<and>
         (ordered \<longrightarrow> PN (acceptedProposal (acceptor st p)) \<le> PN a) then
        case worker_Accept kv 0 a (acceptor st p) (store st p) of
          Fatal err \<Rightarrow> None
        | Returns (outs, ci, db) \<Rightarrow> Some (st\<lparr>acceptor := (acceptor st)(p := ci),
            store := (store st)(p := db), learns := learns_of p outs @ learns st\<rparr>)
      else None)"
| "paxos_step ordered kv v (DeliverLearn p q r) st =
     (if p \<in> Members v \<and> (q, r) \<in> set (learns st) then
        case worker_Learn r (acceptor st p) (store st p) of
          Fatal err \<Rightarrow> None
        | Returns (outs, ci, db) \<Rightarrow> Some (st\<lparr>acceptor := (acceptor st)(p := ci)\<rparr>)
      else None)"

inductive paxos_reachable :: "bool \<Rightarrow> ('db, 'v) kv \<Rightarrow> View \<Rightarrow> 'db \<Rightarrow> ('v, 'db) paxos \<Rightarrow> bool"
  for ordered kv v db where
  init: "paxos_reachable ordered kv v db (paxos_init v db)"
| step: "paxos_reachable ordered kv v db st \<Longrightarrow> paxos_step ordered kv v ev st = Some st1 \<Longrightarrow>
    paxos_reachable ordered kv v db st1"

definition chosen :: "View \<Rightarrow> ('v, 'db) paxos \<Rightarrow> int \<Rightarrow> 'v option \<Rightarrow> bool" where
  "chosen v st n x \<longleftrightarrow> (\<exists>Q. Q \<subseteq> Members v \<and> QuorumSize v \<le> card Q \<and>
     (\<forall>p \<in> Q. \<exists>r. (p, r) \<in> set (learns st) \<and> PN r = n \<and> PValue r = x))"

section \<open>What one event does\<close>

lemma step_StartProposal:
  assumes "paxos_step ordered kv v (StartProposal n) st = Some st1"
  shows "0 < n" "n \<notin> set (prepares st)" "st1 = st\<lparr>prepares := n # prepares st\<rparr>"
  using assms by (simp_all split: if_splits)

lemma step_DeliverPrepare:
  assumes "paxos_step ordered kv v (DeliverPrepare p n) st = Some st1"
  obtains (promised) db where "p \<in> Members v" "n \<in> set (prepares st)"
      "lastPromiseProposalNumber (acceptor st p) < n"
      "st1 = st\<lparr>acceptor := (acceptor st)(p := (acceptor st p)\<lparr>lastPromiseProposalNumber := n\<rparr>),
         store := (store st)(p := db),
         promises := (p, n, zero_Proposal\<lparr>PN := PN (acceptedProposal (acceptor st p)),
           PValue := PValue (acceptedProposal (acceptor st p))\<rparr>) # promises st\<rparr>"
  | (refused) "st1 = st"
  using assms by (auto simp: worker_Prepare_def prepare_request_def zero_Proposal_def
      split: if_splits outcome.splits)

lemma step_BeginAccept:
  assumes "paxos_step ordered kv v (BeginAccept n rs d) st = Some st1"
  obtains x where "n \<in> set (prepares st)" "n \<notin> PN ` set (accepts st)" "replies_ok v n rs st"
    "prepare_loop v 0 0 zero_Proposal (map snd rs) = PrepareDone x"
    "st1 = st\<lparr>accepts := (prepare_request v n)\<lparr>PValue := chooseValue x (Some d)\<rparr> # accepts st\<rparr>"
  using assms by (auto simp: prepare_def split: if_splits prepare_outcome.splits)

lemma step_DeliverAccept:
  assumes "paxos_step ordered kv v (DeliverAccept p a) st = Some st1"
  obtains (accepted) db where "p \<in> Members v" "a \<in> set (accepts st)"
      "ordered \<longrightarrow> PN (acceptedProposal (acceptor st p)) \<le> PN a"
      "lastPromiseProposalNumber (acceptor st p) \<le> PN a"
      "st1 = st\<lparr>acceptor := (acceptor st)(p := (acceptor st p)\<lparr>acceptedProposal := a\<rparr>),
         store := (store st)(p := db), learns := (p, a) # learns st\<rparr>"
  | (refused) "st1 = st"
  using assms by (auto simp: worker_Accept_def split: if_splits outcome.splits option.splits)

lemma worker_Learn_keeps:
  assumes "worker_Learn r ci db = Returns (outs, ci1, db1)"
  shows "acceptedProposal ci1 = acceptedProposal ci" "lastPromiseProposalNumber ci1 = lastPromiseProposalNumber ci"
  using assms by (auto simp: worker_Learn_def Let_def split: option.splits if_splits)

lemma step_DeliverLearn:
  assumes "paxos_step ordered kv v (DeliverLearn p q r) st = Some st1"
  obtains ci where "acceptedProposal ci = acceptedProposal (acceptor st p)"
    "lastPromiseProposalNumber ci = lastPromiseProposalNumber (acceptor st p)"
    "st1 = st\<lparr>acceptor := (acceptor st)(p := ci)\<rparr>"
proof -
  obtain outs ci db where w: "worker_Learn r (acceptor st p) (store st p) = Returns (outs, ci, db)"
    and st1: "st1 = st\<lparr>acceptor := (acceptor st)(p := ci)\<rparr>"
    using assms by (auto split: if_splits outcome.splits)
  show thesis by (rule that [OF worker_Learn_keeps [OF w] st1])
qed

section \<open>The invariant\<close>

abbreviation promise_at :: "('v, 'db) paxos \<Rightarrow> Process \<Rightarrow> int" where
  "promise_at st p \<equiv> lastPromiseProposalNumber (acceptor st p)"

abbreviation accepted_at :: "('v, 'db) paxos \<Rightarrow> Process \<Rightarrow> 'v Proposal" where
  "accepted_at st p \<equiv> acceptedProposal (acceptor st p)"

definition promised :: "View \<Rightarrow> ('v, 'db) paxos \<Rightarrow> int \<Rightarrow> bool" where
  "promised v st n \<longleftrightarrow> (\<exists>Q. Q \<subseteq> Members v \<and> QuorumSize v \<le> card Q \<and> (\<forall>p \<in> Q. n \<le> promise_at st p))"

text \<open>A number is blocked when a quorum neither accepted it nor ever will.\<close>

definition blocked :: "View \<Rightarrow> ('v, 'db) paxos \<Rightarrow> int \<Rightarrow> bool" where
  "blocked v st m \<longleftrightarrow> (\<exists>Q. Q \<subseteq> Members v \<and> QuorumSize v \<le> card Q \<and>
     (\<forall>p \<in> Q. m < promise_at st p \<and> (\<forall>r. (p, r) \<in> set (learns st) \<longrightarrow> PN r \<noteq> m)))"

definition requests_inv :: "('v, 'db) paxos \<Rightarrow> bool" where
  "requests_inv st \<longleftrightarrow> (\<forall>n \<in> set (prepares st). 0 < n) \<and> (\<forall>a \<in> set (accepts st). 0 < PN a \<and> PValue a \<noteq> None) \<and>
     inj_on PN (set (accepts st))"

definition acceptors_inv :: "('v, 'db) paxos \<Rightarrow> bool" where
  "acceptors_inv st \<longleftrightarrow>
     (\<forall>p r. (p, r) \<in> set (learns st) \<longrightarrow> r \<in> set (accepts st) \<and> PN r \<le> PN (accepted_at st p)) \<and>
     (\<forall>p. accepted_at st p = zero_Proposal \<or> (p, accepted_at st p) \<in> set (learns st))"

definition promises_inv :: "('v, 'db) paxos \<Rightarrow> bool" where
  "promises_inv st \<longleftrightarrow> (\<forall>p n r. (p, n, r) \<in> set (promises st) \<longrightarrow>
     n \<le> promise_at st p \<and>
     (PN r = 0 \<and> PValue r = None \<or> (\<exists>s \<in> set (accepts st). PN s = PN r \<and> PValue s = PValue r)) \<and>
     (\<forall>s. (p, s) \<in> set (learns st) \<and> PN s < n \<longrightarrow> PN s \<le> PN r))"

definition values_inv :: "View \<Rightarrow> ('v, 'db) paxos \<Rightarrow> bool" where
  "values_inv v st \<longleftrightarrow> (\<forall>a \<in> set (accepts st). promised v st (PN a)) \<and>
     (\<forall>a \<in> set (accepts st). \<forall>b \<in> set (accepts st). PN a < PN b \<longrightarrow>
        PValue a = PValue b \<or> blocked v st (PN a))"

definition paxos_inv :: "View \<Rightarrow> ('v, 'db) paxos \<Rightarrow> bool" where
  "paxos_inv v st \<longleftrightarrow> requests_inv st \<and> acceptors_inv st \<and> promises_inv st \<and> values_inv v st"

lemmas paxos_inv_parts = paxos_inv_def requests_inv_def acceptors_inv_def promises_inv_def

lemma promises_invD:
  assumes "paxos_inv v st" "(p, n, r) \<in> set (promises st)"
  shows "n \<le> promise_at st p"
    "PN r = 0 \<and> PValue r = None \<or> (\<exists>s \<in> set (accepts st). PN s = PN r \<and> PValue s = PValue r)"
    "(p, s) \<in> set (learns st) \<Longrightarrow> PN s < n \<Longrightarrow> PN s \<le> PN r"
  using assms by (auto simp: paxos_inv_def promises_inv_def)

lemma learns_invD:
  assumes "paxos_inv v st" "(p, r) \<in> set (learns st)"
  shows "r \<in> set (accepts st)" "PN r \<le> PN (accepted_at st p)"
  using assms by (auto simp: paxos_inv_def acceptors_inv_def)

lemma paxos_inv_init: "paxos_inv v (paxos_init v db)"
  by (simp add: paxos_inv_parts values_inv_def paxos_init_def newInstance_def)

text \<open>
  Promises only grow and a proposal is accepted only at or above the promise: what is promised
  and what is blocked stays so.
\<close>

definition advances :: "('v, 'db) paxos \<Rightarrow> ('v, 'db) paxos \<Rightarrow> bool" where
  "advances st st1 \<longleftrightarrow> (\<forall>p. promise_at st p \<le> promise_at st1 p \<and>
     (\<forall>r. (p, r) \<in> set (learns st1) \<longrightarrow> (p, r) \<in> set (learns st) \<or> promise_at st p \<le> PN r))"

lemma advances_promised: "advances st st1 \<Longrightarrow> promised v st n \<Longrightarrow> promised v st1 n"
  unfolding advances_def promised_def by (meson order_trans)

lemma advances_blocked:
  assumes "advances st st1" "blocked v st m"
  shows "blocked v st1 m"
proof -
  obtain Q where Q: "Q \<subseteq> Members v" "QuorumSize v \<le> card Q"
    "\<forall>p \<in> Q. m < promise_at st p \<and> (\<forall>r. (p, r) \<in> set (learns st) \<longrightarrow> PN r \<noteq> m)"
    using assms(2) unfolding blocked_def by blast
  have "m < promise_at st1 p" "(p, r) \<in> set (learns st1) \<Longrightarrow> PN r \<noteq> m" if p: "p \<in> Q" for p r
  proof -
    have "m < promise_at st p" "promise_at st p \<le> promise_at st1 p"
      using Q(3) assms(1) p by (auto simp: advances_def)
    then show "m < promise_at st1 p" by simp
    assume "(p, r) \<in> set (learns st1)"
    then have "(p, r) \<in> set (learns st) \<or> promise_at st p \<le> PN r" using assms(1) by (auto simp: advances_def)
    then show "PN r \<noteq> m" using Q(3) p \<open>m < promise_at st p\<close> by auto
  qed
  with Q show ?thesis unfolding blocked_def by blast
qed

lemma advances_values:
  assumes "advances st st1" "accepts st1 = accepts st" "values_inv v st"
  shows "values_inv v st1"
  using assms(3) advances_promised [OF assms(1)] advances_blocked [OF assms(1)]
  unfolding values_inv_def assms(2) by blast

section \<open>Events keep the invariant\<close>

lemma inv_StartProposal:
  assumes "paxos_inv v st" "paxos_step True kv v (StartProposal n) st = Some st1"
  shows "paxos_inv v st1"
proof -
  note s = step_StartProposal [OF assms(2)]
  have "advances st st1" using s(3) by (simp add: advances_def)
  then have "values_inv v st1" using advances_values [of st st1 v] s(3) assms(1) by (simp add: paxos_inv_def)
  then show ?thesis using assms(1) s by (simp add: paxos_inv_parts)
qed

lemma inv_DeliverPrepare:
  assumes "paxos_inv v st" "paxos_step True kv v (DeliverPrepare p n) st = Some st1"
  shows "paxos_inv v st1"
  using assms(2)
proof (cases rule: step_DeliverPrepare)
  case (promised db)
  let ?r = "zero_Proposal\<lparr>PN := PN (accepted_at st p), PValue := PValue (accepted_at st p)\<rparr>"
  have adv: "advances st st1" using promised(3,4) by (auto simp: advances_def)
  have "values_inv v st1"
    using advances_values [OF adv] assms(1) promised(4) by (simp add: paxos_inv_def)
  moreover have "requests_inv st1" "acceptors_inv st1"
    using assms(1) promised(4) by (auto simp: paxos_inv_parts)
  moreover have "promises_inv st1"
    unfolding promises_inv_def
  proof (intro allI impI)
    fix q k r assume "(q, k, r) \<in> set (promises st1)"
    then consider (new) "q = p" "k = n" "r = ?r" | (old) "(q, k, r) \<in> set (promises st)"
      using promised(4) by auto
    then show "k \<le> promise_at st1 q \<and>
      (PN r = 0 \<and> PValue r = None \<or> (\<exists>s \<in> set (accepts st1). PN s = PN r \<and> PValue s = PValue r)) \<and>
      (\<forall>s. (q, s) \<in> set (learns st1) \<and> PN s < k \<longrightarrow> PN s \<le> PN r)"
    proof cases
      case new
      have "accepted_at st p = zero_Proposal \<or> accepted_at st p \<in> set (accepts st)"
        "\<forall>s. (p, s) \<in> set (learns st) \<longrightarrow> PN s \<le> PN (accepted_at st p)"
        using assms(1) by (auto simp: paxos_inv_parts)
      then show ?thesis using new promised(4) by auto
    next
      case old
      note old_inv = promises_invD [OF assms(1) old]
      have "k \<le> promise_at st1 q" using old_inv(1) adv by (auto simp: advances_def intro: order_trans)
      moreover have "accepts st1 = accepts st" "learns st1 = learns st" using promised(4) by simp_all
      ultimately show ?thesis using old_inv(2,3) by simp
    qed
  qed
  ultimately show ?thesis by (simp add: paxos_inv_def)
qed (use assms(1) in simp)

lemma inv_DeliverLearn:
  assumes "paxos_inv v st" "paxos_step True kv v (DeliverLearn p q r) st = Some st1"
  shows "paxos_inv v st1"
proof -
  obtain ci where ci: "acceptedProposal ci = accepted_at st p" "lastPromiseProposalNumber ci = promise_at st p"
    and st1: "st1 = st\<lparr>acceptor := (acceptor st)(p := ci)\<rparr>"
    using step_DeliverLearn [OF assms(2)] .
  have eq: "accepted_at st1 x = accepted_at st x" "promise_at st1 x = promise_at st x" for x
    using ci st1 by simp_all
  have "advances st st1" using eq st1 by (simp add: advances_def)
  then have "values_inv v st1" using advances_values [of st st1 v] st1 assms(1) by (simp add: paxos_inv_def)
  then show ?thesis using assms(1) st1 ci by (auto simp: paxos_inv_parts)
qed

lemma inv_DeliverAccept:
  assumes "paxos_inv v st" "paxos_step True kv v (DeliverAccept p a) st = Some st1"
  shows "paxos_inv v st1"
  using assms(2)
proof (cases rule: step_DeliverAccept)
  case (accepted db)
  have adv: "advances st st1" using accepted(4,5) by (auto simp: advances_def)
  have "values_inv v st1" using advances_values [OF adv] assms(1) accepted(5) by (simp add: paxos_inv_def)
  moreover have "requests_inv st1" using assms(1) accepted(5) by (simp add: paxos_inv_parts)
  moreover have "acceptors_inv st1"
    using learns_invD [OF assms(1)] assms(1) accepted(2,3,5)
    by (fastforce simp: paxos_inv_def acceptors_inv_def)
  moreover have "promises_inv st1"
    unfolding promises_inv_def
  proof (intro allI impI)
    fix q k r assume "(q, k, r) \<in> set (promises st1)"
    then have "(q, k, r) \<in> set (promises st)" using accepted(5) by simp
    note old = promises_invD [OF assms(1) this]
    have "PN s \<le> PN r" if "(q, s) \<in> set (learns st1) \<and> PN s < k" for s
      using old(1) old(3) [of s] that accepted(4,5) by auto
    then show "k \<le> promise_at st1 q \<and>
      (PN r = 0 \<and> PValue r = None \<or> (\<exists>s \<in> set (accepts st1). PN s = PN r \<and> PValue s = PValue r)) \<and>
      (\<forall>s. (q, s) \<in> set (learns st1) \<and> PN s < k \<longrightarrow> PN s \<le> PN r)"
      using old(1,2) accepted(5) by auto
  qed
  ultimately show ?thesis by (simp add: paxos_inv_def)
qed (use assms(1) in simp)

text \<open>The first phase gathers the promises of a quorum and their highest report.\<close>

lemma prepare_quorum:
  assumes "replies_ok v n rs st" "prepare_loop v 0 0 zero_Proposal (map snd rs) = PrepareDone x"
  obtains Q h where "Q \<subseteq> Members v" "QuorumSize v \<le> card Q" "x = PValue h"
    "\<And>p. p \<in> Q \<Longrightarrow> \<exists>r. (p, n, r) \<in> set (promises st) \<and> PN r \<le> PN h"
    "h = zero_Proposal \<or> (\<exists>p. (p, n, h) \<in> set (promises st))"
proof -
  obtain taken rest h where t: "map snd rs = taken @ rest" "length (oks taken) = QuorumSize v" "x = PValue h"
    "h \<in> insert zero_Proposal (set (oks taken))" "\<forall>y \<in> insert zero_Proposal (set (oks taken)). PN y \<le> PN h"
    using prepare_loop_done [OF assms(2)] by auto
  obtain T R where T: "rs = T @ R" "map snd T = taken" using t(1) by (auto simp: map_eq_append_conv)
  let ?T = "filter (\<lambda>(p, r). PErr r = None) T"
  have oks: "oks taken = map snd ?T" unfolding T(2) [symmetric] by (induction T) auto
  have "distinct (map fst T)" using assms(1) T(1) by (simp add: replies_ok_def)
  then have "distinct (map fst ?T)" by (rule distinct_map_filter)
  then have card: "card (fst ` set ?T) = QuorumSize v"
    using card_image_distinct_map [of fst ?T] t(2) oks by simp
  have mem: "p \<in> Members v" "(p, n, r) \<in> set (promises st)" "PN r \<le> PN h" if "(p, r) \<in> set ?T" for p r
  proof -
    have "(p, r) \<in> set rs" "PErr r = None" using that T(1) by auto
    then show "p \<in> Members v" "(p, n, r) \<in> set (promises st)" using assms(1) by (auto simp: replies_ok_def)
    have "r \<in> set (oks taken)" unfolding oks using that by force
    then show "PN r \<le> PN h" using t(5) by blast
  qed
  have "h = zero_Proposal \<or> (\<exists>p. (p, n, h) \<in> set (promises st))"
  proof (cases "h = zero_Proposal")
    case False
    then obtain p where "(p, h) \<in> set ?T" using t(4) unfolding oks by auto
    with mem(2) show ?thesis by blast
  qed simp
  moreover have "fst ` set ?T \<subseteq> Members v" using mem(1) by (auto simp del: set_filter)
  moreover have "\<exists>r. (p, n, r) \<in> set (promises st) \<and> PN r \<le> PN h" if p: "p \<in> fst ` set ?T" for p
  proof -
    obtain y where y: "y \<in> set ?T" "p = fst y" using p by (rule imageE)
    have "(p, snd y) \<in> set ?T" unfolding y(2) prod.collapse by (rule y(1))
    with mem(2,3) show ?thesis by blast
  qed
  ultimately show thesis using card t(3) by (intro that [of "fst ` set ?T" h]) simp_all
qed

lemma begin_value:
  assumes "paxos_inv v st" "x = PValue h" "h = zero_Proposal \<or> (\<exists>p. (p, n, h) \<in> set (promises st))" "0 < PN h"
  obtains c where "c \<in> set (accepts st)" "PN c = PN h" "PValue c = chooseValue x d"
proof -
  obtain p where "(p, n, h) \<in> set (promises st)" using assms(3,4) by auto
  with promises_invD(2) [OF assms(1)] assms(4) obtain c
    where c: "c \<in> set (accepts st)" "PN c = PN h" "PValue c = PValue h" by fastforce
  have "PValue c \<noteq> None" using assms(1) c(1) unfolding paxos_inv_def requests_inv_def by blast
  then show thesis using that [OF c(1,2)] c(3) assms(2) by (auto simp: chooseValue_def)
qed

lemma begin_compatible:
  assumes "paxos_inv v st" "a \<in> set (accepts st)" "PN a < n"
    and Q: "Q \<subseteq> Members v" "QuorumSize v \<le> card Q" "x = PValue h"
    "\<And>p. p \<in> Q \<Longrightarrow> \<exists>r. (p, n, r) \<in> set (promises st) \<and> PN r \<le> PN h"
    "h = zero_Proposal \<or> (\<exists>p. (p, n, h) \<in> set (promises st))"
  shows "PValue a = chooseValue x d \<or> blocked v st (PN a)"
proof (cases "\<exists>p \<in> Q. \<exists>s. (p, s) \<in> set (learns st) \<and> PN s = PN a")
  case True
  then obtain p s where p: "p \<in> Q" "(p, s) \<in> set (learns st)" "PN s = PN a" by blast
  then obtain r where r: "(p, n, r) \<in> set (promises st)" "PN r \<le> PN h" using Q(4) by blast
  have "PN a \<le> PN h" using promises_invD(3) [OF assms(1) r(1) p(2)] p(3) r(2) assms(3) by simp
  moreover have "0 < PN a" using assms(1,2) by (simp add: paxos_inv_parts)
  ultimately obtain c where c: "c \<in> set (accepts st)" "PN c = PN h" "PValue c = chooseValue x d"
    using begin_value [OF assms(1) Q(3,5)] by auto
  show ?thesis
  proof (cases "PN a = PN c")
    case True
    then have "a = c" using assms(1,2) c(1) by (auto simp: paxos_inv_parts inj_on_def)
    then show ?thesis using c(3) by simp
  next
    case False
    then have "PN a < PN c" using \<open>PN a \<le> PN h\<close> c(2) by simp
    then show ?thesis using assms(1,2) c(1,3) by (auto simp: paxos_inv_def values_inv_def)
  qed
next
  case False
  have "PN a < promise_at st p" if p: "p \<in> Q" for p
    using Q(4) [OF p] promises_invD(1) [OF assms(1)] assms(3) by fastforce
  then show ?thesis using False Q(1,2) unfolding blocked_def by blast
qed

lemma inv_BeginAccept:
  assumes "paxos_inv v st" "paxos_step True kv v (BeginAccept n rs d) st = Some st1"
  shows "paxos_inv v st1"
proof -
  obtain x where n: "n \<in> set (prepares st)" "n \<notin> PN ` set (accepts st)"
    and rs: "replies_ok v n rs st" "prepare_loop v 0 0 zero_Proposal (map snd rs) = PrepareDone x"
    and st1: "st1 = st\<lparr>accepts := (prepare_request v n)\<lparr>PValue := chooseValue x (Some d)\<rparr> # accepts st\<rparr>"
    using step_BeginAccept [OF assms(2)] .
  let ?a = "(prepare_request v n)\<lparr>PValue := chooseValue x (Some d)\<rparr>"
  obtain Q h where Q: "Q \<subseteq> Members v" "QuorumSize v \<le> card Q" "x = PValue h"
    "\<And>p. p \<in> Q \<Longrightarrow> \<exists>r. (p, n, r) \<in> set (promises st) \<and> PN r \<le> PN h"
    "h = zero_Proposal \<or> (\<exists>p. (p, n, h) \<in> set (promises st))"
    using prepare_quorum [OF rs] by metis
  have a: "PN ?a = n" "PValue ?a = chooseValue x (Some d)" by (simp_all add: prepare_request_def)
  have same: "promised v st1 k = promised v st k" "blocked v st1 k = blocked v st k" for k
    using st1 by (simp_all add: promised_def blocked_def)
  have pn: "promised v st n"
    unfolding promised_def using Q(1,2,4) promises_invD(1) [OF assms(1)] by blast
  have later: "blocked v st n" if b: "b \<in> set (accepts st)" "n < PN b" for b
  proof -
    have "promised v st (PN b)" using assms(1) b by (simp add: paxos_inv_def values_inv_def)
    moreover have "PN r \<noteq> n" if "(p, r) \<in> set (learns st)" for p r
      using learns_invD(1) [OF assms(1) that] n(2) by auto
    ultimately show ?thesis using b(2) unfolding promised_def blocked_def by force
  qed
  have "values_inv v st1"
    unfolding values_inv_def
  proof (intro conjI ballI impI)
    show "promised v st1 (PN b)" if b: "b \<in> set (accepts st1)" for b
    proof -
      have "b = ?a \<or> b \<in> set (accepts st)" using b st1 by simp
      then show ?thesis
      proof
        assume "b = ?a"
        then show ?thesis using pn a(1) by (simp only: same)
      next
        assume "b \<in> set (accepts st)"
        then show ?thesis using assms(1) unfolding same paxos_inv_def values_inv_def by blast
      qed
    qed
    fix b c assume bc: "b \<in> set (accepts st1)" "c \<in> set (accepts st1)" "PN b < PN c"
    then consider "c = ?a" "b \<in> set (accepts st)" | "b = ?a" "c \<in> set (accepts st)"
      | "b \<in> set (accepts st)" "c \<in> set (accepts st)" using st1 by auto
    then show "PValue b = PValue c \<or> blocked v st1 (PN b)"
    proof cases
      case 1
      then show ?thesis using begin_compatible [OF assms(1) _ _ Q, of b "Some d"] bc(3) a by (simp add: same)
    next
      case 2
      then show ?thesis using later [of c] bc(3) a(1) by (simp add: same)
    next
      case 3
      then show ?thesis using assms(1) bc(3) by (simp add: same paxos_inv_def values_inv_def)
    qed
  qed
  moreover have "requests_inv st1" using assms(1) n st1 a
    by (auto simp: paxos_inv_parts chooseValue_def)
  moreover have "acceptors_inv st1" using assms(1) st1 by (auto simp: paxos_inv_parts)
  moreover have "promises_inv st1"
    unfolding promises_inv_def
  proof (intro allI impI)
    fix q k r assume "(q, k, r) \<in> set (promises st1)"
    then have "(q, k, r) \<in> set (promises st)" using st1 by simp
    note old = promises_invD [OF assms(1) this]
    have "acceptor st1 = acceptor st" "learns st1 = learns st" "set (accepts st) \<subseteq> set (accepts st1)"
      using st1 by auto
    then show "k \<le> promise_at st1 q \<and>
      (PN r = 0 \<and> PValue r = None \<or> (\<exists>s \<in> set (accepts st1). PN s = PN r \<and> PValue s = PValue r)) \<and>
      (\<forall>s. (q, s) \<in> set (learns st1) \<and> PN s < k \<longrightarrow> PN s \<le> PN r)"
      using old by auto
  qed
  ultimately show ?thesis by (simp add: paxos_inv_def)
qed

lemma paxos_inv_reachable:
  assumes "paxos_reachable True kv v db st"
  shows "paxos_inv v st"
  using assms
proof induction
  case (step st ev st1)
  then show ?case
    by (cases ev) (blast intro: inv_StartProposal inv_DeliverPrepare inv_BeginAccept inv_DeliverAccept
        inv_DeliverLearn)+
qed (rule paxos_inv_init)

lemma chosen_unique:
  assumes "paxos_reachable True kv v db st" "wf_view v" "chosen v st m x" "chosen v st n y"
  shows "x = y"
proof -
  have inv: "paxos_inv v st" using paxos_inv_reachable [OF assms(1)] .
  have less: "x = y" if m: "m \<le> n" "chosen v st m x" "chosen v st n y" for m n x y
  proof -
    obtain Q where Q: "Q \<subseteq> Members v" "QuorumSize v \<le> card Q"
      "\<forall>p \<in> Q. \<exists>r. (p, r) \<in> set (learns st) \<and> PN r = m \<and> PValue r = x" using m(2) by (auto simp: chosen_def)
    obtain R where R: "R \<subseteq> Members v" "QuorumSize v \<le> card R"
      "\<forall>p \<in> R. \<exists>r. (p, r) \<in> set (learns st) \<and> PN r = n \<and> PValue r = y" using m(3) by (auto simp: chosen_def)
    obtain p q where "p \<in> Q" "q \<in> R"
      using vq.quorum_nonempty [OF assms(2) Q(2)] vq.quorum_nonempty [OF assms(2) R(2)] by blast
    then obtain a b where a: "a \<in> set (accepts st)" "PN a = m" "PValue a = x"
      and b: "b \<in> set (accepts st)" "PN b = n" "PValue b = y"
      using Q(3) R(3) learns_invD(1) [OF inv] by metis
    have "\<not> blocked v st m"
    proof
      assume "blocked v st m"
      then obtain B where B: "B \<subseteq> Members v" "QuorumSize v \<le> card B"
        "\<forall>p \<in> B. \<forall>r. (p, r) \<in> set (learns st) \<longrightarrow> PN r \<noteq> m" by (auto simp: blocked_def)
      show False
        by (rule vq.quorums_meet [OF assms(2) Q(1) B(1) Q(2) B(2)]) (use Q(3) B(3) in blast)
    qed
    then show ?thesis
      using inv a b m(1) by (cases "m = n") (auto simp: paxos_inv_def requests_inv_def values_inv_def inj_on_def)
  qed
  show ?thesis
  proof (cases "m \<le> n")
    case False
    then have "y = x" using less [of n m y x] assms(3,4) by simp
    then show ?thesis by simp
  qed (use less assms(3,4) in blast)
qed

section \<open>Properties\<close>

text \<open>C6: Consensus is safe when every acceptor handles accept requests in the order of their numbers:
  whatever members propose, and however the network delays, reorders or repeats the other
  messages, all chosen proposals of an instance have the same value.\<close>

theorem paxos_agreement:
  assumes "paxos_reachable True kv v db st" "wf_view v" "chosen v st m x" "chosen v st n y"
  shows "x = y"
  using chosen_unique [OF assms] .

text \<open>Runs as lists of events, to evaluate concrete ones.\<close>

fun paxos_run :: "bool \<Rightarrow> ('db, 'v) kv \<Rightarrow> View \<Rightarrow> 'v paxos_event list \<Rightarrow> ('v, 'db) paxos \<Rightarrow>
    ('v, 'db) paxos option" where
  "paxos_run ordered kv v [] st = Some st"
| "paxos_run ordered kv v (ev # evs) st =
     (case paxos_step ordered kv v ev st of None \<Rightarrow> None | Some st1 \<Rightarrow> paxos_run ordered kv v evs st1)"

lemma paxos_run_reachable:
  "paxos_reachable ordered kv v db st \<Longrightarrow> paxos_run ordered kv v evs st = Some st1 \<Longrightarrow>
    paxos_reachable ordered kv v db st1"
  by (induction evs arbitrary: st) (auto intro: paxos_reachable.step split: option.splits)

lemma mem_saves [simp]:
  "savePrepareRequestOnStorage mem_kv i p db = Returns (db(prepareRequest_key i \<mapsto> gob_int (PN p)))"
  "saveAcceptedProposalOnStorage mem_kv i p db = Returns (db(acceptedProposal_key i \<mapsto> gob_int (PN p)))"
  by (simp_all add: savePrepareRequestOnStorage_def saveAcceptedProposalOnStorage_def mem_kv_def)

lemma zero_Proposal_eta: "zero_Proposal\<lparr>PN := 0, PValue := None\<rparr> = zero_Proposal"
  by (simp add: zero_Proposal_def)

definition request :: "int \<Rightarrow> nat \<Rightarrow> nat Proposal" where
  "request n x = (prepare_request cv n)\<lparr>PValue := Some x\<rparr>"

definition answered :: "string \<Rightarrow> string \<Rightarrow> (Process \<times> nat Proposal) list" where
  "answered a b = [(Process a, zero_Proposal), (Process b, zero_Proposal)]"

text \<open>Members \<open>b\<close> and \<open>c\<close> propose 7 and 8 with the numbers 4 and 5, each with a quorum of promises.\<close>

definition rivals :: "nat paxos_event list" where
  "rivals = [StartProposal 4, DeliverPrepare (Process ''a'') 4, DeliverPrepare (Process ''b'') 4,
     StartProposal 5, DeliverPrepare (Process ''b'') 5, DeliverPrepare (Process ''c'') 5,
     BeginAccept 4 (answered ''a'' ''b'') 7, BeginAccept 5 (answered ''b'' ''c'') 8]"

lemmas paxos_eval = rivals_def answered_def request_def paxos_init_def newInstance_def
  worker_Prepare_def worker_Accept_def prepare_request_def zero_Proposal_eta replies_ok_def cv_facts
  prepare_def chooseValue_def Let_def

lemma chosenI:
  assumes "set Q \<subseteq> Members v" "distinct Q" "QuorumSize v \<le> length Q" "\<forall>p \<in> set Q. (p, r) \<in> set (learns st)"
  shows "chosen v st (PN r) (PValue r)"
  unfolding chosen_def using assms distinct_card [OF assms(2)]
  by (intro exI [of _ "set Q"]) auto

lemma run_from_init:
  "paxos_run ordered kv v evs (paxos_init v db) = Some st \<Longrightarrow> paxos_reachable ordered kv v db st"
  using paxos_run_reachable [OF paxos_reachable.init] .

theorem paxos_agreement_witness:
  "\<exists>st. paxos_reachable True (mem_kv :: (_, nat) kv) cv Map.empty st \<and> chosen cv st 5 (Some 8) \<and>
     \<not> chosen cv st 4 (Some 7)"
proof -
  have "\<exists>st. paxos_run True mem_kv cv (rivals @ [DeliverAccept (Process ''a'') (request 4 7),
      DeliverAccept (Process ''c'') (request 5 8), DeliverAccept (Process ''b'') (request 5 8)])
      (paxos_init cv Map.empty) = Some st \<and>
    learns st = [(Process ''b'', request 5 8), (Process ''c'', request 5 8), (Process ''a'', request 4 7)]"
    by (simp add: paxos_eval)
  then obtain st where run: "paxos_run True mem_kv cv (rivals @ [DeliverAccept (Process ''a'') (request 4 7),
      DeliverAccept (Process ''c'') (request 5 8), DeliverAccept (Process ''b'') (request 5 8)])
      (paxos_init cv Map.empty) = Some st"
    and learns: "learns st = [(Process ''b'', request 5 8), (Process ''c'', request 5 8), (Process ''a'', request 4 7)]"
    by blast
  note reach = run_from_init [OF run]
  have "chosen cv st (PN (request 5 8)) (PValue (request 5 8))"
    by (rule chosenI [of "[Process ''b'', Process ''c'']"]) (simp_all add: cv_facts learns)
  then have c: "chosen cv st 5 (Some 8)" by (simp add: request_def prepare_request_def)
  have "\<not> chosen cv st 4 (Some 7)" using paxos_agreement [OF reach cv_facts(1) c, of 4 "Some 7"] by auto
  with reach c show ?thesis by blast
qed

text \<open>C32: Without that order two values can be chosen, although every acceptor keeps its promises. The
  acceptor \<open>a\<close> promised 4, accepts proposal 5, and then accepts proposal 4, since only promises
  are compared, forgetting the higher-numbered one. Proposal 5 was chosen with the value 8;
  the next proposer learns from \<open>a\<close> only of proposal 4, and has the value 7 chosen.\<close>

theorem consensus_can_choose_two_values:
  "\<exists>st. paxos_reachable False (mem_kv :: (_, nat) kv) cv Map.empty st \<and>
     chosen cv st 5 (Some 8) \<and> chosen cv st 6 (Some 7)"
proof -
  let ?evs = "rivals @ [DeliverAccept (Process ''a'') (request 5 8), DeliverAccept (Process ''c'') (request 5 8),
      DeliverAccept (Process ''a'') (request 4 7), StartProposal 6, DeliverPrepare (Process ''a'') 6,
      DeliverPrepare (Process ''b'') 6,
      BeginAccept 6 [(Process ''a'', zero_Proposal\<lparr>PN := 4, PValue := Some 7\<rparr>), (Process ''b'', zero_Proposal)] 9,
      DeliverAccept (Process ''a'') (request 6 7), DeliverAccept (Process ''b'') (request 6 7)]"
  have "\<exists>st. paxos_run False mem_kv cv ?evs (paxos_init cv Map.empty) = Some st \<and>
    learns st = [(Process ''b'', request 6 7), (Process ''a'', request 6 7), (Process ''a'', request 4 7),
      (Process ''c'', request 5 8), (Process ''a'', request 5 8)]"
    by (simp add: paxos_eval)
  then obtain st where run: "paxos_run False mem_kv cv ?evs (paxos_init cv Map.empty) = Some st"
    and learns: "learns st = [(Process ''b'', request 6 7), (Process ''a'', request 6 7),
      (Process ''a'', request 4 7), (Process ''c'', request 5 8), (Process ''a'', request 5 8)]" by blast
  have "chosen cv st (PN (request 5 8)) (PValue (request 5 8))" "chosen cv st (PN (request 6 7)) (PValue (request 6 7))"
    by (rule chosenI [of "[Process ''a'', Process ''c'']"] chosenI [of "[Process ''a'', Process ''b'']"];
        simp add: cv_facts learns)+
  then have "chosen cv st 5 (Some 8)" "chosen cv st 6 (Some 7)"
    by (simp_all add: request_def prepare_request_def)
  with run_from_init [OF run] show ?thesis by blast
qed

text \<open>C33: Learners can decide differently, on values nobody chose, even with accepts in order: the
  counter of a worker counts learn requests of all proposals together, so one acceptance of
  each of two proposals fills a quorum of two, and the value reported is the one that came
  last. Members \<open>a\<close> and \<open>b\<close> report 8 and 7, and neither is chosen.\<close>

theorem learners_can_disagree:
  "\<exists>st. paxos_reachable True (mem_kv :: (_, nat) kv) cv Map.empty st \<and>
     callbackLearnChan (acceptor st (Process ''a'')) = [Some 8] \<and>
     callbackLearnChan (acceptor st (Process ''b'')) = [Some 7] \<and>
     \<not> (\<exists>n x. chosen cv st n x)"
proof -
  let ?evs = "rivals @ [DeliverAccept (Process ''a'') (request 4 7), DeliverAccept (Process ''c'') (request 5 8),
      DeliverLearn (Process ''a'') (Process ''a'') (request 4 7), DeliverLearn (Process ''a'') (Process ''c'') (request 5 8),
      DeliverLearn (Process ''b'') (Process ''c'') (request 5 8), DeliverLearn (Process ''b'') (Process ''a'') (request 4 7)]"
  have i: "go_int 1 = 1" "go_int 2 = 2" by (simp_all add: go_int_def)
  have "\<exists>st. paxos_run True mem_kv cv ?evs (paxos_init cv Map.empty) = Some st \<and>
    learns st = [(Process ''c'', request 5 8), (Process ''a'', request 4 7)] \<and>
    callbackLearnChan (acceptor st (Process ''a'')) = [Some 8] \<and>
    callbackLearnChan (acceptor st (Process ''b'')) = [Some 7]"
    by (simp add: paxos_eval worker_Learn_def i)
  then obtain st where run: "paxos_run True mem_kv cv ?evs (paxos_init cv Map.empty) = Some st"
    and learns: "learns st = [(Process ''c'', request 5 8), (Process ''a'', request 4 7)]"
    and learned: "callbackLearnChan (acceptor st (Process ''a'')) = [Some 8]"
      "callbackLearnChan (acceptor st (Process ''b'')) = [Some 7]" by blast
  have "\<not> chosen cv st n x" for n x
  proof
    assume "chosen cv st n x"
    then obtain Q where Q: "2 \<le> card Q" "\<forall>p \<in> Q. \<exists>r. (p, r) \<in> set (learns st) \<and> PN r = n"
      unfolding chosen_def cv_facts by blast
    have "Q \<subseteq> (if n = 5 then {Process ''c''} else {Process ''a''})"
      using Q(2) by (auto simp: learns request_def prepare_request_def)
    then have "card Q \<le> 1" by (auto dest: card_mono [rotated] split: if_splits)
    with Q(1) show False by simp
  qed
  with learned run_from_init [OF run] show ?thesis by blast
qed

section \<open>Refinement\<close>

text \<open>
  The abstract specification of one consensus instance: it is undecided, or decided on a value
  for ever. The decision of a network is the value that is chosen.
\<close>

inductive consensus_spec :: "'x option \<Rightarrow> 'x option \<Rightarrow> bool" where
  stutter: "consensus_spec d d"
| decide: "consensus_spec None (Some x)"

definition decided :: "View \<Rightarrow> ('v, 'db) paxos \<Rightarrow> 'v option option \<Rightarrow> bool" where
  "decided v st d \<longleftrightarrow> (case d of
       None \<Rightarrow> \<forall>n y. \<not> chosen v st n y
     | Some x \<Rightarrow> (\<exists>n. chosen v st n x) \<and> (\<forall>n y. chosen v st n y \<longrightarrow> y = x))"

lemma step_learns:
  assumes "paxos_step ordered kv v ev st = Some st1"
  shows "set (learns st) \<subseteq> set (learns st1)"
proof (cases ev)
  case (StartProposal n)
  with assms have "paxos_step ordered kv v (StartProposal n) st = Some st1" by simp
  from step_StartProposal(3) [OF this] show ?thesis by simp
next
  case (DeliverPrepare p n)
  with assms have "paxos_step ordered kv v (DeliverPrepare p n) st = Some st1" by simp
  then show ?thesis by (cases rule: step_DeliverPrepare) auto
next
  case (BeginAccept n rs d)
  with assms have "paxos_step ordered kv v (BeginAccept n rs d) st = Some st1" by simp
  then show ?thesis by (rule step_BeginAccept) simp
next
  case (DeliverAccept p a)
  with assms have "paxos_step ordered kv v (DeliverAccept p a) st = Some st1" by simp
  then show ?thesis by (cases rule: step_DeliverAccept) auto
next
  case (DeliverLearn p q r)
  with assms have "paxos_step ordered kv v (DeliverLearn p q r) st = Some st1" by simp
  then show ?thesis by (rule step_DeliverLearn) simp
qed

lemma chosen_mono:
  assumes "chosen v st n x" "set (learns st) \<subseteq> set (learns st1)"
  shows "chosen v st1 n x"
proof -
  obtain Q where Q: "Q \<subseteq> Members v" "QuorumSize v \<le> card Q"
    "\<forall>p \<in> Q. \<exists>r. (p, r) \<in> set (learns st) \<and> PN r = n \<and> PValue r = x"
    using assms(1) unfolding chosen_def by blast
  have "\<exists>r. (p, r) \<in> set (learns st1) \<and> PN r = n \<and> PValue r = x" if p: "p \<in> Q" for p
  proof -
    obtain r where r: "(p, r) \<in> set (learns st)" "PN r = n" "PValue r = x" using Q(3) p by blast
    from subsetD [OF assms(2) r(1)] r(2,3) show ?thesis by blast
  qed
  with Q(1,2) show ?thesis unfolding chosen_def by blast
qed

lemma not_chosen_init:
  assumes "wf_view v"
  shows "\<not> chosen v (paxos_init v db) n x"
proof
  assume "chosen v (paxos_init v db) n x"
  then obtain Q where Q: "QuorumSize v \<le> card Q"
    "\<forall>p \<in> Q. \<exists>r. (p, r) \<in> set (learns (paxos_init v db :: ('a, 'b) paxos)) \<and> PN r = n \<and> PValue r = x"
    unfolding chosen_def by blast
  from vq.quorum_nonempty [OF assms Q(1)] Q(2) show False by (simp add: paxos_init_def ex_in_conv)
qed

text \<open>C7: The consensus protocol refines its specification as long as accept requests are handled in
  the order of their numbers: an instance starts undecided, and every event of the network
  is a step of the specification, leaving the decision as it is or deciding an undecided
  instance; a decision is never revoked or changed.\<close>

theorem paxos_refines_consensus:
  fixes st :: "('v, 'db) paxos"
  assumes "wf_view v"
  shows "decided v (paxos_init v db :: ('v, 'db) paxos) None \<and>
    (paxos_reachable True kv v db st \<and> decided v st d \<and> paxos_step True kv v ev st = Some st1 \<longrightarrow>
      (\<exists>d1. decided v st1 d1 \<and> consensus_spec d d1))"
proof (intro conjI impI)
  show "decided v (paxos_init v db :: ('v, 'db) paxos) None"
    by (simp add: decided_def not_chosen_init [OF assms])
  assume h: "paxos_reachable True kv v db st \<and> decided v st d \<and> paxos_step True kv v ev st = Some st1"
  then have step: "paxos_step True kv v ev st = Some st1" by simp
  have reach: "paxos_reachable True kv v db st1" using h paxos_reachable.step [OF _ step] by simp
  have keep: "chosen v st1 n x" if "chosen v st n x" for n x
    using that step_learns [OF step] by (rule chosen_mono)
  have once: "decided v st1 (Some x)" if x: "chosen v st1 n x" for n x
    using x chosen_unique [OF reach assms] by (auto simp: decided_def)
  show "\<exists>d1. decided v st1 d1 \<and> consensus_spec d d1"
  proof (cases d)
    case None
    show ?thesis
    proof (cases "\<exists>n x. chosen v st1 n x")
      case True
      then obtain n x where "chosen v st1 n x" by (elim exE)
      then show ?thesis unfolding None by (intro exI [of _ "Some x"] conjI once decide)
    next
      case False
      then have "decided v st1 None" by (simp add: decided_def)
      then show ?thesis unfolding None by (intro exI [of _ None] conjI stutter)
    qed
  next
    case (Some y)
    then obtain m where "chosen v st m y" using h by (auto simp: decided_def)
    from once [OF keep [OF this]] show ?thesis unfolding Some by (intro exI [of _ "Some y"] conjI stutter)
  qed
qed

theorem paxos_refines_consensus_witness:
  "\<exists>st1 d1. paxos_step True mem_kv cv (StartProposal 4) (paxos_init cv Map.empty :: (nat, _) paxos) = Some st1 \<and>
      decided cv st1 d1 \<and> consensus_spec None d1"
proof -
  let ?st = "paxos_init cv Map.empty :: (nat, string \<rightharpoonup> byte list) paxos"
  have step: "paxos_step True mem_kv cv (StartProposal 4) ?st = Some (?st\<lparr>prepares := [4]\<rparr>)"
    by (simp add: paxos_init_def)
  note r = paxos_refines_consensus [OF cv_facts(1), of Map.empty mem_kv ?st None "StartProposal 4" "?st\<lparr>prepares := [4]\<rparr>"]
  have "\<exists>d1. decided cv (?st\<lparr>prepares := [4]\<rparr>) d1 \<and> consensus_spec None d1"
    by (rule mp [OF conjunct2 [OF r]]) (intro conjI paxos_reachable.init conjunct1 [OF r] step)
  with step show ?thesis by blast
qed

end
