(* ===== verification/Comm.thy ===== *)
theory Comm
  imports Quorum_Tally
begin

text \<open>
  \<^verbatim>\<open>pkg/comm\<close>: the table of connections (\<^verbatim>\<open>communication.go\<close>), the broadcast, and the loop that
  repairs connections (\<^verbatim>\<open>repair.go\<close>).

  A connection (\<^verbatim>\<open>*rpc.Client\<close>) is a value of any type \<open>'c\<close>; what the network does is an
  argument: the result of \<^verbatim>\<open>rpc.Dial\<close> for an address and the error of a \<^verbatim>\<open>Call\<close>. A process
  of the system is one state with the table, the channel to the repair loop, the local
  variables of that loop, and the links of the calls that are under way, since the table can
  change between looking up a link and the end of the call. The operations on the table hold
  \<^verbatim>\<open>commLinkTableMu\<close>, so each is one step; \<open>Comm_Locks\<close> has the steps in between, at which
  a sender can wait for a full repair channel while it holds this lock.
\<close>

section \<open>State\<close>

record 'c communicationLink =
  link_process :: Process
  rpcClient :: "'c option"

definition zero_link :: "'c communicationLink" where
  "zero_link = \<lparr>link_process = Process '''', rpcClient = None\<rparr>"

definition isFaulty :: "'c communicationLink \<Rightarrow> bool" where
  "isFaulty commLink \<longleftrightarrow> rpcClient commLink = None"

text \<open>Durations are in nanoseconds. A stopped timer is \<open>None\<close>.\<close>

definition initialCommLinkRepairPeriod :: int where
  "initialCommLinkRepairPeriod = 1000000000"

definition maxCommLinkRepairPeriod :: int where
  "maxCommLinkRepairPeriod = 3 * 1000000000"

record 'c Comm =
  commLinkTable :: "Process \<rightharpoonup> 'c communicationLink"
  repairLinkChan :: "'c communicationLink list"
  faultyCommLinks :: "Process set"
  commLinkRepairPeriod :: int
  repairTimer :: "int option"
  inCall :: "'c communicationLink list"

definition initComm :: "'c Comm" where
  "initComm = \<lparr>commLinkTable = Map.empty, repairLinkChan = [], faultyCommLinks = {},
     commLinkRepairPeriod = initialCommLinkRepairPeriod,
     repairTimer = Some initialCommLinkRepairPeriod, inCall = []\<rparr>"

section \<open>The table of links\<close>

definition getCommLink ::
    "(Process \<Rightarrow> string + 'c) \<Rightarrow> Process \<Rightarrow> 'c Comm \<Rightarrow> 'c communicationLink \<times> 'c Comm" where
  "getCommLink dial process st =
     (case commLinkTable st process of
        Some commLink \<Rightarrow> (commLink, st)
      | None \<Rightarrow>
          let commLink = zero_link\<lparr>link_process := process\<rparr> in
          case dial process of
            Inl err \<Rightarrow> (commLink, st\<lparr>repairLinkChan := repairLinkChan st @ [commLink],
              commLinkTable := (commLinkTable st)(process \<mapsto> commLink)\<rparr>)
          | Inr newRpcClient \<Rightarrow>
              let commLink1 = commLink\<lparr>rpcClient := Some newRpcClient\<rparr> in
              (commLink1, st\<lparr>commLinkTable := (commLinkTable st)(process \<mapsto> commLink1)\<rparr>))"

text \<open>Indexing the map with a missing key gives the zero link.\<close>

definition link_at :: "Process \<Rightarrow> 'c Comm \<Rightarrow> 'c communicationLink" where
  "link_at process st = (case commLinkTable st process of Some commLink \<Rightarrow> commLink | None \<Rightarrow> zero_link)"

definition setCommLinkFaulty :: "Process \<Rightarrow> 'c Comm \<Rightarrow> 'c Comm" where
  "setCommLinkFaulty process st =
     (let commLink = (link_at process st)\<lparr>rpcClient := None\<rparr> in
      st\<lparr>commLinkTable := (commLinkTable st)(process \<mapsto> commLink),
         repairLinkChan := repairLinkChan st @ [commLink]\<rparr>)"

definition deleteCommLink :: "Process \<Rightarrow> 'c Comm \<Rightarrow> 'c Comm" where
  "deleteCommLink process st = st\<lparr>commLinkTable := (commLinkTable st)(process := None)\<rparr>"

section \<open>Requests\<close>

datatype send_error = Unreachable Process | CallFailed string Process string

text \<open>The two halves of \<^verbatim>\<open>SendRPCRequest\<close>: up to the call, and from its end on.\<close>

definition beginCall ::
    "(Process \<Rightarrow> string + 'c) \<Rightarrow> Process \<Rightarrow> 'c Comm \<Rightarrow> (send_error + 'c communicationLink) \<times> 'c Comm" where
  "beginCall dial process st =
     (let (commLink, st1) = getCommLink dial process st in
      if isFaulty commLink then (Inl (Unreachable process), st1)
      else (Inr commLink, st1\<lparr>inCall := commLink # inCall st1\<rparr>))"

definition endCall ::
    "string \<Rightarrow> 'c communicationLink \<Rightarrow> string option \<Rightarrow> 'c Comm \<Rightarrow> send_error option \<times> 'c Comm" where
  "endCall serviceMethod commLink err st =
     (let st1 = st\<lparr>inCall := remove1 commLink (inCall st)\<rparr> in
      case err of
        Some e \<Rightarrow> (Some (CallFailed serviceMethod (link_process commLink) e),
          setCommLinkFaulty (link_process commLink) st1)
      | None \<Rightarrow> (None, st1))"

text \<open>A request with nothing in between; \<open>call\<close> is the error of the connection's \<^verbatim>\<open>Call\<close>.\<close>

definition SendRPCRequest :: "(Process \<Rightarrow> string + 'c) \<Rightarrow> ('c \<Rightarrow> string option) \<Rightarrow> string \<Rightarrow> Process \<Rightarrow>
    'c Comm \<Rightarrow> send_error option \<times> 'c Comm" where
  "SendRPCRequest dial call serviceMethod process st =
     (case beginCall dial process st of
        (Inl err, st1) \<Rightarrow> (Some err, st1)
      | (Inr commLink, st1) \<Rightarrow>
          endCall serviceMethod commLink
            (case rpcClient commLink of None \<Rightarrow> Some '''' | Some c \<Rightarrow> call c) st1)"

datatype broadcast_outcome = BroadcastErr send_error | BroadcastNil | BroadcastWaiting

fun broadcast_loop :: "View \<Rightarrow> nat \<Rightarrow> nat \<Rightarrow> send_error option list \<Rightarrow> broadcast_outcome" where
  "broadcast_loop destinationView failedTotal successTotal [] = BroadcastWaiting"
| "broadcast_loop destinationView failedTotal successTotal (err # errors) =
     (case err of
        Some e \<Rightarrow>
          if int (failedTotal + 1) > NumberOfToleratedFaults destinationView then BroadcastErr e
          else broadcast_loop destinationView (failedTotal + 1) successTotal errors
      | None \<Rightarrow>
          if successTotal + 1 = QuorumSize destinationView then BroadcastNil
          else broadcast_loop destinationView failedTotal (successTotal + 1) errors)"

text \<open>The members that are sent the request, and the result on the errors in their order of arrival.\<close>

definition BroadcastRPCRequest ::
    "View \<Rightarrow> send_error option list \<Rightarrow> Process list \<times> broadcast_outcome" where
  "BroadcastRPCRequest destinationView errors =
     (GetMembers destinationView, broadcast_loop destinationView 0 0 errors)"

section \<open>The repair loop\<close>

definition repairCommLinkFunc ::
    "(Process \<Rightarrow> string + 'c) \<Rightarrow> Process \<Rightarrow> 'c Comm \<Rightarrow> string option \<times> 'c Comm" where
  "repairCommLinkFunc dial process st =
     (case dial process of
        Inl err \<Rightarrow> (Some err, st)
      | Inr newRpcClient \<Rightarrow> (None, st\<lparr>commLinkTable := (commLinkTable st)
          (process \<mapsto> (link_at process st)\<lparr>rpcClient := Some newRpcClient\<rparr>)\<rparr>))"

text \<open>A new faulty link arrives.\<close>

definition repairNewLink :: "(Process \<Rightarrow> string + 'c) \<Rightarrow> 'c Comm \<Rightarrow> 'c Comm" where
  "repairNewLink dial st =
     (case repairLinkChan st of
        [] \<Rightarrow> st
      | commLink # links \<Rightarrow>
          let (err, st1) = repairCommLinkFunc dial (link_process commLink) (st\<lparr>repairLinkChan := links\<rparr>) in
          if err \<noteq> None then
            st1\<lparr>faultyCommLinks := insert (link_process commLink) (faultyCommLinks st1),
                commLinkRepairPeriod := initialCommLinkRepairPeriod,
                repairTimer := Some initialCommLinkRepairPeriod\<rparr>
          else st1)"

text \<open>The timer fires.\<close>

fun repair_range :: "(Process \<Rightarrow> string + 'c) \<Rightarrow> Process list \<Rightarrow> 'c Comm \<Rightarrow> 'c Comm" where
  "repair_range dial [] st = st"
| "repair_range dial (process # ps) st =
     (let (err, st1) = repairCommLinkFunc dial process st in
      if err \<noteq> None then repair_range dial ps st1
      else repair_range dial ps (st1\<lparr>faultyCommLinks := faultyCommLinks st1 - {process}\<rparr>))"

fun delete_range :: "Process list \<Rightarrow> 'c Comm \<Rightarrow> 'c Comm" where
  "delete_range [] st = st"
| "delete_range (process # ps) st = delete_range ps (deleteCommLink process st)"

definition repairOnTimer :: "(Process \<Rightarrow> string + 'c) \<Rightarrow> 'c Comm \<Rightarrow> 'c Comm" where
  "repairOnTimer dial st =
     (case repairTimer st of
        None \<Rightarrow> st
      | Some d \<Rightarrow>
          let st1 = repair_range dial (range_keys (faultyCommLinks st)) (st\<lparr>repairTimer := None\<rparr>);
              st2 = st1\<lparr>commLinkRepairPeriod := go_int (2 * commLinkRepairPeriod st1)\<rparr>;
              st3 = (if commLinkRepairPeriod st2 > maxCommLinkRepairPeriod
                     then delete_range (range_keys (faultyCommLinks st2)) st2 else st2)
          in if faultyCommLinks st3 = {} then st3\<lparr>repairTimer := None\<rparr>
             else st3\<lparr>repairTimer := Some (commLinkRepairPeriod st3)\<rparr>)"

text \<open>What can happen in a process, in any order.\<close>

datatype 'c comm_event =
    BeginCall "Process \<Rightarrow> string + 'c" Process
  | EndCall string "'c communicationLink" "string option"
  | RepairNewLink "Process \<Rightarrow> string + 'c"
  | RepairOnTimer "Process \<Rightarrow> string + 'c"

fun comm_step :: "'c comm_event \<Rightarrow> 'c Comm \<Rightarrow> 'c Comm" where
  "comm_step (BeginCall dial process) st = snd (beginCall dial process st)"
| "comm_step (EndCall serviceMethod commLink err) st =
     (if commLink \<in> set (inCall st) then snd (endCall serviceMethod commLink err st) else st)"
| "comm_step (RepairNewLink dial) st = repairNewLink dial st"
| "comm_step (RepairOnTimer dial) st = repairOnTimer dial st"

fun comm_run :: "'c comm_event list \<Rightarrow> 'c Comm \<Rightarrow> 'c Comm" where
  "comm_run [] st = st"
| "comm_run (ev # evs) st = comm_run evs (comm_step ev st)"

section \<open>Invariant of the links\<close>

text \<open>
  A link carries the process it leads to, unless it was made from a missing entry. A faulty
  link that carries its process is waiting for the repair loop, in the channel or in the
  loop's own set, and the timer runs as long as that set is not empty.
\<close>

definition awaits_repair :: "'c Comm \<Rightarrow> Process \<Rightarrow> bool" where
  "awaits_repair st p \<longleftrightarrow> p \<in> faultyCommLinks st \<or> p \<in> link_process ` set (repairLinkChan st)"

definition links_ok :: "'c Comm \<Rightarrow> bool" where
  "links_ok st \<longleftrightarrow> (\<forall>p l. commLinkTable st p = Some l \<longrightarrow>
     (link_process l = p \<or> link_process l = Process '''') \<and>
     (rpcClient l = None \<and> link_process l = p \<longrightarrow> awaits_repair st p)) \<and>
     finite (faultyCommLinks st)"

definition links_wf :: "'c Comm \<Rightarrow> bool" where
  "links_wf st \<longleftrightarrow> links_ok st \<and> (faultyCommLinks st \<noteq> {} \<longrightarrow> repairTimer st \<noteq> None)"

lemma links_okD:
  assumes "links_ok st" "commLinkTable st p = Some l"
  shows "link_process l = p \<or> link_process l = Process ''''"
    "rpcClient l = None \<Longrightarrow> link_process l = p \<Longrightarrow> awaits_repair st p"
  using assms by (auto simp: links_ok_def)

lemma links_wf_init: "links_wf initComm"
  by (simp add: links_wf_def links_ok_def initComm_def)

lemma links_ok_frame [simp]:
  "links_ok (st\<lparr>inCall := cs\<rparr>) = links_ok st" "links_ok (st\<lparr>repairTimer := t\<rparr>) = links_ok st"
  "links_ok (st\<lparr>commLinkRepairPeriod := d\<rparr>) = links_ok st"
  by (simp_all add: links_ok_def awaits_repair_def)

text \<open>Changing one entry keeps the invariant when the new entry satisfies it.\<close>

lemma links_ok_upd:
  assumes "links_ok st" "commLinkTable st1 = (commLinkTable st)(p \<mapsto> l)"
    and "link_process l = p \<or> link_process l = Process ''''"
    and "rpcClient l = None \<Longrightarrow> link_process l = p \<Longrightarrow> awaits_repair st1 p"
    and "\<And>q. awaits_repair st q \<Longrightarrow> q \<noteq> p \<Longrightarrow> awaits_repair st1 q"
    and "finite (faultyCommLinks st1)"
  shows "links_ok st1"
  unfolding links_ok_def
proof (intro conjI allI impI)
  fix q k assume q: "commLinkTable st1 q = Some k"
  show "link_process k = q \<or> link_process k = Process ''''"
    using q assms(2,3) links_okD(1) [OF assms(1)] by (auto split: if_splits)
  show "awaits_repair st1 q" if "rpcClient k = None \<and> link_process k = q"
    using q assms(2,4,5) links_okD(2) [OF assms(1), of q k] that by (auto split: if_splits)
qed (use assms(6) in auto)

lemma link_at_process:
  "links_ok st \<Longrightarrow> link_process (link_at p st) = p \<or> link_process (link_at p st) = Process ''''"
  by (auto simp: link_at_def zero_link_def dest: links_okD split: option.splits)

lemma links_ok_getCommLink: "links_ok st \<Longrightarrow> links_ok (snd (getCommLink dial p st))"
proof (cases "commLinkTable st p")
  case None
  assume wf: "links_ok st"
  show ?thesis
  proof (cases "dial p")
    case (Inl e)
    show ?thesis
      by (rule links_ok_upd [OF wf, of _ p "zero_link\<lparr>link_process := p\<rparr>"])
        (use wf None Inl in \<open>auto simp: getCommLink_def Let_def awaits_repair_def links_ok_def\<close>)
  next
    case (Inr c)
    show ?thesis
      by (rule links_ok_upd [OF wf, of _ p "zero_link\<lparr>link_process := p, rpcClient := Some c\<rparr>"])
        (use wf None Inr in \<open>auto simp: getCommLink_def Let_def awaits_repair_def links_ok_def\<close>)
  qed
qed (simp add: getCommLink_def)

lemma links_ok_setFaulty: "links_ok st \<Longrightarrow> links_ok (setCommLinkFaulty p st)"
  by (rule links_ok_upd [of st _ p "(link_at p st)\<lparr>rpcClient := None\<rparr>"])
    (use link_at_process in \<open>auto simp: setCommLinkFaulty_def Let_def awaits_repair_def links_ok_def\<close>)

lemma links_ok_delete: "links_ok st \<Longrightarrow> links_ok (deleteCommLink p st)"
  by (auto simp: links_ok_def deleteCommLink_def awaits_repair_def)

text \<open>A repaired link no longer has to wait.\<close>

lemma links_ok_repaired:
  assumes "links_ok st" "set (repairLinkChan st) \<subseteq> insert l (set cs)" "link_process l = p"
    "f = faultyCommLinks st - {p} \<or> f = faultyCommLinks st"
  shows "links_ok (st\<lparr>commLinkTable := (commLinkTable st)(p \<mapsto> (link_at p st)\<lparr>rpcClient := Some c\<rparr>),
    repairLinkChan := cs, faultyCommLinks := f\<rparr>)"
proof (rule links_ok_upd [OF assms(1), of _ p "(link_at p st)\<lparr>rpcClient := Some c\<rparr>"])
  show "awaits_repair (st\<lparr>commLinkTable := (commLinkTable st)(p \<mapsto> (link_at p st)\<lparr>rpcClient := Some c\<rparr>),
    repairLinkChan := cs, faultyCommLinks := f\<rparr>) q" if "awaits_repair st q" "q \<noteq> p" for q
    using that assms(2-4) by (auto simp: awaits_repair_def)
qed (use assms link_at_process [OF assms(1), of p] in \<open>auto simp: links_ok_def\<close>)

lemma repairCommLinkFunc_cases:
  obtains (failed) e where "dial p = Inl e" "repairCommLinkFunc dial p st = (Some e, st)"
  | (repaired) c where "dial p = Inr c" "repairCommLinkFunc dial p st = (None, st\<lparr>commLinkTable :=
      (commLinkTable st)(p \<mapsto> (link_at p st)\<lparr>rpcClient := Some c\<rparr>)\<rparr>)"
  by (cases "dial p") (auto simp: repairCommLinkFunc_def)

lemma links_wf_repairNewLink: "links_wf st \<Longrightarrow> links_wf (repairNewLink dial st)"
proof (cases "repairLinkChan st")
  case (Cons l ls)
  assume wf: "links_wf st"
  let ?st = "st\<lparr>repairLinkChan := ls\<rparr>" and ?p = "link_process l"
  show ?thesis
  proof (cases rule: repairCommLinkFunc_cases [of dial ?p ?st])
    case (failed e)
    then show ?thesis using wf Cons
      by (auto simp: repairNewLink_def links_wf_def links_ok_def awaits_repair_def)
  next
    case (repaired c)
    have "repairNewLink dial st = st\<lparr>commLinkTable := (commLinkTable st)(?p \<mapsto> (link_at ?p st)\<lparr>rpcClient := Some c\<rparr>),
        repairLinkChan := ls, faultyCommLinks := faultyCommLinks st\<rparr>"
      using Cons repaired by (simp add: repairNewLink_def link_at_def)
    moreover have "links_ok st" using wf by (simp add: links_wf_def)
    ultimately show ?thesis
      using links_ok_repaired [of st l ls ?p "faultyCommLinks st" c] Cons wf by (simp add: links_wf_def)
  qed
qed (simp add: repairNewLink_def)

lemma links_ok_repair_range: "links_ok st \<Longrightarrow> links_ok (repair_range dial ps st)"
proof (induction ps arbitrary: st)
  case (Cons p ps)
  show ?case
  proof (cases rule: repairCommLinkFunc_cases [of dial p st])
    case (failed e)
    then show ?thesis using Cons by simp
  next
    case (repaired c)
    have "links_ok (st\<lparr>commLinkTable := (commLinkTable st)(p \<mapsto> (link_at p st)\<lparr>rpcClient := Some c\<rparr>),
        repairLinkChan := repairLinkChan st, faultyCommLinks := faultyCommLinks st - {p}\<rparr>)"
      using Cons.prems by (intro links_ok_repaired [of st "zero_link\<lparr>link_process := p\<rparr>"]) auto
    then show ?thesis using Cons.IH repaired by simp
  qed
qed simp

lemma links_ok_delete_range: "links_ok st \<Longrightarrow> links_ok (delete_range ps st)"
  by (induction ps arbitrary: st) (simp_all add: links_ok_delete)

lemma links_wf_repairOnTimer: "links_wf st \<Longrightarrow> links_wf (repairOnTimer dial st)"
  by (auto simp: links_wf_def repairOnTimer_def Let_def links_ok_repair_range links_ok_delete_range
      split: option.splits)

lemma faulty_unchanged [simp]:
  "faultyCommLinks (snd (getCommLink dial p st)) = faultyCommLinks st"
  "repairTimer (snd (getCommLink dial p st)) = repairTimer st"
  "faultyCommLinks (setCommLinkFaulty p st) = faultyCommLinks st"
  "repairTimer (setCommLinkFaulty p st) = repairTimer st"
  by (simp_all add: getCommLink_def setCommLinkFaulty_def Let_def split: option.splits sum.splits)

lemma links_wf_step: "links_wf st \<Longrightarrow> links_wf (comm_step ev st)"
proof (cases ev)
  case (BeginCall dial p)
  assume "links_wf st"
  then show ?thesis using BeginCall
    by (simp add: links_wf_def beginCall_def case_prod_beta links_ok_getCommLink)
next
  case (EndCall m l err)
  assume "links_wf st"
  then show ?thesis using EndCall
    by (simp add: links_wf_def endCall_def Let_def links_ok_setFaulty split: option.splits)
qed (simp_all add: links_wf_repairNewLink links_wf_repairOnTimer)

lemma links_wf_run: "links_wf st \<Longrightarrow> links_wf (comm_run evs st)"
  by (induction evs arbitrary: st) (simp_all add: links_wf_step)

section \<open>Repairing a link\<close>

lemma repair_range_other:
  "p \<notin> set ps \<Longrightarrow> commLinkTable (repair_range dial ps st) p = commLinkTable st p \<and>
     (p \<in> faultyCommLinks (repair_range dial ps st) \<longleftrightarrow> p \<in> faultyCommLinks st)"
proof (induction ps arbitrary: st)
  case (Cons q ps)
  show ?case
    by (cases rule: repairCommLinkFunc_cases [of dial q st]) (use Cons in simp_all)
qed simp

lemma repair_range_at:
  assumes "p \<in> set ps" "distinct ps" "dial p = Inr c"
  shows "commLinkTable (repair_range dial ps st) p = Some ((link_at p st)\<lparr>rpcClient := Some c\<rparr>) \<and>
    p \<notin> faultyCommLinks (repair_range dial ps st)"
  using assms(1,2)
proof (induction ps arbitrary: st)
  case (Cons q ps)
  show ?case
  proof (cases "q = p")
    case True
    then have "p \<notin> set ps" using Cons.prems by simp
    then show ?thesis
      using True assms(3) by (simp add: repairCommLinkFunc_def repair_range_other)
  next
    case False
    show ?thesis
      by (cases rule: repairCommLinkFunc_cases [of dial q st])
        (use Cons False in \<open>simp_all add: link_at_def\<close>)
  qed
qed simp

lemma delete_range_other:
  "p \<notin> set ps \<Longrightarrow> commLinkTable (delete_range ps st) p = commLinkTable st p"
  by (induction ps arbitrary: st) (simp_all add: deleteCommLink_def)

lemma delete_range_faulty [simp]: "faultyCommLinks (delete_range ps st) = faultyCommLinks st"
  by (induction ps arbitrary: st) (simp_all add: deleteCommLink_def)

lemma repair_range_finite: "finite (faultyCommLinks st) \<Longrightarrow> finite (faultyCommLinks (repair_range dial ps st))"
proof (induction ps arbitrary: st)
  case (Cons q ps)
  show ?case
    by (cases rule: repairCommLinkFunc_cases [of dial q st]) (use Cons in simp_all)
qed simp

text \<open>The entry of a process after the timer, by what happened to it in the first loop.\<close>

lemma repairOnTimer_at:
  assumes "finite (faultyCommLinks st)" "repairTimer st = Some d"
    and "p \<notin> faultyCommLinks (repair_range dial (range_keys (faultyCommLinks st)) (st\<lparr>repairTimer := None\<rparr>))"
  shows "commLinkTable (repairOnTimer dial st) p =
    commLinkTable (repair_range dial (range_keys (faultyCommLinks st)) (st\<lparr>repairTimer := None\<rparr>)) p \<and>
    p \<notin> faultyCommLinks (repairOnTimer dial st)"
proof -
  define st1 where "st1 = repair_range dial (range_keys (faultyCommLinks st)) (st\<lparr>repairTimer := None\<rparr>)"
  have "finite (faultyCommLinks st1)" unfolding st1_def using assms(1) by (intro repair_range_finite) simp
  then have "p \<notin> set (range_keys (faultyCommLinks st1))" using assms(3) by (simp add: st1_def)
  then show ?thesis using assms(2,3)
    by (simp add: repairOnTimer_def Let_def st1_def [symmetric] delete_range_other)
qed

lemma repairOnTimer_repairs:
  assumes "finite (faultyCommLinks st)" "repairTimer st = Some d" "p \<in> faultyCommLinks st" "dial p = Inr c"
  shows "commLinkTable (repairOnTimer dial st) p = Some ((link_at p st)\<lparr>rpcClient := Some c\<rparr>)"
  using repairOnTimer_at [OF assms(1,2), of p dial] assms(1,3)
    repair_range_at [of p "range_keys (faultyCommLinks st)" dial c "st\<lparr>repairTimer := None\<rparr>", OF _ _ assms(4)]
  by (simp add: link_at_def)

section \<open>Links that never expired\<close>

text \<open>No step of the run deletes the entry of the process.\<close>

fun never_deleted :: "Process \<Rightarrow> 'c comm_event list \<Rightarrow> 'c Comm \<Rightarrow> bool" where
  "never_deleted p [] st \<longleftrightarrow> True"
| "never_deleted p (ev # evs) st \<longleftrightarrow>
     (commLinkTable st p \<noteq> None \<longrightarrow> commLinkTable (comm_step ev st) p \<noteq> None) \<and>
     never_deleted p evs (comm_step ev st)"

text \<open>The entry carries its process, and without an entry nothing refers to the process.\<close>

definition named :: "Process \<Rightarrow> 'c Comm \<Rightarrow> bool" where
  "named p st \<longleftrightarrow> p = Process '''' \<or>
     (case commLinkTable st p of Some l \<Rightarrow> link_process l = p
      | None \<Rightarrow> \<not> awaits_repair st p \<and> p \<notin> link_process ` set (inCall st))"

lemma named_init: "named p initComm"
  by (simp add: named_def initComm_def awaits_repair_def)

lemma named_frame [simp]:
  "named p (st\<lparr>repairTimer := t\<rparr>) = named p st" "named p (st\<lparr>commLinkRepairPeriod := d\<rparr>) = named p st"
  by (simp_all add: named_def awaits_repair_def split: option.split)

lemma named_entry:
  assumes "named p st" "p \<noteq> Process ''''" "awaits_repair st p \<or> p \<in> link_process ` set (inCall st)"
  shows "commLinkTable st p \<noteq> None \<and> link_process (link_at p st) = p"
  using assms by (auto simp: named_def link_at_def split: option.splits)

lemma named_getCommLink:
  assumes "named p st" "p \<noteq> Process ''''" "links_ok st"
  shows "named p (snd (getCommLink dial q st))"
    and "link_process (fst (getCommLink dial q st)) = p \<Longrightarrow> q = p"
    and "commLinkTable (snd (getCommLink dial q st)) q \<noteq> None"
proof -
  show "commLinkTable (snd (getCommLink dial q st)) q \<noteq> None"
    by (simp add: getCommLink_def Let_def split: option.split sum.split)
  show "q = p" if "link_process (fst (getCommLink dial q st)) = p"
    using that assms(2) links_okD(1) [OF assms(3), of q]
    by (auto simp: getCommLink_def Let_def split: option.splits sum.splits)
  show "named p (snd (getCommLink dial q st))"
    using assms(1) by (auto simp: getCommLink_def Let_def named_def awaits_repair_def split: option.splits sum.splits)
qed

lemma named_inCall:
  assumes "named p st" "set cs \<subseteq> insert k (set (inCall st))" "link_process k = p \<Longrightarrow> commLinkTable st p \<noteq> None"
  shows "named p (st\<lparr>inCall := cs\<rparr>)"
  using assms by (auto simp: named_def awaits_repair_def split: option.splits)

lemma named_setFaulty:
  assumes "named p st" "p \<noteq> Process ''''" "links_ok st" "q = p \<Longrightarrow> commLinkTable st p \<noteq> None"
  shows "named p (setCommLinkFaulty q st)"
proof (cases "q = p")
  case True
  then show ?thesis using assms by (auto simp: setCommLinkFaulty_def Let_def named_def link_at_def)
next
  case False
  then have "link_process (link_at q st) \<noteq> p" using link_at_process [OF assms(3), of q] assms(2) by auto
  with False assms(1) show ?thesis
    by (auto simp: setCommLinkFaulty_def Let_def named_def awaits_repair_def split: option.splits)
qed

lemma named_repairFunc:
  assumes "named p st" "p \<noteq> Process ''''" "q = p \<Longrightarrow> commLinkTable st p \<noteq> None"
  shows "named p (snd (repairCommLinkFunc dial q st))"
  using assms by (cases rule: repairCommLinkFunc_cases [of dial q st])
    (auto simp: named_def link_at_def awaits_repair_def split: option.splits)

lemma named_repairNewLink:
  assumes "named p st" "p \<noteq> Process ''''"
  shows "named p (repairNewLink dial st)"
proof (cases "repairLinkChan st")
  case (Cons k ks)
  let ?st = "st\<lparr>repairLinkChan := ks\<rparr>" and ?q = "link_process k"
  have some: "commLinkTable st p \<noteq> None" if "?q = p"
    using named_entry [OF assms] that Cons by (auto simp: awaits_repair_def)
  have "named p ?st" using assms(1) Cons by (auto simp: named_def awaits_repair_def split: option.splits)
  from named_repairFunc [OF this assms(2), of ?q dial] some
  have r: "named p (snd (repairCommLinkFunc dial ?q ?st))" by simp
  have "commLinkTable (snd (repairCommLinkFunc dial ?q ?st)) p \<noteq> None" if "?q = p"
    using some [OF that] by (cases rule: repairCommLinkFunc_cases [of dial ?q ?st]) auto
  with r show ?thesis using Cons
    by (auto simp: repairNewLink_def case_prod_beta named_def awaits_repair_def split: option.splits)
qed (use assms in \<open>simp add: repairNewLink_def\<close>)

lemma named_repair_range:
  assumes "named p st" "p \<noteq> Process ''''" "p \<in> set ps \<Longrightarrow> commLinkTable st p \<noteq> None"
  shows "named p (repair_range dial ps st)"
  using assms(1,3)
proof (induction ps arbitrary: st)
  case (Cons q ps)
  let ?st = "snd (repairCommLinkFunc dial q st)"
  have r: "named p ?st" using named_repairFunc [OF Cons.prems(1) assms(2)] Cons.prems(2) by auto
  have some: "commLinkTable ?st p \<noteq> None" if "p \<in> set ps"
    using Cons.prems(2) that by (cases rule: repairCommLinkFunc_cases [of dial q st]) auto
  have "named p (?st\<lparr>faultyCommLinks := faultyCommLinks ?st - {q}\<rparr>)"
    using r by (auto simp: named_def awaits_repair_def split: option.splits)
  with Cons.IH [OF r] Cons.IH [of "?st\<lparr>faultyCommLinks := faultyCommLinks ?st - {q}\<rparr>"] some show ?case
    by (auto simp: case_prod_beta)
qed simp

lemma delete_range_named:
  "named p st \<Longrightarrow> p \<notin> set ps \<Longrightarrow> named p (delete_range ps st)"
proof (induction ps arbitrary: st)
  case (Cons q ps)
  then have "named p (deleteCommLink q st)"
    by (auto simp: named_def deleteCommLink_def awaits_repair_def split: option.splits)
  with Cons show ?case by simp
qed simp

lemma delete_range_at: "p \<in> set ps \<Longrightarrow> commLinkTable (delete_range ps st) p = None"
proof (induction ps arbitrary: st)
  case (Cons q ps)
  then show ?case
    by (cases "p \<in> set ps") (auto simp: delete_range_other deleteCommLink_def)
qed simp

lemma repair_range_subset: "faultyCommLinks (repair_range dial ps st) \<subseteq> faultyCommLinks st"
proof (induction ps arbitrary: st)
  case (Cons q ps)
  show ?case
    by (cases rule: repairCommLinkFunc_cases [of dial q st])
      (use Cons [of st] Cons [of "(snd (repairCommLinkFunc dial q st))\<lparr>faultyCommLinks := faultyCommLinks st - {q}\<rparr>"] in auto)
qed simp

lemma named_repairOnTimer:
  assumes "named p st" "p \<noteq> Process ''''" "links_ok st" "commLinkTable st p \<noteq> None \<longrightarrow> commLinkTable (repairOnTimer dial st) p \<noteq> None"
  shows "named p (repairOnTimer dial st)"
proof (cases "repairTimer st")
  case (Some d)
  define st1 where "st1 = repair_range dial (range_keys (faultyCommLinks st)) (st\<lparr>repairTimer := None\<rparr>)"
  have fin: "finite (faultyCommLinks st)" using assms(3) by (simp add: links_ok_def)
  then have fin1: "finite (faultyCommLinks st1)" unfolding st1_def by (intro repair_range_finite) simp
  have n0: "named p (st\<lparr>repairTimer := None\<rparr>)" using assms(1) by simp
  have n1: "named p st1" unfolding st1_def
    by (rule named_repair_range [OF n0 assms(2)]) (use named_entry [OF assms(1,2)] fin in \<open>simp add: awaits_repair_def\<close>)
  define st2 where "st2 = st1\<lparr>commLinkRepairPeriod := go_int (2 * commLinkRepairPeriod st1)\<rparr>"
  define st3 where "st3 = (if commLinkRepairPeriod st2 > maxCommLinkRepairPeriod
    then delete_range (range_keys (faultyCommLinks st2)) st2 else st2)"
  have result: "\<exists>t. repairOnTimer dial st = st3\<lparr>repairTimer := t\<rparr>"
    using Some by (auto simp: repairOnTimer_def Let_def st1_def st2_def st3_def)
  have n2: "named p st2" using n1 by (simp add: st2_def)
  have "named p st3"
  proof (cases "commLinkRepairPeriod st2 > maxCommLinkRepairPeriod \<and> p \<in> faultyCommLinks st2")
    case True
    then have "p \<in> faultyCommLinks st"
      using repair_range_subset [of dial "range_keys (faultyCommLinks st)" "st\<lparr>repairTimer := None\<rparr>"]
      by (auto simp: st2_def st1_def)
    then have "commLinkTable st p \<noteq> None" using named_entry [OF assms(1,2)] by (simp add: awaits_repair_def)
    moreover have "commLinkTable st3 p = None" using True fin1 by (simp add: st3_def delete_range_at st2_def)
    ultimately show ?thesis using assms(4) result by auto
  next
    case False
    then show ?thesis using n2 fin1 delete_range_named [OF n2] by (auto simp: st3_def st2_def)
  qed
  then show ?thesis using result by auto
qed (use assms in \<open>simp add: repairOnTimer_def\<close>)

lemma named_step:
  assumes "named p st" "links_wf st" "commLinkTable st p \<noteq> None \<longrightarrow> commLinkTable (comm_step ev st) p \<noteq> None"
  shows "named p (comm_step ev st)"
proof (cases "p = Process ''''")
  case False
  have ok: "links_ok st" "finite (faultyCommLinks st)" using assms(2) by (auto simp: links_wf_def links_ok_def)
  show ?thesis
  proof (cases ev)
    case (BeginCall dial q)
    let ?g = "getCommLink dial q st"
    note g = named_getCommLink [OF assms(1) False ok(1), of dial q]
    have "named p ((snd ?g)\<lparr>inCall := fst ?g # inCall (snd ?g)\<rparr>)"
      using g by (intro named_inCall [of _ _ _ "fst ?g"]) auto
    then show ?thesis using BeginCall g(1) by (simp add: beginCall_def case_prod_beta)
  next
    case (EndCall m k err)
    show ?thesis
    proof (cases "k \<in> set (inCall st)")
      case True
      let ?st = "st\<lparr>inCall := remove1 k (inCall st)\<rparr>"
      have "named p ?st" using assms(1) set_remove1_subset [of k "inCall st"] named_entry [OF assms(1) False] True
        by (intro named_inCall [of _ _ _ k]) auto
      moreover have "commLinkTable ?st p \<noteq> None" if "link_process k = p"
        using named_entry [OF assms(1) False] True that by auto
      ultimately have "named p (setCommLinkFaulty (link_process k) ?st)"
        using False ok(1) by (intro named_setFaulty) simp_all
      then show ?thesis
        using EndCall True \<open>named p ?st\<close> by (simp add: endCall_def Let_def split: option.splits)
    qed (use EndCall assms(1) in simp)
  next
    case (RepairOnTimer dial)
    with named_repairOnTimer [OF assms(1) False ok(1), of dial] assms(3) show ?thesis by simp
  qed (use named_repairNewLink [OF assms(1) False] in simp)
qed (simp add: named_def)

lemma named_run: "never_deleted p evs st \<Longrightarrow> links_wf st \<Longrightarrow> named p st \<Longrightarrow> named p (comm_run evs st)"
  by (induction evs arbitrary: st) (simp_all add: named_step links_wf_step)

section \<open>Lost links\<close>

definition lost :: "'c Comm \<Rightarrow> Process \<Rightarrow> 'c communicationLink \<Rightarrow> bool" where
  "lost st p l \<longleftrightarrow> commLinkTable st p = Some l \<and> link_process l \<noteq> p \<and> p \<noteq> Process '''' \<and>
     \<not> awaits_repair st p \<and> p \<notin> link_process ` set (inCall st)"

lemma lost_link_at: "links_ok st \<Longrightarrow> q \<noteq> p \<Longrightarrow> p \<noteq> Process '''' \<Longrightarrow> link_process (link_at q st) \<noteq> p"
  using link_at_process [of st q] by auto

lemma lost_getCommLink:
  assumes "lost st p l" "links_ok st"
  shows "lost (snd (getCommLink dial q st)) p l" "link_process (fst (getCommLink dial q st)) \<noteq> p"
proof -
  have "lost (snd (getCommLink dial q st)) p l \<and> link_process (fst (getCommLink dial q st)) \<noteq> p"
  proof (cases "commLinkTable st q")
    case None
    then have "q \<noteq> p" using assms(1) by (auto simp: lost_def)
    then show ?thesis using None assms(1)
      by (cases "dial q") (auto simp: getCommLink_def Let_def lost_def awaits_repair_def)
  next
    case (Some k)
    then have "link_process k \<noteq> p" using assms links_okD(1) [OF assms(2) Some] by (auto simp: lost_def)
    then show ?thesis using Some assms(1) by (simp add: getCommLink_def)
  qed
  then show "lost (snd (getCommLink dial q st)) p l" "link_process (fst (getCommLink dial q st)) \<noteq> p" by simp_all
qed

lemma lost_setFaulty:
  assumes "lost st p l" "links_ok st" "q \<noteq> p"
  shows "lost (setCommLinkFaulty q st) p l"
  using assms lost_link_at [OF assms(2,3)]
  by (auto simp: lost_def setCommLinkFaulty_def Let_def awaits_repair_def)

lemma lost_repairNewLink:
  assumes "lost st p l"
  shows "lost (repairNewLink dial st) p l"
proof (cases "repairLinkChan st")
  case (Cons k ks)
  then have k: "link_process k \<noteq> p" using assms by (auto simp: lost_def awaits_repair_def)
  show ?thesis
    by (cases rule: repairCommLinkFunc_cases [of dial "link_process k" "st\<lparr>repairLinkChan := ks\<rparr>"])
      (use assms k Cons in \<open>auto simp: repairNewLink_def lost_def awaits_repair_def\<close>)
qed (use assms in \<open>simp add: repairNewLink_def\<close>)

lemma repair_range_frame [simp]:
  "repairLinkChan (repair_range dial ps st) = repairLinkChan st" "inCall (repair_range dial ps st) = inCall st"
  "repairLinkChan (delete_range ps st) = repairLinkChan st" "inCall (delete_range ps st) = inCall st"
proof -
  show "repairLinkChan (repair_range dial ps st) = repairLinkChan st" "inCall (repair_range dial ps st) = inCall st"
    by (induction ps arbitrary: st) (simp_all add: case_prod_beta repairCommLinkFunc_def split: sum.splits)
  show "repairLinkChan (delete_range ps st) = repairLinkChan st" "inCall (delete_range ps st) = inCall st"
    by (induction ps arbitrary: st) (simp_all add: deleteCommLink_def)
qed

lemma lost_repairOnTimer:
  assumes "lost st p l" "finite (faultyCommLinks st)"
  shows "lost (repairOnTimer dial st) p l"
proof (cases "repairTimer st")
  case (Some d)
  have p: "p \<notin> set (range_keys (faultyCommLinks st))" using assms by (simp add: lost_def awaits_repair_def)
  have "p \<notin> faultyCommLinks st" using assms(1) by (simp add: lost_def awaits_repair_def)
  then have "commLinkTable (repairOnTimer dial st) p = Some l \<and> p \<notin> faultyCommLinks (repairOnTimer dial st)"
    using repairOnTimer_at [OF assms(2) Some, of p dial] repair_range_other [OF p, of dial "st\<lparr>repairTimer := None\<rparr>"]
      assms(1) by (simp add: lost_def)
  moreover have "repairLinkChan (repairOnTimer dial st) = repairLinkChan st" "inCall (repairOnTimer dial st) = inCall st"
    using Some by (simp_all add: repairOnTimer_def Let_def)
  ultimately show ?thesis using assms(1) by (simp add: lost_def awaits_repair_def)
qed (use assms in \<open>simp add: repairOnTimer_def\<close>)

lemma lost_inCall: "lost st p l \<Longrightarrow> set cs \<subseteq> insert k (set (inCall st)) \<Longrightarrow> link_process k \<noteq> p \<Longrightarrow>
    lost (st\<lparr>inCall := cs\<rparr>) p l"
  by (auto simp: lost_def awaits_repair_def)

lemma lost_step:
  assumes "lost st p l" "links_wf st"
  shows "lost (comm_step ev st) p l"
proof -
  have ok: "links_ok st" "finite (faultyCommLinks st)" using assms(2) by (auto simp: links_wf_def links_ok_def)
  show ?thesis
  proof (cases ev)
    case (BeginCall dial q)
    let ?g = "getCommLink dial q st"
    have "lost ((snd ?g)\<lparr>inCall := fst ?g # inCall (snd ?g)\<rparr>) p l"
      using lost_getCommLink [OF assms(1) ok(1)] by (intro lost_inCall [of _ _ _ _ "fst ?g"]) auto
    then show ?thesis
      using BeginCall lost_getCommLink(1) [OF assms(1) ok(1)] by (simp add: beginCall_def case_prod_beta)
  next
    case (EndCall m k err)
    show ?thesis
    proof (cases "k \<in> set (inCall st)")
      case True
      then have k: "link_process k \<noteq> p" using assms(1) by (auto simp: lost_def)
      let ?st = "st\<lparr>inCall := remove1 k (inCall st)\<rparr>"
      have "lost ?st p l"
        using k assms(1) set_remove1_subset [of k "inCall st"] by (intro lost_inCall [of _ _ _ _ k]) auto
      then show ?thesis
        using EndCall True lost_setFaulty [of ?st p l "link_process k"] ok(1) k
        by (simp add: endCall_def Let_def split: option.splits)
    qed (use EndCall assms(1) in simp)
  qed (use lost_repairNewLink [OF assms(1)] lost_repairOnTimer [OF assms(1) ok(2)] in simp_all)
qed

lemma lost_run: "lost st p l \<Longrightarrow> links_wf st \<Longrightarrow> lost (comm_run evs st) p l"
  by (induction evs arbitrary: st) (simp_all add: lost_step links_wf_step)

section \<open>Properties\<close>

lemma broadcast_loop_tally:
  "broadcast_loop v f s es = BroadcastWaiting \<longleftrightarrow>
     tally (QuorumSize v) (NumberOfToleratedFaults v) s f (map (\<lambda>e. e = None) es) = None"
  "broadcast_loop v f s es = BroadcastNil \<longleftrightarrow>
     tally (QuorumSize v) (NumberOfToleratedFaults v) s f (map (\<lambda>e. e = None) es) = Some True"
  by (induction es arbitrary: f s) (simp_all split: option.splits)

lemma broadcast_loop_err: "broadcast_loop v f s es = BroadcastErr e \<Longrightarrow> Some e \<in> set es"
  by (induction es arbitrary: f s) (auto split: option.splits if_splits)

text \<open>C26: A broadcast to a view with members ends once every member's request ended: it succeeds
  exactly when a quorum of the requests succeeds before more fail than the view tolerates,
  and otherwise returns one of the errors. A broadcast to an empty view never ends: nobody
  is sent anything and it waits for a first answer.\<close>

theorem broadcast_returns:
  assumes "length errors = length (fst (BroadcastRPCRequest v errors))" "wf_view v"
  shows "if Members v = {} then snd (BroadcastRPCRequest v errors) = BroadcastWaiting
    else (snd (BroadcastRPCRequest v errors) = BroadcastNil \<longleftrightarrow> (\<exists>taken rest. errors = taken @ rest \<and>
        length (filter (\<lambda>e. e = None) taken) = QuorumSize v \<and>
        int (length taken - length (filter (\<lambda>e. e = None) taken)) \<le> NumberOfToleratedFaults v)) \<and>
      (snd (BroadcastRPCRequest v errors) \<noteq> BroadcastNil \<longrightarrow>
        (\<exists>e. snd (BroadcastRPCRequest v errors) = BroadcastErr e \<and> Some e \<in> set errors))"
proof (cases "Members v = {}")
  case True
  then have "errors = []" using assms by (simp add: BroadcastRPCRequest_def GetMembers_def)
  then show ?thesis using True by (simp add: BroadcastRPCRequest_def)
next
  case False
  have len: "length errors = NumberOfMembers v"
    using assms by (simp add: BroadcastRPCRequest_def GetMembers_def NumberOfMembers_def)
  have m: "NumberOfMembers v \<noteq> 0" using False assms(2) by (simp add: NumberOfMembers_def)
  let ?out = "broadcast_loop v 0 0 errors"
  have "?out = BroadcastNil \<longleftrightarrow> (\<exists>taken rest. errors = taken @ rest \<and>
        length (filter (\<lambda>e. e = None) taken) = QuorumSize v \<and>
        int (length taken - length (filter (\<lambda>e. e = None) taken)) \<le> NumberOfToleratedFaults v)"
    unfolding broadcast_loop_tally(2) by (rule view_tally_map_True_iff [OF m])
  moreover have "?out \<noteq> BroadcastWaiting"
    unfolding broadcast_loop_tally(1) by (rule view_tally_returns [OF m]) (simp add: len)
  then have "?out \<noteq> BroadcastNil \<longrightarrow> (\<exists>e. ?out = BroadcastErr e \<and> Some e \<in> set errors)"
    using broadcast_loop_err [of v 0 0 errors] by (cases ?out) auto
  ultimately show ?thesis using False by (simp only: BroadcastRPCRequest_def snd_conv if_False)
qed

theorem broadcast_returns_witness:
  "let v = NewWithProcesses [Process ''a'', Process ''b''] in
   snd (BroadcastRPCRequest v [Some (Unreachable (Process ''b'')), None]) = BroadcastErr (Unreachable (Process ''b'')) \<and>
   snd (BroadcastRPCRequest (NewWithProcesses []) []) = BroadcastWaiting"
proof -
  have "snd (BroadcastRPCRequest (NewWithProcesses []) []) = BroadcastWaiting"
    using broadcast_returns [of "[]" "NewWithProcesses []"] by (simp add: BroadcastRPCRequest_def GetMembers_def)
  moreover have "NumberOfToleratedFaults (NewWithProcesses [Process ''a'', Process ''b'']) = 0"
    by (simp add: ToleratedFaults_eq NumberOfMembers_def)
  ultimately show ?thesis by (simp add: BroadcastRPCRequest_def Let_def)
qed

text \<open>C27: No faulty link is forgotten before it expires: in every run of the communication module a
  faulty link whose entry the repair loop never deleted, or that still carries its process,
  waits in the channel or in the set of the repair loop, whose timer runs; and the loop's
  next attempt on it, by either way, makes the link usable again if the process can be
  reached. A link that is repaired only after its entry was deleted can be forgotten.\<close>

theorem faulty_links_are_repaired:
  assumes "st = comm_run evs initComm" "commLinkTable st p = Some l" "isFaulty l"
    and "link_process l = p \<or> never_deleted p evs initComm" "dial p = Inr c"
  shows "(p \<in> faultyCommLinks st \<or> p \<in> link_process ` set (repairLinkChan st)) \<and>
    (p \<in> faultyCommLinks st \<longrightarrow> repairTimer st \<noteq> None \<and>
       commLinkTable (repairOnTimer dial st) p = Some (l\<lparr>rpcClient := Some c\<rparr>)) \<and>
    (repairLinkChan st = k # ks \<and> link_process k = p \<longrightarrow>
       commLinkTable (repairNewLink dial st) p = Some (l\<lparr>rpcClient := Some c\<rparr>))"
proof -
  have wf: "links_wf st" unfolding assms(1) by (intro links_wf_run links_wf_init)
  then have ok: "links_ok st" "finite (faultyCommLinks st)" by (simp_all add: links_wf_def links_ok_def)
  have at: "link_at p st = l" using assms(2) by (simp add: link_at_def)
  have "named p st" if "never_deleted p evs initComm"
    unfolding assms(1) by (rule named_run [OF that links_wf_init named_init])
  then have "link_process l = p"
    using assms(2,4) links_okD(1) [OF ok(1) assms(2)] by (auto simp: named_def)
  then have "awaits_repair st p" using links_okD(2) [OF ok(1) assms(2)] assms(3) by (simp add: isFaulty_def)
  moreover have "repairTimer st \<noteq> None \<and> commLinkTable (repairOnTimer dial st) p = Some (l\<lparr>rpcClient := Some c\<rparr>)"
    if f: "p \<in> faultyCommLinks st"
  proof -
    obtain d where "repairTimer st = Some d" using wf f by (auto simp: links_wf_def)
    then show ?thesis using repairOnTimer_repairs [of st d p dial c] ok(2) f assms(5) at by simp
  qed
  moreover have "commLinkTable (repairNewLink dial st) p = Some (l\<lparr>rpcClient := Some c\<rparr>)"
    if "repairLinkChan st = k # ks \<and> link_process k = p"
    using that assms(2,5) by (simp add: repairNewLink_def repairCommLinkFunc_def link_at_def)
  ultimately show ?thesis by (simp add: awaits_repair_def)
qed

definition down :: "Process \<Rightarrow> string + nat" where "down p = Inl ''refused''"

definition up :: "nat \<Rightarrow> Process \<Rightarrow> string + nat" where "up c p = Inr c"

abbreviation proc_a :: Process where "proc_a \<equiv> Process ''a''"

lemmas comm_eval = beginCall_def getCommLink_def endCall_def setCommLinkFaulty_def repairNewLink_def
  repairOnTimer_def repairCommLinkFunc_def deleteCommLink_def link_at_def zero_link_def initComm_def
  isFaulty_def down_def up_def Let_def range_keys_def go_int_def
  initialCommLinkRepairPeriod_def maxCommLinkRepairPeriod_def

theorem faulty_links_are_repaired_witness:
  "commLinkTable (repairOnTimer (up 7) (comm_run [BeginCall down proc_a, RepairNewLink down] initComm)) proc_a =
     Some \<lparr>link_process = proc_a, rpcClient = Some 7\<rparr>"
proof -
  let ?st = "comm_run [BeginCall down proc_a, RepairNewLink down] initComm"
  have t: "commLinkTable ?st proc_a = Some \<lparr>link_process = proc_a, rpcClient = None\<rparr>" "proc_a \<in> faultyCommLinks ?st"
    by (simp_all add: comm_eval)
  show ?thesis
    using faulty_links_are_repaired [OF refl t(1), of "up 7" 7] t(2)
    by (simp add: isFaulty_def up_def)
qed

text \<open>C40: A link that was repaired after it expired is lost with the next failure. Such a link no longer
  carries its process, so a failed call marks another entry faulty; as long as no older call
  to the process is under way its dead connection stays in the table for ever, whatever the
  processes do and however often the peer could be reached, and every request to it fails.\<close>

theorem expired_link_is_lost:
  assumes "st = comm_run evs initComm" "commLinkTable st p = Some l" "rpcClient l = Some c" "call c = Some e"
    and "link_process l \<noteq> p" "p \<noteq> Process ''''" "p \<notin> link_process ` set (inCall st)"
    and "p \<notin> faultyCommLinks st" "p \<notin> link_process ` set (repairLinkChan st)"
  shows "commLinkTable (comm_run evs1 st) p = Some l \<and>
    fst (SendRPCRequest dial call m p (comm_run evs1 st)) = Some (CallFailed m (link_process l) e)"
proof -
  have wf: "links_wf st" unfolding assms(1) by (intro links_wf_run links_wf_init)
  have "lost st p l" using assms(2,5-9) by (simp add: lost_def awaits_repair_def)
  from lost_run [OF this wf] have "commLinkTable (comm_run evs1 st) p = Some l" by (simp add: lost_def)
  then show ?thesis
    using assms(3,4) by (simp add: SendRPCRequest_def beginCall_def getCommLink_def endCall_def isFaulty_def Let_def)
qed

text \<open>
  The link to \<open>a\<close> breaks, cannot be repaired until its period exceeds the maximum and it is
  deleted, and is then repaired after all with connection 7, which breaks too.
\<close>

definition expiry :: "nat comm_event list" where
  "expiry = [BeginCall down proc_a, RepairNewLink down, RepairOnTimer down, RepairOnTimer down, RepairOnTimer (up 7)]"

theorem expired_link_is_lost_witness:
  "commLinkTable (comm_run expiry initComm) proc_a = Some \<lparr>link_process = Process '''', rpcClient = Some 7\<rparr> \<and>
   fst (SendRPCRequest (up 8) (\<lambda>c. if c = 7 then Some ''shut down'' else None) ''Read'' proc_a
     (comm_run [RepairOnTimer (up 8)] (comm_run expiry initComm))) =
     Some (CallFailed ''Read'' (Process '''') ''shut down'')"
proof -
  let ?st = "comm_run expiry initComm"
  have t: "commLinkTable ?st proc_a = Some \<lparr>link_process = Process '''', rpcClient = Some 7\<rparr>"
    and f: "faultyCommLinks ?st = {}" "repairLinkChan ?st = []" "inCall ?st = []"
    by (simp_all add: expiry_def comm_eval)
  show ?thesis
    using expired_link_is_lost [OF refl t, of 7 "\<lambda>c. if c = 7 then Some ''shut down'' else None" "''shut down''"
        "[RepairOnTimer (up 8)]" "up 8" "''Read''"] t f by simp
qed

end
