(* ===== verification/Comm_Locks.thy ===== *)
theory Comm_Locks
  imports Comm
begin

text \<open>
  The goroutines of \<^verbatim>\<open>pkg/comm\<close> at the grain of their blocking operations: taking
  \<^verbatim>\<open>commLinkTableMu\<close>, sending to \<^verbatim>\<open>repairLinkChan\<close>, whose capacity is 20, and waiting for
  \<^verbatim>\<open>rpc.Dial\<close> and \<^verbatim>\<open>Call\<close>. The effects are those of the operations of \<open>Comm\<close>, at the step
  after which the lock is free again. The theorem shows that a sender that holds the lock
  and the repair loop can wait for each other for ever.
\<close>

section \<open>Goroutines\<close>

definition repairLinkChan_cap :: nat where "repairLinkChan_cap = 20"

text \<open>Where a goroutine that runs \<^verbatim>\<open>SendRPCRequest\<close> stands.\<close>

datatype 'c sender_pc =
    Idle
  | WaitsTable Process
  | SendsNew Process
  | InCall "'c communicationLink"
  | WaitsFaulty "'c communicationLink" string
  | SendsFaulty "'c communicationLink" string
  | Returned "send_error option"

text \<open>Where \<^verbatim>\<open>repairCommLinkLoop\<close> stands: in its select, or in one of its two cases.\<close>

datatype 'c loop_pc =
    Selecting
  | Dials Process
  | WaitsRepair Process 'c
  | Ranges "Process list"
  | RangeWaits Process 'c "Process list"
  | Deletes "Process list"

record 'c CommLocks =
  links :: "'c Comm"
  tableMu :: "nat option"
  pc :: "nat \<Rightarrow> 'c sender_pc"
  loop_at :: "'c loop_pc"

definition initLocks :: "'c CommLocks" where
  "initLocks = \<lparr>links = initComm, tableMu = None, pc = (\<lambda>_. Idle), loop_at = Selecting\<rparr>"

text \<open>The part of \<open>repairCommLinkFunc\<close> under the lock, and the end of a pass of the timer case.\<close>

definition put_client :: "Process \<Rightarrow> 'c \<Rightarrow> 'c Comm \<Rightarrow> 'c Comm" where
  "put_client p c st = snd (repairCommLinkFunc (\<lambda>_. Inr c) p st)"

definition note_faulty :: "Process \<Rightarrow> 'c Comm \<Rightarrow> 'c Comm" where
  "note_faulty p st = st\<lparr>faultyCommLinks := insert p (faultyCommLinks st),
     commLinkRepairPeriod := initialCommLinkRepairPeriod, repairTimer := Some initialCommLinkRepairPeriod\<rparr>"

definition back_off :: "'c Comm \<Rightarrow> 'c Comm" where
  "back_off st = st\<lparr>commLinkRepairPeriod := go_int (2 * commLinkRepairPeriod st)\<rparr>"

definition reset_timer :: "'c Comm \<Rightarrow> 'c Comm" where
  "reset_timer st = st\<lparr>repairTimer := (if faultyCommLinks st = {} then None else Some (commLinkRepairPeriod st))\<rparr>"

abbreviation room :: "'c Comm \<Rightarrow> bool" where
  "room st \<equiv> length (repairLinkChan st) < repairLinkChan_cap"

inductive lock_step :: "'c CommLocks \<Rightarrow> 'c CommLocks \<Rightarrow> bool" where
  Begin: "pc st t = Idle \<or> pc st t = Returned r \<Longrightarrow> lock_step st (st\<lparr>pc := (pc st)(t := WaitsTable p)\<rparr>)"
| Hit: "pc st t = WaitsTable p \<Longrightarrow> tableMu st = None \<Longrightarrow> commLinkTable (links st) p = Some l \<Longrightarrow>
    lock_step st (st\<lparr>pc := (pc st)(t := if isFaulty l then Returned (Some (Unreachable p)) else InCall l)\<rparr>)"
| DialOk: "pc st t = WaitsTable p \<Longrightarrow> tableMu st = None \<Longrightarrow> commLinkTable (links st) p = None \<Longrightarrow>
    getCommLink (\<lambda>_. Inr c) p (links st) = (l, ls) \<Longrightarrow>
    lock_step st (st\<lparr>links := ls, pc := (pc st)(t := InCall l)\<rparr>)"
| DialErr: "pc st t = WaitsTable p \<Longrightarrow> tableMu st = None \<Longrightarrow> commLinkTable (links st) p = None \<Longrightarrow>
    lock_step st (st\<lparr>tableMu := Some t, pc := (pc st)(t := SendsNew p)\<rparr>)"
| PutNew: "pc st t = SendsNew p \<Longrightarrow> room (links st) \<Longrightarrow>
    lock_step st (st\<lparr>links := snd (getCommLink (\<lambda>_. Inl err) p (links st)), tableMu := None,
      pc := (pc st)(t := Returned (Some (Unreachable p)))\<rparr>)"
| CallOk: "pc st t = InCall l \<Longrightarrow> lock_step st (st\<lparr>pc := (pc st)(t := Returned None)\<rparr>)"
| CallErr: "pc st t = InCall l \<Longrightarrow> lock_step st (st\<lparr>pc := (pc st)(t := WaitsFaulty l err)\<rparr>)"
| SetFaulty: "pc st t = WaitsFaulty l err \<Longrightarrow> tableMu st = None \<Longrightarrow>
    lock_step st (st\<lparr>tableMu := Some t, pc := (pc st)(t := SendsFaulty l err)\<rparr>)"
| PutFaulty: "pc st t = SendsFaulty l err \<Longrightarrow> room (links st) \<Longrightarrow>
    lock_step st (st\<lparr>links := setCommLinkFaulty (link_process l) (links st), tableMu := None,
      pc := (pc st)(t := Returned (Some (CallFailed serviceMethod (link_process l) err)))\<rparr>)"
| Receive: "loop_at st = Selecting \<Longrightarrow> repairLinkChan (links st) = l # ls \<Longrightarrow>
    lock_step st (st\<lparr>links := (links st)\<lparr>repairLinkChan := ls\<rparr>, loop_at := Dials (link_process l)\<rparr>)"
| RepairErr: "loop_at st = Dials p \<Longrightarrow> lock_step st (st\<lparr>links := note_faulty p (links st), loop_at := Selecting\<rparr>)"
| RepairDialed: "loop_at st = Dials p \<Longrightarrow> lock_step st (st\<lparr>loop_at := WaitsRepair p c\<rparr>)"
| Repaired: "loop_at st = WaitsRepair p c \<Longrightarrow> tableMu st = None \<Longrightarrow>
    lock_step st (st\<lparr>links := put_client p c (links st), loop_at := Selecting\<rparr>)"
| Timer: "loop_at st = Selecting \<Longrightarrow> repairTimer (links st) = Some d \<Longrightarrow>
    lock_step st (st\<lparr>links := (links st)\<lparr>repairTimer := None\<rparr>,
      loop_at := Ranges (range_keys (faultyCommLinks (links st)))\<rparr>)"
| RangeErr: "loop_at st = Ranges (p # ps) \<Longrightarrow> lock_step st (st\<lparr>loop_at := Ranges ps\<rparr>)"
| RangeDialed: "loop_at st = Ranges (p # ps) \<Longrightarrow> lock_step st (st\<lparr>loop_at := RangeWaits p c ps\<rparr>)"
| RangeRepaired: "loop_at st = RangeWaits p c ps \<Longrightarrow> tableMu st = None \<Longrightarrow>
    put_client p c (links st) = ls \<Longrightarrow>
    lock_step st (st\<lparr>links := ls\<lparr>faultyCommLinks := faultyCommLinks ls - {p}\<rparr>, loop_at := Ranges ps\<rparr>)"
| RangeEnd: "loop_at st = Ranges [] \<Longrightarrow> back_off (links st) = ls \<Longrightarrow>
    lock_step st (st\<lparr>links := ls, loop_at := Deletes (if commLinkRepairPeriod ls > maxCommLinkRepairPeriod
      then range_keys (faultyCommLinks ls) else [])\<rparr>)"
| Delete: "loop_at st = Deletes (p # ps) \<Longrightarrow> tableMu st = None \<Longrightarrow>
    lock_step st (st\<lparr>links := deleteCommLink p (links st), loop_at := Deletes ps\<rparr>)"
| DeleteEnd: "loop_at st = Deletes [] \<Longrightarrow>
    lock_step st (st\<lparr>links := reset_timer (links st), loop_at := Selecting\<rparr>)"

inductive_cases lock_stepE: "lock_step st st'"

abbreviation lock_steps :: "'c CommLocks \<Rightarrow> 'c CommLocks \<Rightarrow> bool" where
  "lock_steps \<equiv> lock_step\<^sup>*\<^sup>*"

section \<open>The deadlock\<close>

fun at_send :: "'c sender_pc \<Rightarrow> bool" where
  "at_send (SendsNew p) = True"
| "at_send (SendsFaulty l err) = True"
| "at_send _ = False"

fun loop_waits :: "'c loop_pc \<Rightarrow> bool" where
  "loop_waits (WaitsRepair p c) = True"
| "loop_waits (RangeWaits p c ps) = True"
| "loop_waits (Deletes (p # ps)) = True"
| "loop_waits _ = False"

text \<open>Only the goroutine that sends to the channel holds the lock.\<close>

definition lock_inv :: "'c CommLocks \<Rightarrow> bool" where
  "lock_inv st \<longleftrightarrow> (\<forall>t. at_send (pc st t) \<longleftrightarrow> tableMu st = Some t)"

lemma lock_step_inv: "lock_step st st' \<Longrightarrow> lock_inv st \<Longrightarrow> lock_inv st'"
  by (induction rule: lock_step.induct) (auto simp: lock_inv_def, (metis at_send.simps)+)

lemma lock_steps_inv: "lock_steps st st' \<Longrightarrow> lock_inv st \<Longrightarrow> lock_inv st'"
  by (induction rule: rtranclp_induct) (auto intro: lock_step_inv)

definition wedged :: "'c CommLocks \<Rightarrow> bool" where
  "wedged st \<longleftrightarrow> lock_inv st \<and> tableMu st \<noteq> None \<and> \<not> room (links st) \<and> loop_waits (loop_at st)"

definition blocked :: "'c sender_pc \<Rightarrow> bool" where
  "blocked x \<longleftrightarrow> at_send x \<or> (\<exists>p. x = WaitsTable p) \<or> (\<exists>l err. x = WaitsFaulty l err)"

lemma wedged_step:
  assumes "lock_step st st'" "wedged st"
  shows "wedged st' \<and> links st' = links st \<and> loop_at st' = loop_at st \<and> tableMu st' = tableMu st \<and>
    (\<forall>t. blocked (pc st t) \<longrightarrow> pc st' t = pc st t)"
proof -
  have "lock_inv st'" using lock_step_inv [OF assms(1)] assms(2) by (simp add: wedged_def)
  moreover have "links st' = links st \<and> loop_at st' = loop_at st \<and> tableMu st' = tableMu st \<and>
      (\<forall>t. blocked (pc st t) \<longrightarrow> pc st' t = pc st t)"
    using assms by (induction rule: lock_step.induct) (auto simp: wedged_def blocked_def)
  ultimately show ?thesis using assms(2) by (simp add: wedged_def)
qed

lemma wedged_steps:
  "lock_steps st st' \<Longrightarrow> wedged st \<Longrightarrow>
   wedged st' \<and> links st' = links st \<and> loop_at st' = loop_at st \<and> tableMu st' = tableMu st \<and>
   (\<forall>t. blocked (pc st t) \<longrightarrow> pc st' t = pc st t)"
proof (induction rule: rtranclp_induct)
  case (step st1 st2)
  then have "wedged st1" by blast
  with step wedged_step [OF step(2)] show ?case by metis
qed simp

section \<open>Reaching it\<close>

text \<open>A request to a new process that cannot be reached leaves one more link in the channel.\<close>

lemma unreachable_request:
  assumes "pc st t = Idle \<or> (\<exists>r. pc st t = Returned r)" "tableMu st = None"
    and "commLinkTable (links st) p = None" "room (links st)"
  shows "lock_steps st (st\<lparr>links := snd (getCommLink (\<lambda>_. Inl '''') p (links st)), tableMu := None,
    pc := (pc st)(t := Returned (Some (Unreachable p)))\<rparr>)"
proof -
  let ?a = "st\<lparr>pc := (pc st)(t := WaitsTable p)\<rparr>"
  let ?b = "?a\<lparr>tableMu := Some t, pc := (pc ?a)(t := SendsNew p)\<rparr>"
  have "lock_step st ?a" using assms(1) by (auto intro: lock_step.Begin)
  moreover have "lock_step ?a ?b" by (rule lock_step.DialErr) (use assms in simp_all)
  moreover have "lock_step ?b (?b\<lparr>links := snd (getCommLink (\<lambda>_. Inl '''') p (links ?b)), tableMu := None,
      pc := (pc ?b)(t := Returned (Some (Unreachable p)))\<rparr>)"
    by (rule lock_step.PutNew) (use assms in simp_all)
  then have "lock_step ?b (st\<lparr>links := snd (getCommLink (\<lambda>_. Inl '''') p (links st)), tableMu := None,
      pc := (pc st)(t := Returned (Some (Unreachable p)))\<rparr>)" by simp
  ultimately show ?thesis by (meson converse_rtranclp_into_rtranclp r_into_rtranclp)
qed

definition host :: "nat \<Rightarrow> Process" where "host k = Process (replicate k (CHR ''h''))"

lemma host_inj [simp]: "host k = host m \<longleftrightarrow> k = m"
  by (auto simp: host_def dest: arg_cong [of _ _ length])

lemma fill_channel:
  assumes "n \<le> repairLinkChan_cap"
  shows "\<exists>st :: 'c CommLocks. lock_steps initLocks st \<and> (pc st 0 = Idle \<or> (\<exists>r. pc st 0 = Returned r)) \<and>
    tableMu st = None \<and> length (repairLinkChan (links st)) = n \<and> loop_at st = Dials (host 0) \<and>
    (\<forall>k > n. commLinkTable (links st) (host k) = None)"
  using assms
proof (induction n)
  case 0
  let ?a = "initLocks\<lparr>links := snd (getCommLink (\<lambda>_. Inl '''') (host 0) (links initLocks)), tableMu := None,
    pc := (pc initLocks)(0 := Returned (Some (Unreachable (host 0))))\<rparr> :: 'c CommLocks"
  let ?l = "zero_link\<lparr>link_process := host 0\<rparr> :: 'c communicationLink"
  let ?b = "?a\<lparr>links := (links ?a)\<lparr>repairLinkChan := []\<rparr>, loop_at := Dials (link_process ?l)\<rparr>"
  have chan: "repairLinkChan (links ?a) = [?l]"
    by (simp add: getCommLink_def initLocks_def initComm_def Let_def)
  have "lock_steps initLocks ?a"
    by (rule unreachable_request) (simp_all add: initLocks_def initComm_def repairLinkChan_cap_def)
  moreover have "lock_step ?a ?b"
    by (rule lock_step.Receive [OF _ chan]) (simp add: initLocks_def)
  ultimately have "lock_steps initLocks ?b" by (rule rtranclp.rtrancl_into_rtrancl)
  then show ?case
    by (intro exI [of _ ?b]) (simp add: getCommLink_def initLocks_def initComm_def Let_def)
next
  case (Suc n)
  then obtain st :: "'c CommLocks" where st: "lock_steps initLocks st" "pc st 0 = Idle \<or> (\<exists>r. pc st 0 = Returned r)"
    "tableMu st = None" "length (repairLinkChan (links st)) = n" "loop_at st = Dials (host 0)"
    "\<forall>k > n. commLinkTable (links st) (host k) = None" by auto
  let ?b = "st\<lparr>links := snd (getCommLink (\<lambda>_. Inl '''') (host (Suc n)) (links st)), tableMu := None,
    pc := (pc st)(0 := Returned (Some (Unreachable (host (Suc n)))))\<rparr>"
  have "lock_steps st ?b"
    by (rule unreachable_request) (use st Suc.prems in auto)
  with st(1) have "lock_steps initLocks ?b" by (rule rtranclp_trans)
  then show ?case
    using st by (intro exI [of _ ?b]) (auto simp: getCommLink_def Let_def)
qed

section \<open>Properties\<close>

text \<open>C39: The lock of the link table can deadlock the whole communication module. While the repair
  loop waits for a connection, the channel of faulty links fills up, and the next sender
  waits for room in it with the lock held; when the connection comes up, the loop waits for
  the lock before it takes the next link. In every later state the loop and this sender
  still wait, no link changes any more, and every request that needs the table waits for
  ever.\<close>

theorem link_table_deadlocks:
  "\<exists>st :: 'c CommLocks. lock_steps initLocks st \<and>
     (\<forall>st'. lock_steps st st' \<longrightarrow> links st' = links st \<and> loop_at st' = loop_at st \<and>
        tableMu st' = Some 0 \<and> pc st' 0 = SendsNew (host 21) \<and>
        (\<forall>t p. pc st' t = WaitsTable p \<longrightarrow> (\<forall>st''. lock_steps st' st'' \<longrightarrow> pc st'' t = WaitsTable p)))"
proof -
  obtain st :: "'c CommLocks" where st: "lock_steps initLocks st" "pc st 0 = Idle \<or> (\<exists>r. pc st 0 = Returned r)"
    "tableMu st = None" "length (repairLinkChan (links st)) = 20" "loop_at st = Dials (host 0)"
    "\<forall>k > 20. commLinkTable (links st) (host k) = None"
    using fill_channel [of 20] by (auto simp: repairLinkChan_cap_def)
  let ?a = "st\<lparr>pc := (pc st)(0 := WaitsTable (host 21))\<rparr>"
  let ?b = "?a\<lparr>tableMu := Some 0, pc := (pc ?a)(0 := SendsNew (host 21))\<rparr>"
  let ?c = "?b\<lparr>loop_at := WaitsRepair (host 0) (undefined :: 'c)\<rparr>"
  have "lock_step st ?a" using st(2) by (auto intro: lock_step.Begin)
  moreover have "lock_step ?a ?b" by (rule lock_step.DialErr) (use st in simp_all)
  moreover have "lock_step ?b ?c" by (rule lock_step.RepairDialed) (use st in simp)
  ultimately have reach: "lock_steps initLocks ?c" using st(1) by (meson rtranclp.rtrancl_into_rtrancl)
  have "lock_inv (initLocks :: 'c CommLocks)" by (simp add: lock_inv_def initLocks_def)
  with reach have "lock_inv ?c" using lock_steps_inv by blast
  then have wedged: "wedged ?c" using st(4) by (simp add: wedged_def repairLinkChan_cap_def)
  have all: "links st' = links ?c \<and> loop_at st' = loop_at ?c \<and> tableMu st' = Some 0 \<and> pc st' 0 = SendsNew (host 21) \<and>
      (\<forall>t p. pc st' t = WaitsTable p \<longrightarrow> (\<forall>st''. lock_steps st' st'' \<longrightarrow> pc st'' t = WaitsTable p))"
    if "lock_steps ?c st'" for st'
  proof -
    note now = wedged_steps [OF that wedged]
    have "pc st'' t = WaitsTable p" if "pc st' t = WaitsTable p" "lock_steps st' st''" for t p st''
      using wedged_steps [OF that(2)] now that(1) by (simp add: blocked_def)
    moreover have "links st' = links ?c" "loop_at st' = loop_at ?c" "tableMu st' = Some 0"
      "pc st' 0 = SendsNew (host 21)"
      using now by (simp_all add: blocked_def)
    ultimately show ?thesis by blast
  qed
  show ?thesis by (rule exI [of _ ?c], rule conjI [OF reach], intro allI impI) (rule all)
qed

theorem link_table_deadlocks_witness:
  "\<exists>st :: nat CommLocks. lock_steps initLocks st \<and> pc st 0 = SendsNew (host 21) \<and> tableMu st = Some 0"
  using link_table_deadlocks [where 'c = nat] by blast

end
