(* ===== verification/Commands.thy ===== *)
theory Commands
  imports Client_Quorums Comm
begin

text \<open>
  The commands under \<^verbatim>\<open>cmd\<close>: how a server and the clients find their first view
  (\<^verbatim>\<open>getInitialView\<close>, \<^verbatim>\<open>getInitialViewFunc\<close>, \<^verbatim>\<open>getFurtherViews\<close>), the loops of the sample
  client and of the measuring client, and the request of the admin command.

  The host name, the RPC that asks a process for its current view, the random source, the
  clock and the polls of the stop channel are arguments. A command that ends with
  \<^verbatim>\<open>log.Fatal\<close> or \<^verbatim>\<open>log.Panicln\<close> is \<open>Fatal\<close>; one that waits for replies is
  \<open>Returns None\<close>. The results of the measuring client are in \<open>Measures\<close>.
\<close>

section \<open>Initial views\<close>

fun str_contains :: "string \<Rightarrow> string \<Rightarrow> bool" where
  "str_contains [] sub = (sub = [])"
| "str_contains (c # cs) sub = (take (length sub) (c # cs) = sub \<or> str_contains cs sub)"

definition hardCodedUpdates :: "string \<Rightarrow> Update list" where
  "hardCodedUpdates hostname =
     (if str_contains hostname ''node-'' then
        [Update Join (Process ''10.1.1.2:5000''), Update Join (Process ''10.1.1.3:5000''),
         Update Join (Process ''10.1.1.4:5000'')]
      else
        [Update Join (Process ''[::]:5000''), Update Join (Process ''[::]:5001''),
         Update Join (Process ''[::]:5002'')])"

fun ask_updates :: "(Process \<Rightarrow> go_error + View) \<Rightarrow> View \<Rightarrow> Update list \<Rightarrow> View outcome" where
  "ask_updates rpc hardCodedView [] =
     Fatal ''Fatal: None of the hard coded initial processes are responsive.''"
| "ask_updates rpc hardCodedView (u # us) =
     (case GetCurrentView rpc [UProcess u] of
        Inl err \<Rightarrow> ask_updates rpc hardCodedView us
      | Inr v \<Rightarrow> if View_Equal v hardCodedView then Returns hardCodedView else Returns v)"

text \<open>\<^verbatim>\<open>getInitialView\<close> of \<^verbatim>\<open>cmd/freestored\<close>.\<close>

definition server_getInitialView ::
    "string + string \<Rightarrow> (Process \<Rightarrow> go_error + View) \<Rightarrow> string \<Rightarrow> string \<Rightarrow> View outcome" where
  "server_getInitialView host rpc bindAddr initialProc =
     (case host of
        Inl err \<Rightarrow> Fatal err
      | Inr hostname \<Rightarrow>
          if initialProc = '''' then
            let updates = hardCodedUpdates hostname; hardCodedView = NewWithUpdates updates in
            if HasMember hardCodedView (Process bindAddr) then Returns hardCodedView
            else ask_updates rpc hardCodedView updates
          else
            (case GetCurrentView rpc [Process initialProc] of
               Inl err \<Rightarrow> Fatal ''Failed to get current view from process''
             | Inr initialView \<Rightarrow> Returns initialView))"

text \<open>\<^verbatim>\<open>main\<close> of \<^verbatim>\<open>cmd/freestored\<close>, for the address \<^verbatim>\<open>net.Listen\<close> will bind.\<close>

definition freestored_main :: "bool \<Rightarrow> string \<Rightarrow> string \<Rightarrow> string + string \<Rightarrow>
    (Process \<Rightarrow> go_error + View) \<Rightarrow> string option \<Rightarrow> ('a server_out list \<times> 'a Server) outcome" where
  "freestored_main useConsensusFlag bindAddr initialProc host rpc listenAddr =
     (case server_getInitialView host rpc bindAddr initialProc of
        Fatal err \<Rightarrow> Fatal err
      | Returns initialView \<Rightarrow>
          (case NewServer listenAddr False initialView useConsensusFlag of
             ListenError \<Rightarrow> Fatal ''listen''
           | NewPanics \<Rightarrow> Fatal ''Tried to create a second Server''
           | Created outs s \<Rightarrow> Returns (outs, s)))"

text \<open>The view functions of the two clients.\<close>

definition client_getInitialView ::
    "string + string \<Rightarrow> (Process \<Rightarrow> go_error + View) \<Rightarrow> string \<Rightarrow> View outcome" where
  "client_getInitialView host rpc initialProc =
     (case host of
        Inl err \<Rightarrow> Fatal err
      | Inr hostname \<Rightarrow>
          if initialProc = '''' then Returns (NewWithUpdates (hardCodedUpdates hostname))
          else
            (case GetCurrentView rpc [Process initialProc] of
               Inl err \<Rightarrow> Fatal ''Failed to get current view from process''
             | Inr initialView \<Rightarrow> Returns initialView))"

definition client_getFurtherViews ::
    "(Process \<Rightarrow> go_error + View) \<Rightarrow> string \<Rightarrow> (string \<times> Process list) + View" where
  "client_getFurtherViews rpc retryProc =
     (case GetCurrentView rpc [Process retryProc] of Inl err \<Rightarrow> Inl err | Inr v \<Rightarrow> Inr v)"

text \<open>The measuring client has its own copies, which read the flags.\<close>

record measure_flags =
  isWrite :: bool
  dataSize :: int
  numberOfOperations :: int
  measureLatency :: bool
  measureThroughput :: bool
  initialProcess :: string
  retryProcess :: string

definition measures_getInitialView ::
    "measure_flags \<Rightarrow> string + string \<Rightarrow> (Process \<Rightarrow> go_error + View) \<Rightarrow> View outcome" where
  "measures_getInitialView fl host rpc =
     (case host of
        Inl err \<Rightarrow> Fatal err
      | Inr hostname \<Rightarrow>
          if initialProcess fl = '''' then Returns (NewWithUpdates (hardCodedUpdates hostname))
          else
            (case GetCurrentView rpc [Process (initialProcess fl)] of
               Inl err \<Rightarrow> Fatal ''Failed to get current view from process''
             | Inr initialView \<Rightarrow> Returns initialView))"

definition getFurtherViews ::
    "measure_flags \<Rightarrow> (Process \<Rightarrow> go_error + View) \<Rightarrow> (string \<times> Process list) + View" where
  "getFurtherViews fl rpc =
     (case GetCurrentView rpc [Process (retryProcess fl)] of Inl err \<Rightarrow> Inl err | Inr v \<Rightarrow> Inr v)"

section \<open>The sample client\<close>

text \<open>The loop of \<^verbatim>\<open>cmd/freestore_client\<close>: what was read is written back.\<close>

fun client_main_loop :: "nat \<Rightarrow> Client \<Rightarrow> 'a env \<Rightarrow> (Client \<times> 'a env) option outcome" where
  "client_main_loop 0 cl e = Returns (Some (cl, e))"
| "client_main_loop (Suc n) cl e =
     (case Client_Read cl e of
        None \<Rightarrow> Returns None
      | Some (Some err, _, _, _) \<Rightarrow> Fatal ''Read''
      | Some (None, readMsg, cl1, e1) \<Rightarrow>
          (case Client_Write (msg_Value readMsg) cl1 e1 of
             None \<Rightarrow> Returns None
           | Some (Some err, _, _, _) \<Rightarrow> Fatal ''Write''
           | Some (None, _, cl2, e2) \<Rightarrow> client_main_loop n cl2 e2))"

definition client_main :: "64 word \<Rightarrow> string \<Rightarrow> string + string \<Rightarrow> (Process \<Rightarrow> go_error + View) \<Rightarrow>
    'a env \<Rightarrow> (Client \<times> 'a env) option outcome" where
  "client_main nTotal initialProc host rpc e =
     (case client_getInitialView host rpc initialProc of
        Fatal err \<Rightarrow> Fatal err
      | Returns v \<Rightarrow>
          (case NewClient (Inr v) of
             Inl err \<Rightarrow> Fatal ''FATAL:''
           | Inr cl \<Rightarrow> client_main_loop (unat nTotal) cl e))"

section \<open>The measuring client\<close>

type_synonym ('a, 'r) operation = "Client \<Rightarrow> 'a env \<Rightarrow> (client_error option \<times> 'r \<times> Client \<times> 'a env) option"

text \<open>
  A fixed number of operations with the clock before and after each (\<^verbatim>\<open>latencies\<close>), and
  operations until the stop channel is ready after one (\<^verbatim>\<open>throughput\<close>).
\<close>

fun measured_ops :: "('a, 'r) operation \<Rightarrow> (int \<times> int) list \<Rightarrow> Client \<Rightarrow> 'a env \<Rightarrow>
    (int list \<times> Client \<times> 'a env) option outcome" where
  "measured_ops op [] cl e = Returns (Some ([], cl, e))"
| "measured_ops op ((timeBefore, timeAfter) # clock) cl e =
     (case op cl e of
        None \<Rightarrow> Returns None
      | Some (Some err, _, _, _) \<Rightarrow> Fatal ''operation''
      | Some (None, _, cl1, e1) \<Rightarrow>
          (case measured_ops op clock cl1 e1 of
             Returns (Some (latencies, cl2, e2)) \<Rightarrow>
               Returns (Some ((timeAfter - timeBefore) # latencies, cl2, e2))
           | other \<Rightarrow> other))"

fun ops_until_stop :: "('a, 'r) operation \<Rightarrow> bool list \<Rightarrow> nat \<Rightarrow> Client \<Rightarrow> 'a env \<Rightarrow>
    (nat \<times> Client \<times> 'a env) option outcome" where
  "ops_until_stop op [] ops cl e = Returns None"
| "ops_until_stop op (stop # stops) ops cl e =
     (case op cl e of
        None \<Rightarrow> Returns None
      | Some (Some err, _, _, _) \<Rightarrow> Fatal ''operation''
      | Some (None, _, cl1, e1) \<Rightarrow>
          if stop then Returns (Some (ops, cl1, e1)) else ops_until_stop op stops (ops + 1) cl1 e1)"

text \<open>What the random source filled the data with; a negative size panics.\<close>

definition createFakeData :: "int \<Rightarrow> byte list \<times> string option \<Rightarrow> byte list outcome" where
  "createFakeData n rand =
     (if n < 0 then Fatal ''makeslice: len out of range''
      else if int (length (fst rand)) \<noteq> n \<or> snd rand \<noteq> None then Fatal ''error to generate data:''
      else Returns (fst rand))"

text \<open>The clock readings of the operations; a negative number of operations is none.\<close>

definition readings :: "(nat \<Rightarrow> int \<times> int) \<Rightarrow> measure_flags \<Rightarrow> (int \<times> int) list" where
  "readings clock fl = map clock [0..<nat (numberOfOperations fl)]"

text \<open>A read measurement starts with one write.\<close>

definition initial_write :: "'a \<Rightarrow> (Client \<Rightarrow> 'a env \<Rightarrow> 'r option outcome) \<Rightarrow> Client \<Rightarrow> 'a env \<Rightarrow> 'r option outcome" where
  "initial_write data cont cl e =
     (case Client_Write (Some data) cl e of
        None \<Rightarrow> Returns None
      | Some (Some err, _, _, _) \<Rightarrow> Fatal ''Initial write:''
      | Some (None, _, cl1, e1) \<Rightarrow> cont cl1 e1)"

definition latencyAndThroughput :: "measure_flags \<Rightarrow> 'a \<Rightarrow> (nat \<Rightarrow> int \<times> int) \<Rightarrow> Client \<Rightarrow> 'a env \<Rightarrow>
    (int list \<times> Client \<times> 'a env) option outcome" where
  "latencyAndThroughput fl data clock cl e =
     (if isWrite fl then measured_ops (Client_Write (Some data)) (readings clock fl) cl e
      else initial_write data (measured_ops Client_Read (readings clock fl)) cl e)"

definition latency :: "measure_flags \<Rightarrow> 'a \<Rightarrow> (nat \<Rightarrow> int \<times> int) \<Rightarrow> Client \<Rightarrow> 'a env \<Rightarrow>
    (int list \<times> Client \<times> 'a env) option outcome" where
  "latency fl data clock cl e =
     (if isWrite fl then measured_ops (Client_Write (Some data)) (readings clock fl) cl e
      else initial_write data (measured_ops Client_Read (readings clock fl)) cl e)"

definition throughput :: "measure_flags \<Rightarrow> 'a \<Rightarrow> bool list \<Rightarrow> Client \<Rightarrow> 'a env \<Rightarrow>
    (nat \<times> Client \<times> 'a env) option outcome" where
  "throughput fl data stops cl e =
     (if isWrite fl then ops_until_stop (Client_Write (Some data)) stops 0 cl e
      else initial_write data (ops_until_stop Client_Read stops 0) cl e)"

text \<open>\<^verbatim>\<open>main\<close> up to the results: the latencies and the number of operations that are reported.\<close>

definition measures_main :: "measure_flags \<Rightarrow> string + string \<Rightarrow> (Process \<Rightarrow> go_error + View) \<Rightarrow>
    byte list \<times> string option \<Rightarrow> (nat \<Rightarrow> int \<times> int) \<Rightarrow> bool list \<Rightarrow> byte list env \<Rightarrow>
    (int list \<times> nat) option outcome" where
  "measures_main fl host rpc rand clock stops e =
     (case measures_getInitialView fl host rpc of
        Fatal err \<Rightarrow> Fatal err
      | Returns v \<Rightarrow>
          (case NewClient (Inr v) of
             Inl err \<Rightarrow> Fatal ''FATAL:''
           | Inr cl \<Rightarrow>
               (case createFakeData (dataSize fl) rand of
                  Fatal err \<Rightarrow> Fatal err
                | Returns data \<Rightarrow>
                    if \<not> measureLatency fl \<and> measureThroughput fl then
                      (case throughput fl data stops cl e of
                         Fatal err \<Rightarrow> Fatal err
                       | Returns None \<Rightarrow> Returns None
                       | Returns (Some (ops, _, _)) \<Rightarrow> Returns (Some ([], ops)))
                    else
                      (case (if measureLatency fl then latency fl data clock cl e
                             else latencyAndThroughput fl data clock cl e) of
                         Fatal err \<Rightarrow> Fatal err
                       | Returns None \<Rightarrow> Returns None
                       | Returns (Some (latencies, _, _)) \<Rightarrow> Returns (Some (latencies, length latencies))))))"

section \<open>The admin command\<close>

definition admin_main :: "(Process \<Rightarrow> string + 'c) \<Rightarrow> ('c \<Rightarrow> string option) \<Rightarrow> string \<Rightarrow> 'c Comm \<Rightarrow>
    send_error option \<times> 'c Comm" where
  "admin_main dial call leaveFlag st =
     (if leaveFlag \<noteq> '''' then SendRPCRequest dial call ''AdminService.Leave'' (Process leaveFlag) st
      else (None, st))"

section \<open>Loops over operations\<close>

text \<open>
  The interface between the loops and the client: an operation on a healthy client moves its
  view only forward and reports in the client what it returns. \<^verbatim>\<open>Read\<close> and \<^verbatim>\<open>Write\<close> are such
  operations, and the loops keep the client healthy for any.
\<close>

definition healthy :: "Client \<Rightarrow> 'a env \<Rightarrow> bool" where
  "healthy cl e \<longleftrightarrow> client_wf cl \<and> wf_env e \<and> cl_err cl = None"

definition progressed :: "Client \<Rightarrow> Client \<Rightarrow> 'a env \<Rightarrow> bool" where
  "progressed cl cl1 e1 \<longleftrightarrow> grows cl cl1 \<and> healthy cl1 e1"

lemma progressed_refl: "healthy cl e \<Longrightarrow> progressed cl cl e"
  by (simp add: progressed_def healthy_def grows_def)

lemma progressed_trans: "progressed a b e \<Longrightarrow> progressed b c f \<Longrightarrow> progressed a c f"
  using grows_trans by (auto simp: progressed_def)

lemma progressed_healthy: "progressed cl cl1 e1 \<Longrightarrow> healthy cl1 e1"
  by (simp add: progressed_def)

locale client_operation =
  fixes op :: "('a, 'r) operation"
  assumes op_grows: "op cl e = Some (err, r, cl1, e1) \<Longrightarrow> client_wf cl \<Longrightarrow> wf_env e \<Longrightarrow> cl_err cl = None \<Longrightarrow>
    grows cl cl1 \<and> wf_env e1 \<and> cl_err cl1 = err"
begin

lemma op_progress: "op cl e = Some (None, r, cl1, e1) \<Longrightarrow> healthy cl e \<Longrightarrow> progressed cl cl1 e1"
  using op_grows [of cl e None r cl1 e1] by (auto simp: healthy_def progressed_def grows_def)

lemma measured_progress:
  assumes "measured_ops op clock cl e = Returns (Some (ls, cl1, e1))" "healthy cl e"
  shows "progressed cl cl1 e1 \<and> ls = map (\<lambda>(before, after). after - before) clock"
  using assms
proof (induction clock arbitrary: cl e ls)
  case (Cons t clock)
  obtain b a where t: "t = (b, a)" by force
  obtain r cl2 e2 where o: "op cl e = Some (None, r, cl2, e2)"
    using Cons.prems(1) t by (auto split: option.splits)
  obtain ls2 where m: "measured_ops op clock cl2 e2 = Returns (Some (ls2, cl1, e1))" "ls = (a - b) # ls2"
    using Cons.prems(1) o t by (auto split: outcome.splits option.splits)
  have p: "progressed cl cl2 e2" using op_progress [OF o Cons.prems(2)] .
  from Cons.IH [OF m(1) progressed_healthy [OF p]] m(2) t progressed_trans [OF p] show ?case by auto
qed (simp add: progressed_refl)

lemma until_stop_progress:
  assumes "ops_until_stop op stops ops cl e = Returns (Some (n, cl1, e1))" "healthy cl e"
  shows "progressed cl cl1 e1 \<and> ops \<le> n \<and> (\<exists>rest. stops = replicate (n - ops) False @ True # rest)"
  using assms
proof (induction stops arbitrary: ops cl e)
  case (Cons stop stops)
  obtain r cl2 e2 where o: "op cl e = Some (None, r, cl2, e2)"
    using Cons.prems(1) by (auto split: option.splits)
  have p: "progressed cl cl2 e2" using op_progress [OF o Cons.prems(2)] .
  show ?case
  proof (cases stop)
    case True
    then show ?thesis using Cons.prems(1) o p by simp
  next
    case False
    then have "ops_until_stop op stops (ops + 1) cl2 e2 = Returns (Some (n, cl1, e1))"
      using Cons.prems(1) o by simp
    from Cons.IH [OF this progressed_healthy [OF p]] obtain rest
      where IH: "progressed cl2 cl1 e1" "ops + 1 \<le> n" "stops = replicate (n - (ops + 1)) False @ True # rest"
      by blast
    have "n - ops = Suc (n - (ops + 1))" using IH(2) by simp
    then have "stop # stops = replicate (n - ops) False @ True # rest" using IH(3) False by simp
    with IH(1,2) progressed_trans [OF p] show ?thesis by auto
  qed
qed simp

end

interpretation rd: client_operation Client_Read
  by unfold_locales (rule Client_Read_grows)

interpretation wr: client_operation "Client_Write x" for x
  by unfold_locales (rule Client_Write_grows)

lemma client_main_progress:
  assumes "client_main_loop n cl e = Returns (Some (cl1, e1))" "healthy cl e"
  shows "progressed cl cl1 e1"
  using assms
proof (induction n arbitrary: cl e)
  case (Suc n)
  obtain m cl2 e2 where r: "Client_Read cl e = Some (None, m, cl2, e2)"
    using Suc.prems(1) by (auto split: option.splits)
  obtain w cl3 e3 where w: "Client_Write (msg_Value m) cl2 e2 = Some (None, w, cl3, e3)"
    using Suc.prems(1) r by (auto split: option.splits)
  have p: "progressed cl cl2 e2" using rd.op_progress [OF r Suc.prems(2)] .
  note q = wr.op_progress [OF w progressed_healthy [OF p]]
  have "client_main_loop n cl3 e3 = Returns (Some (cl1, e1))" using Suc.prems(1) r w by simp
  from Suc.IH [OF this progressed_healthy [OF q]] show ?case
    using progressed_trans [OF progressed_trans [OF p q]] by blast
qed (simp add: progressed_refl)

lemma initial_write_progress:
  assumes "initial_write data cont cl e = Returns (Some x)" "healthy cl e"
  obtains cl1 e1 where "progressed cl cl1 e1" "cont cl1 e1 = Returns (Some x)"
proof -
  obtain w cl1 e1 where w: "Client_Write (Some data) cl e = Some (None, w, cl1, e1)"
    using assms(1) by (auto simp: initial_write_def split: option.splits)
  with assms(1) have "cont cl1 e1 = Returns (Some x)" by (simp add: initial_write_def)
  with wr.op_progress [OF w assms(2)] show thesis by (rule that)
qed

lemma latency_progress:
  assumes "latency fl data clock cl e = Returns (Some (ls, cl1, e1))" "healthy cl e"
  shows "progressed cl cl1 e1 \<and> ls = map (\<lambda>(before, after). after - before) (readings clock fl)"
proof (cases "isWrite fl")
  case True
  then show ?thesis using wr.measured_progress assms by (simp add: latency_def)
next
  case False
  then have "initial_write data (measured_ops Client_Read (readings clock fl)) cl e = Returns (Some (ls, cl1, e1))"
    using assms(1) by (simp add: latency_def)
  from initial_write_progress [OF this assms(2)] obtain cl2 e2
    where "progressed cl cl2 e2" "measured_ops Client_Read (readings clock fl) cl2 e2 = Returns (Some (ls, cl1, e1))" .
  then show ?thesis using rd.measured_progress progressed_healthy progressed_trans by blast
qed

lemma throughput_progress:
  assumes "throughput fl data stops cl e = Returns (Some (n, cl1, e1))" "healthy cl e"
  shows "progressed cl cl1 e1 \<and> (\<exists>rest. stops = replicate n False @ True # rest)"
proof (cases "isWrite fl")
  case True
  then show ?thesis using wr.until_stop_progress [of "Some data" stops 0] assms by (auto simp: throughput_def)
next
  case False
  then have "initial_write data (ops_until_stop Client_Read stops 0) cl e = Returns (Some (n, cl1, e1))"
    using assms(1) by (simp add: throughput_def)
  from initial_write_progress [OF this assms(2)] obtain cl2 e2
    where "progressed cl cl2 e2" "ops_until_stop Client_Read stops 0 cl2 e2 = Returns (Some (n, cl1, e1))" .
  then show ?thesis using rd.until_stop_progress [of stops 0 cl2 e2 n] progressed_healthy progressed_trans
    by (metis diff_zero)
qed

section \<open>Properties\<close>

lemma GetCurrentView_wf:
  "GetCurrentView rpc ps = Inr v \<Longrightarrow> (\<And>p w. rpc p = Inr w \<Longrightarrow> wf_view w) \<Longrightarrow> wf_view v"
proof -
  assume v: "GetCurrentView rpc ps = Inr v" and rpc: "\<And>p w. rpc p = Inr w \<Longrightarrow> wf_view w"
  have "GetCurrentView_loop rpc ps = Some v \<Longrightarrow> wf_view v"
    by (induction ps) (auto split: sum.splits intro: rpc)
  with v show ?thesis by (simp add: GetCurrentView_def split: option.splits)
qed

lemma ask_updates_wf:
  assumes "\<And>p w. rpc p = Inr w \<Longrightarrow> wf_view w" "wf_view hv" "ask_updates rpc hv us = Returns v"
  shows "wf_view v"
  using assms(2,3) by (induction us) (auto split: sum.splits if_splits intro: GetCurrentView_wf [OF _ assms(1)])

lemma server_view_wf:
  assumes "\<And>p w. rpc p = Inr w \<Longrightarrow> wf_view w" "server_getInitialView host rpc bindAddr initialProc = Returns v"
  shows "wf_view v"
  using assms(2)
  by (auto simp: server_getInitialView_def Let_def split: sum.splits if_splits
      intro: ask_updates_wf [OF assms(1)] GetCurrentView_wf [OF _ assms(1)])



text \<open>The loops of the clients end with a client that is still healthy and whose view has only
  moved forward. A latency measurement reports one time per operation, the difference of
  the clock readings around it. A throughput measurement reports the number of polls of the
  stop channel that were not ready, one less than the operations it performed, since the
  operation after which the channel is ready is not counted.\<close>

theorem client_commands_report:
  assumes "client_wf cl" "wf_env e" "cl_err cl = None"
  shows "(client_main_loop n cl e = Returns (Some (cl1, e1)) \<longrightarrow>
      client_wf cl1 \<and> cl_err cl1 = None \<and> Entries (cl_view cl) \<subseteq> Entries (cl_view cl1)) \<and>
    (latency fl data clock cl e = Returns (Some (ls, cl1, e1)) \<longrightarrow>
      client_wf cl1 \<and> cl_err cl1 = None \<and> Entries (cl_view cl) \<subseteq> Entries (cl_view cl1) \<and>
      length ls = nat (numberOfOperations fl) \<and> (\<forall>i < length ls. ls ! i = snd (clock i) - fst (clock i))) \<and>
    (throughput fl data stops cl e = Returns (Some (ops, cl1, e1)) \<longrightarrow>
      client_wf cl1 \<and> cl_err cl1 = None \<and> Entries (cl_view cl) \<subseteq> Entries (cl_view cl1) \<and>
      (\<exists>rest. stops = replicate ops False @ True # rest))"
proof -
  have h: "healthy cl e" using assms by (simp add: healthy_def)
  have p: "client_wf cl1 \<and> cl_err cl1 = None \<and> Entries (cl_view cl) \<subseteq> Entries (cl_view cl1)"
    if "progressed cl cl1 e1" using that by (simp add: progressed_def healthy_def grows_def)
  have ls: "length ls = nat (numberOfOperations fl) \<and> (\<forall>i < length ls. ls ! i = snd (clock i) - fst (clock i))"
    if "ls = map (\<lambda>(before, after). after - before) (readings clock fl)"
    using that by (simp add: readings_def case_prod_beta)
  show ?thesis
    using p ls client_main_progress [OF _ h, of n cl1 e1] latency_progress [OF _ h, of fl data clock ls cl1 e1]
      throughput_progress [OF _ h, of fl data stops ops cl1 e1] by blast
qed

theorem client_commands_report_witness:
  "let v = NewWithProcesses [Process ''a'']; cl = \<lparr>cl_view = v, num2ndPhaseReads = 0, cl_err = None\<rparr>;
       m = zero_RegisterMsg\<lparr>msg_process := Process ''a''\<rparr>;
       e = \<lparr>attempts = [[m], [m]], furtherViews = []\<rparr> :: nat env;
       fl = \<lparr>isWrite = True, dataSize = 1, numberOfOperations = 1, measureLatency = False,
             measureThroughput = True, initialProcess = [], retryProcess = []\<rparr>
   in throughput fl 5 [True] cl e = Returns (Some (0, cl, \<lparr>attempts = [], furtherViews = []\<rparr>)) \<and> client_wf cl"
proof -
  let ?v = "NewWithProcesses [Process ''a'']"
  let ?cl = "\<lparr>cl_view = ?v, num2ndPhaseReads = 0, cl_err = None\<rparr>"
  let ?m = "zero_RegisterMsg\<lparr>msg_process := Process ''a''\<rparr> :: nat RegisterMsg"
  let ?fl = "\<lparr>isWrite = True, dataSize = 1, numberOfOperations = 1, measureLatency = False,
      measureThroughput = True, initialProcess = [], retryProcess = []\<rparr>"
  let ?e = "\<lparr>attempts = [[?m], [?m]], furtherViews = []\<rparr> :: nat env"
  have v: "QuorumSize ?v = 1" "NumberOfMembers ?v = 1" "NumberOfToleratedFaults ?v = 0"
    by (simp_all add: QuorumSize_eq NumberOfMembers_def ToleratedFaults_eq)
  have err: "msg_Err ?m = None" "msg_Timestamp ?m = 0" "msg_Timestamp zero_RegisterMsg = 0"
    by (simp_all add: zero_RegisterMsg_def)
  have r: "read_loop ?v 0 [] zero_RegisterMsg [?m] = ReadDone zero_RegisterMsg True"
    by (simp add: err read_check_def v Let_def)
  have w: "write_loop ?v 0 0 [?m] = WriteDone" by (simp add: err write_check_def v Let_def)
  have t: "throughput ?fl 5 [True] ?cl ?e = Returns (Some (0, ?cl, \<lparr>attempts = [], furtherViews = []\<rparr>))"
    by (simp add: throughput_def Client_Write_def readQuorum_def writeQuorum_def r w Let_def
        del: read_loop.simps write_loop.simps)
  have "client_wf ?cl" "wf_env ?e" by (simp_all add: client_wf_def wf_env_def wf_replies_def err)
  from client_commands_report [OF this] t have "client_wf ?cl" by simp
  with t show ?thesis by (simp only: Let_def)
qed

text \<open>The README starts the servers with \<^verbatim>\<open>-bind :5000\<close>, which is none of the hard-coded addresses:
  such a server asks the hard-coded processes for their view, and while none of them
  answers it ends.\<close>

theorem readme_start_fails:
  "freestored_main uc '':5000'' '''' (Inr ''host'') (\<lambda>p. Inl (ErrorString e)) (Some a) =
     Fatal ''Fatal: None of the hard coded initial processes are responsive.''"
  by (simp add: freestored_main_def server_getInitialView_def hardCodedUpdates_def GetCurrentView_def
      HasMember_def members_of_def Let_def)

end
