(* ===== verification/Measures.thy ===== *)
theory Measures
  imports Commands Consensus_Storage "HOL-Library.Log_Nat"
begin

text \<open>
  What the measuring client computes from its loops and appends to its result file:
  \<^verbatim>\<open>saveResults\<close> and the last lines of \<^verbatim>\<open>latency\<close>, \<^verbatim>\<open>throughput\<close> and \<^verbatim>\<open>latencyAndThroughput\<close> in
  \<^verbatim>\<open>cmd/freestore_measures\<close>. An operation on \<^verbatim>\<open>float64\<close> is the exact one on rational numbers
  followed by \<open>float64\<close>, which rounds to 53 bits and ties to even; durations and numbers of
  operations are far from the least and greatest exponents. The statistics
  (\<^verbatim>\<open>github.com/mateusbraga/gostat\<close>), the text of the current time and the file are arguments.
  The result is saved and printed from the same numbers; the printed line is left out.
\<close>

section \<open>Floating-point numbers\<close>

definition round_even :: "rat \<Rightarrow> int" where
  "round_even q =
     (let f = \<lfloor>q\<rfloor>; r = q - of_int f in if r < 1 / 2 \<or> (r = 1 / 2 \<and> even f) then f else f + 1)"

text \<open>The binary exponent of a positive number, and the unit of its last place.\<close>

definition exponent :: "rat \<Rightarrow> int" where
  "exponent q =
     (case quotient_of q of (n, d) \<Rightarrow>
      let e = int (floorlog 2 (nat n)) - int (floorlog 2 (nat d)) in if q < 2 powi e then e - 1 else e)"

definition ulp :: "rat \<Rightarrow> rat" where
  "ulp q = 2 powi (exponent q - 52)"

definition float64_pos :: "rat \<Rightarrow> rat" where
  "float64_pos q = of_int (round_even (q / ulp q)) * ulp q"

definition float64 :: "rat \<Rightarrow> rat" where
  "float64 q = (if q = 0 then 0 else if q < 0 then - float64_pos (- q) else float64_pos q)"

text \<open>\<^verbatim>\<open>Duration.Seconds\<close>, on nanoseconds; Go's quotient and remainder truncate.\<close>

definition Seconds :: "int \<Rightarrow> rat" where
  "Seconds d =
     (let sec = sgn d * (\<bar>d\<bar> div 1000000000); nsec = sgn d * (\<bar>d\<bar> mod 1000000000)
      in float64 (float64 (of_int sec) + float64 (float64 (of_int nsec) / 1000000000)))"

text \<open>
  \<^verbatim>\<open>int64(opsPerSecond)\<close>: the fraction is discarded. Go leaves open what the conversion of a
  value outside the range is, such as the infinity for a duration of zero.
\<close>

definition opsPerSecond :: "int \<Rightarrow> nat \<Rightarrow> int \<Rightarrow> int" where
  "opsPerSecond unspecified ops duration =
     (if Seconds duration = 0 then unspecified
      else let x = float64 (float64 (of_nat ops) / Seconds duration);
               i = (if 0 \<le> x then \<lfloor>x\<rfloor> else \<lceil>x\<rceil>)
           in if - (2 ^ 63) \<le> i \<and> i < 2 ^ 63 then i else unspecified)"

section \<open>The result file\<close>

definition fmt_int :: "int \<Rightarrow> string" where
  "fmt_int i = (if i < 0 then CHR ''-'' # fmt_nat (nat (- i)) else fmt_nat (nat i))"

definition result_line :: "measure_flags \<Rightarrow> string \<Rightarrow> int \<Rightarrow> int \<Rightarrow> int \<Rightarrow> int \<Rightarrow> string" where
  "result_line fl now latenciesMean latenciesStandardDeviation ops_s opsTotal =
     (let operation = (if isWrite fl then ''write'' else ''read'') in
      fmt_int latenciesMean @ '' '' @ fmt_int latenciesStandardDeviation @ '' '' @ fmt_int ops_s @ '' '' @
      fmt_int opsTotal @ '' '' @ operation @ '' '' @ fmt_int (dataSize fl) @ '' '' @ now @ [CHR 0x0A])"

text \<open>
  What happens to the file: opening it can fail, which is only logged, and so can the write to
  the buffer, which ends the process before the buffer is flushed. The deferred flush can
  fail after some number of bytes; its error is ignored.
\<close>

record file_io =
  open_err :: "string option"
  write_err :: "string option"
  flush_err :: "nat option"

definition saveResults :: "measure_flags \<Rightarrow> file_io \<Rightarrow> string \<Rightarrow> int \<Rightarrow> int \<Rightarrow> int \<Rightarrow> int \<Rightarrow>
    string \<Rightarrow> string outcome" where
  "saveResults fl io now latenciesMean latenciesStandardDeviation ops_s opsTotal file =
     (case open_err io of
        Some err \<Rightarrow> Returns file
      | None \<Rightarrow>
          (case write_err io of
             Some err \<Rightarrow> Fatal err
           | None \<Rightarrow>
               let line = result_line fl now latenciesMean latenciesStandardDeviation ops_s opsTotal
               in Returns (file @ (case flush_err io of None \<Rightarrow> line | Some n \<Rightarrow> take n line))))"

text \<open>The statistics, already converted to \<^verbatim>\<open>int64\<close>; \<^verbatim>\<open>TakeExtremes\<close> works on the slice in place.\<close>

record gostat =
  TakeExtremes :: "int list \<Rightarrow> int list"
  Mean :: "int list \<Rightarrow> int"
  StandardDeviation :: "int list \<Rightarrow> int"

definition latency_results :: "measure_flags \<Rightarrow> gostat \<Rightarrow> file_io \<Rightarrow> string \<Rightarrow> int list \<Rightarrow> nat \<Rightarrow>
    string \<Rightarrow> string outcome" where
  "latency_results fl gs io now latencies ops file =
     (let ls = TakeExtremes gs latencies
      in saveResults fl io now (Mean gs ls) (StandardDeviation gs ls) 0 (int ops) file)"

definition throughput_results :: "measure_flags \<Rightarrow> int \<Rightarrow> int \<Rightarrow> file_io \<Rightarrow> string \<Rightarrow> nat \<Rightarrow>
    string \<Rightarrow> string outcome" where
  "throughput_results fl totalDuration unspecified io now ops file =
     saveResults fl io now 0 0 (opsPerSecond unspecified ops totalDuration) (int ops) file"

definition latencyAndThroughput_results :: "measure_flags \<Rightarrow> gostat \<Rightarrow> int \<Rightarrow> int \<Rightarrow> file_io \<Rightarrow> string \<Rightarrow>
    int list \<Rightarrow> nat \<Rightarrow> string \<Rightarrow> string outcome" where
  "latencyAndThroughput_results fl gs duration unspecified io now latencies ops file =
     (let ls = TakeExtremes gs latencies
      in saveResults fl io now (Mean gs ls) (StandardDeviation gs ls)
           (opsPerSecond unspecified ops duration) (int ops) file)"

text \<open>The whole command on the result file; \<open>None\<close> is a client that waits for replies.\<close>

definition measures_command :: "measure_flags \<Rightarrow> gostat \<Rightarrow> int \<Rightarrow> int \<Rightarrow> int \<Rightarrow> file_io \<Rightarrow> string \<Rightarrow>
    (int list \<times> nat) option outcome \<Rightarrow> string \<Rightarrow> string option outcome" where
  "measures_command fl gs totalDuration duration unspecified io now measured file =
     (case measured of
        Fatal err \<Rightarrow> Fatal err
      | Returns None \<Rightarrow> Returns None
      | Returns (Some (latencies, ops)) \<Rightarrow>
          (case (if measureLatency fl then latency_results fl gs io now latencies ops file
                 else if measureThroughput fl then throughput_results fl totalDuration unspecified io now ops file
                 else latencyAndThroughput_results fl gs duration unspecified io now latencies ops file) of
             Fatal err \<Rightarrow> Fatal err
           | Returns f \<Rightarrow> Returns (Some f)))"

section \<open>Rounding\<close>

lemma round_even_error: "\<bar>of_int (round_even q) - q\<bar> \<le> 1 / 2"
proof -
  have "of_int \<lfloor>q\<rfloor> \<le> q" "q < of_int \<lfloor>q\<rfloor> + 1" by linarith+
  moreover have "round_even q = \<lfloor>q\<rfloor> \<and> q - of_int \<lfloor>q\<rfloor> \<le> 1 / 2 \<or>
      round_even q = \<lfloor>q\<rfloor> + 1 \<and> 1 / 2 \<le> q - of_int \<lfloor>q\<rfloor>"
    by (auto simp: round_even_def Let_def)
  ultimately show ?thesis by auto
qed

lemma round_even_int [simp]: "round_even (of_int k) = k"
  by (simp add: round_even_def)

lemma exponent_bounds:
  assumes "0 < q"
  shows "2 powi exponent q \<le> q \<and> q < 2 powi (exponent q + 1)"
proof -
  obtain n d where nd: "quotient_of q = (n, d)" by force
  have d: "0 < d" using nd by (rule quotient_of_denom_pos)
  have q: "q = of_int n / of_int d" using nd by (rule quotient_of_div)
  with assms d have n: "0 < n" by (simp add: zero_less_divide_iff)
  define a b where "a = floorlog 2 (nat n) - 1" and "b = floorlog 2 (nat d) - 1"
  have pos: "floorlog 2 (nat n) = Suc a" "floorlog 2 (nat d) = Suc b"
    using n d by (simp_all add: a_def b_def floorlog_def)
  have fn: "2 ^ a \<le> nat n" "nat n < 2 ^ Suc a" using floorlog_bounds [of "nat n" 2] n pos by simp_all
  have fd: "2 ^ b \<le> nat d" "nat d < 2 ^ Suc b" using floorlog_bounds [of "nat d" 2] d pos by simp_all
  have N: "(2::rat) ^ a \<le> of_int n" "(of_int n :: rat) < 2 ^ Suc a"
    using fn n by (metis of_nat_le_iff of_nat_power of_nat_numeral of_int_of_nat_eq nat_0_le less_imp_le,
      metis of_nat_less_iff of_nat_power of_nat_numeral of_int_of_nat_eq nat_0_le less_imp_le)
  have D: "(2::rat) ^ b \<le> of_int d" "(of_int d :: rat) < 2 ^ Suc b"
    using fd d by (metis of_nat_le_iff of_nat_power of_nat_numeral of_int_of_nat_eq nat_0_le less_imp_le,
      metis of_nat_less_iff of_nat_power of_nat_numeral of_int_of_nat_eq nat_0_le less_imp_le)
  have "(2::rat) ^ a / 2 ^ Suc b < q"
    unfolding q using N(1) D(2) d by (intro frac_less2) simp_all
  moreover have "q < (2::rat) ^ Suc a / 2 ^ b"
    unfolding q using N(2) D(1) n by (intro frac_less) simp_all
  moreover have "(2::rat) powi (int a - int b - 1) = 2 ^ a / 2 ^ Suc b" "(2::rat) powi (int a - int b + 1) = 2 ^ Suc a / 2 ^ b"
    by (simp_all add: power_int_diff power_int_add)
  ultimately show ?thesis
    using nd pos by (auto simp: exponent_def Let_def)
qed

lemma ulp_eq: "ulp q = 2 powi exponent q / 2 ^ 52"
  by (simp add: ulp_def power_int_diff)

lemma ulp_pos [simp]: "0 < ulp q"
  by (simp add: ulp_def)

lemma ulp_nonzero [simp]: "ulp q \<noteq> 0"
  by (simp add: ulp_def)

lemma float64_error:
  assumes "0 < q"
  shows "\<bar>float64 q - q\<bar> \<le> q / 2 ^ 53"
proof -
  have "float64 q - q = (of_int (round_even (q / ulp q)) - q / ulp q) * ulp q"
    using assms by (simp add: float64_def float64_pos_def left_diff_distrib)
  then have "\<bar>float64 q - q\<bar> = \<bar>of_int (round_even (q / ulp q)) - q / ulp q\<bar> * ulp q"
    by (simp add: abs_mult abs_of_pos [OF ulp_pos])
  also have "\<dots> \<le> 1 / 2 * ulp q"
    using round_even_error less_imp_le [OF ulp_pos] by (rule mult_right_mono)
  also have "\<dots> \<le> q / 2 ^ 53"
    using exponent_bounds [OF assms] by (simp add: ulp_eq)
  finally show ?thesis .
qed

lemma float64_int [simp]:
  assumes "0 \<le> m" "m < 2 ^ 53"
  shows "float64 (of_int m) = of_int m"
proof (cases "m = 0")
  case False
  let ?q = "of_int m :: rat"
  have pos: "0 < ?q" using assms False by simp
  have "?q < of_int (2 ^ 53)" using assms(2) by (simp only: of_int_less_iff)
  then have "(2::rat) powi exponent ?q < 2 powi 53" using exponent_bounds [OF pos] by simp
  then have "exponent ?q < 53" by (metis linorder_not_less one_le_numeral power_int_increasing)
  then have "exponent ?q = 52 - int (nat (52 - exponent ?q))" by simp
  then obtain j where j: "exponent ?q = 52 - int j" by blast
  then have "?q / ulp ?q = of_int (m * 2 ^ j)" by (simp add: ulp_def power_int_minus divide_inverse)
  then have "round_even (?q / ulp ?q) = m * 2 ^ j" by (simp only: round_even_int)
  then show ?thesis using pos j by (simp add: float64_def float64_pos_def ulp_def power_int_minus)
qed (simp add: float64_def)

text \<open>For whole seconds the rate is exact: a fraction is never rounded up to the next integer.\<close>

lemma int_div_le: "0 \<le> n \<Longrightarrow> 0 < k \<Longrightarrow> n div k \<le> n" for n k :: int
  using zdiv_mono2 [of n 1 k] by simp

lemma rate_floor:
  assumes "0 < k" "0 \<le> n" "n < 2 ^ 52"
  shows "\<lfloor>float64 (of_int n / of_int k)\<rfloor> = n div k"
proof (cases "k dvd n")
  case True
  then have "of_int n / of_int k = (of_int (n div k) :: rat)" using assms(1) by (simp add: of_int_div)
  moreover have "0 \<le> n div k" "n div k < 2 ^ 53"
    using assms pos_imp_zdiv_nonneg_iff [of k n] int_div_le [of n k] by auto
  ultimately show ?thesis by simp
next
  case False
  let ?q = "of_int n / of_int k :: rat" and ?m = "of_int (n div k) :: rat" and ?k = "of_int k :: rat"
  have k: "0 < ?k" using assms(1) by simp
  have n: "0 < n" using assms(2) False by (cases "n = 0") auto
  then have q: "0 < ?q" using k by simp
  have "of_int n < (of_int (2 ^ 52) :: rat)" using assms(3) by (simp only: of_int_less_iff)
  then have "?q / 2 ^ 53 < 1 / (2 * ?k)" using k by (simp add: field_simps)
  with float64_error [OF q] have err: "\<bar>float64 ?q - ?q\<bar> < 1 / (2 * ?k)" by linarith
  have "0 < n mod k" "n mod k \<le> k - 1"
    using False assms(1) pos_mod_bound [of k n] pos_mod_sign [of k n] mod_0_imp_dvd [of n k] by linarith+
  then have r: "(1::rat) \<le> of_int (n mod k)" "of_int (n mod k) \<le> ?k - 1"
    by (metis of_int_1_le_iff int_one_le_iff_zero_less, metis of_int_1 of_int_diff of_int_le_iff)
  have "of_int n = ?m * ?k + of_int (n mod k)" by (metis of_int_add of_int_mult div_mult_mod_eq)
  then have eq: "?q = ?m + of_int (n mod k) / ?k" using k by (simp add: field_simps)
  have lower: "?m + 1 / ?k \<le> ?q" unfolding eq using r(1) k by (simp add: divide_right_mono)
  have "of_int (n mod k) / ?k \<le> (?k - 1) / ?k" using r(2) less_imp_le [OF k] by (rule divide_right_mono)
  then have upper: "?q \<le> ?m + 1 - 1 / ?k" unfolding eq using k by (simp add: diff_divide_distrib)
  have half: "1 / (2 * ?k) < 1 / ?k" using k by (simp add: field_simps)
  have "?m \<le> float64 ?q" "float64 ?q < ?m + 1" using err lower upper half by linarith+
  then show ?thesis by (simp add: floor_eq_iff)
qed

lemma Seconds_whole:
  assumes "0 < k" "k < 2 ^ 53"
  shows "Seconds (k * 1000000000) = of_int k"
proof -
  have "float64 (0::rat) = 0" by (simp add: float64_def)
  then show ?thesis using assms by (simp add: Seconds_def Let_def sgn_mult abs_mult)
qed

lemma opsPerSecond_exact:
  assumes "0 < k" "k < 2 ^ 53" "ops < 2 ^ 52"
  shows "opsPerSecond u ops (k * 1000000000) = int ops div k"
proof -
  have n: "int ops < 2 ^ 52" using assms(3) by (metis of_nat_less_iff of_nat_numeral of_nat_power)
  then have f: "float64 (of_nat ops) = (of_nat ops :: rat)"
    using float64_int [of "int ops"] by simp
  have fl: "\<lfloor>float64 (of_nat ops / of_int k)\<rfloor> = int ops div k"
    using rate_floor [OF assms(1) _ n] by simp
  have nonneg: "0 \<le> int ops div k" using assms(1) by (simp add: pos_imp_zdiv_nonneg_iff)
  with fl have "0 \<le> float64 (of_nat ops / of_int k :: rat)" by (metis zero_le_floor)
  moreover have "int ops div k < 2 ^ 63" using int_div_le [of "int ops" k] n assms(1) by simp
  ultimately show ?thesis
    using assms(1) f fl nonneg by (simp add: opsPerSecond_def Seconds_whole [OF assms(1,2)] Let_def)
qed

section \<open>Reading the file back\<close>

text \<open>The fields of a line, and the number a field stands for.\<close>

fun split_on :: "char \<Rightarrow> string \<Rightarrow> string list" where
  "split_on c [] = [[]]"
| "split_on c (x # xs) =
     (if x = c then [] # split_on c xs
      else case split_on c xs of [] \<Rightarrow> [[x]] | w # ws \<Rightarrow> (x # w) # ws)"

definition read_int :: "string \<Rightarrow> int" where
  "read_int cs = (case cs of CHR ''-'' # ds \<Rightarrow> - int (dec_value ds) | _ \<Rightarrow> int (dec_value cs))"

lemma split_on_field: "c \<notin> set w \<Longrightarrow> split_on c (w @ c # rest) = w # split_on c rest"
  by (induction w) auto

lemma split_on_last: "c \<notin> set w \<Longrightarrow> split_on c w = [w]"
  by (induction w) auto

lemma fmt_nat_digits: "c \<in> set (fmt_nat n) \<Longrightarrow> 48 \<le> (of_char c :: nat) \<and> (of_char c :: nat) < 58"
proof (induction n rule: fmt_nat.induct)
  case (1 n)
  then show ?case by (cases "n < 10") (auto simp: fmt_nat.simps [of n])
qed

lemma fmt_int_chars:
  "CHR '' '' \<notin> set (fmt_int i)" "CHR 0x0A \<notin> set (fmt_int i)"
  using fmt_nat_digits [of "CHR '' ''"] fmt_nat_digits [of "CHR 0x0A"] by (auto simp: fmt_int_def)

lemma read_fmt_int [simp]: "read_int (fmt_int i) = i"
proof (cases "i < 0")
  case False
  obtain c cs where c: "fmt_nat (nat i) = c # cs"
    by (cases "fmt_nat (nat i)") (auto simp: fmt_nat.simps [of "nat i"] split: if_splits)
  then have "c \<noteq> CHR ''-''" using fmt_nat_digits [of c "nat i"] by auto
  with c have "read_int (c # cs) = int (dec_value (c # cs))"
    by (auto simp: read_int_def split: char.split bool.split)
  then show ?thesis using False c dec_value_fmt [of "nat i"] by (simp add: fmt_int_def)
qed (simp add: fmt_int_def read_int_def dec_value_fmt)

lemma result_line_fields:
  assumes "CHR '' '' \<notin> set now" "result_line fl now mean deviation rate opsTotal = line @ [CHR 0x0A]"
  shows "split_on (CHR '' '') line = [fmt_int mean, fmt_int deviation, fmt_int rate, fmt_int opsTotal,
    if isWrite fl then ''write'' else ''read'', fmt_int (dataSize fl), now]"
proof -
  have "line = fmt_int mean @ CHR '' '' # fmt_int deviation @ CHR '' '' # fmt_int rate @ CHR '' '' #
      fmt_int opsTotal @ CHR '' '' # (if isWrite fl then ''write'' else ''read'') @ CHR '' '' #
      fmt_int (dataSize fl) @ CHR '' '' # now"
    using assms(2) by (simp add: result_line_def Let_def)
  moreover have "CHR '' '' \<notin> set (if isWrite fl then ''write'' else ''read'')" by simp
  ultimately show ?thesis using assms(1) by (simp add: split_on_field split_on_last fmt_int_chars)
qed

section \<open>Properties\<close>

lemma latencyAndThroughput_is_latency:
  "latencyAndThroughput fl data clock cl e = latency fl data clock cl e"
  by (simp add: latencyAndThroughput_def latency_def)

lemma measured_by_main:
  assumes "\<forall>p w. rpc p = Inr w \<longrightarrow> wf_view w" "wf_env e"
    and "measures_main fl host rpc rand clock stops e = Returns (Some (latencies, ops))"
  shows "if \<not> measureLatency fl \<and> measureThroughput fl
    then latencies = [] \<and> (\<exists>rest. stops = replicate ops False @ True # rest)
    else ops = nat (numberOfOperations fl) \<and> latencies = map (\<lambda>i. snd (clock i) - fst (clock i)) [0..<ops]"
proof -
  obtain v data where v: "measures_getInitialView fl host rpc = Returns v"
    and data: "createFakeData (dataSize fl) rand = Returns data"
    using assms(3) by (auto simp: measures_main_def NewClient_def split: outcome.splits)
  let ?cl = "\<lparr>cl_view = v, num2ndPhaseReads = 0, cl_err = None\<rparr>"
  have "wf_view v"
    using v assms(1) by (auto simp: measures_getInitialView_def split: sum.splits if_splits intro: GetCurrentView_wf)
  then have h: "healthy ?cl e" using assms(2) by (simp add: healthy_def client_wf_def)
  show ?thesis
  proof (cases "\<not> measureLatency fl \<and> measureThroughput fl")
    case True
    then obtain cl1 e1 where "throughput fl data stops ?cl e = Returns (Some (ops, cl1, e1))" "latencies = []"
      using assms(3) v data by (auto simp: measures_main_def NewClient_def split: outcome.splits option.splits)
    with throughput_progress [OF _ h] True show ?thesis by simp
  next
    case False
    then obtain cl1 e1 where l: "latency fl data clock ?cl e = Returns (Some (latencies, cl1, e1))" "ops = length latencies"
      using assms(3) v data
      by (auto simp: measures_main_def NewClient_def latencyAndThroughput_is_latency split: outcome.splits option.splits if_splits)
    then have "latencies = map (\<lambda>i. snd (clock i) - fst (clock i)) [0..<nat (numberOfOperations fl)]"
      using latency_progress [OF l(1) h] by (simp add: readings_def case_prod_beta comp_def)
    with l(2) False show ?thesis by auto
  qed
qed

text \<open>C29: A measurement adds exactly one line to the result file, from which its seven fields can be
  read back: the statistics of one latency per operation, each the difference of the clock
  readings around it; the number of operations, which in a throughput measurement is the
  number of polls that found the stop channel not ready, one less than the operations
  performed; and the operations per second, which for a duration of whole seconds are
  exactly the integer quotient, in spite of the rounding of floating-point numbers.\<close>

theorem measured_results_saved:
  assumes "\<forall>p w. rpc p = Inr w \<longrightarrow> wf_view w" "wf_env e"
    and "measures_main fl host rpc rand clock stops e = Returns (Some (latencies, ops))"
    and "open_err io = None" "write_err io = None" "flush_err io = None" "CHR '' '' \<notin> set now"
    and "0 < k" "k < 2 ^ 53" "ops < 2 ^ 52"
  shows "\<exists>line. measures_command fl gs (k * 1000000000) d u io now (measures_main fl host rpc rand clock stops e) file
        = Returns (Some (file @ line @ [CHR 0x0A])) \<and>
      map read_int (take 4 (split_on (CHR '' '') line)) =
        (if measureLatency fl
         then [Mean gs (TakeExtremes gs latencies), StandardDeviation gs (TakeExtremes gs latencies), 0, int ops]
         else if measureThroughput fl then [0, 0, int ops div k, int ops]
         else [Mean gs (TakeExtremes gs latencies), StandardDeviation gs (TakeExtremes gs latencies),
           opsPerSecond u ops d, int ops]) \<and>
      drop 4 (split_on (CHR '' '') line) = [if isWrite fl then ''write'' else ''read'', fmt_int (dataSize fl), now] \<and>
      (if \<not> measureLatency fl \<and> measureThroughput fl
       then latencies = [] \<and> (\<exists>rest. stops = replicate ops False @ True # rest)
       else ops = nat (numberOfOperations fl) \<and> latencies = map (\<lambda>i. snd (clock i) - fst (clock i)) [0..<ops])"
proof -
  let ?ls = "TakeExtremes gs latencies"
  obtain mean deviation rate where numbers: "(mean, deviation, rate) =
      (if measureLatency fl then (Mean gs ?ls, StandardDeviation gs ?ls, 0)
       else if measureThroughput fl then (0, 0, opsPerSecond u ops (k * 1000000000))
       else (Mean gs ?ls, StandardDeviation gs ?ls, opsPerSecond u ops d))" by (metis prod_cases3)
  obtain line where line: "result_line fl now mean deviation rate (int ops) = line @ [CHR 0x0A]"
    by (simp add: result_line_def Let_def)
  have saved: "measures_command fl gs (k * 1000000000) d u io now (measures_main fl host rpc rand clock stops e) file
      = Returns (Some (file @ line @ [CHR 0x0A]))"
    using assms(3-6) numbers line
    by (auto simp: measures_command_def latency_results_def throughput_results_def saveResults_def
        latencyAndThroughput_results_def Let_def split: if_splits)
  note fields = result_line_fields [OF assms(7) line]
  have "map read_int (take 4 (split_on (CHR '' '') line)) = [mean, deviation, rate, int ops]"
    by (simp add: fields)
  moreover have "drop 4 (split_on (CHR '' '') line) =
      [if isWrite fl then ''write'' else ''read'', fmt_int (dataSize fl), now]" by (simp add: fields)
  ultimately show ?thesis
    using saved numbers measured_by_main [OF assms(1-3)] opsPerSecond_exact [OF assms(8-10)]
    by (intro exI [of _ line]) (auto split: if_splits)
qed

theorem measured_results_saved_witness:
  "let v = NewWithProcesses [Process ''a'']; m = zero_RegisterMsg\<lparr>msg_process := Process ''a''\<rparr>;
       e = \<lparr>attempts = [[m], [m], [m], [m]], furtherViews = []\<rparr>;
       fl = \<lparr>isWrite = True, dataSize = 1, numberOfOperations = 1000, measureLatency = False,
             measureThroughput = True, initialProcess = ''a'', retryProcess = []\<rparr>;
       gs = \<lparr>TakeExtremes = (\<lambda>ls. ls), Mean = (\<lambda>ls. 0), StandardDeviation = (\<lambda>ls. 0)\<rparr>;
       io = \<lparr>open_err = None, write_err = None, flush_err = None\<rparr>
   in \<exists>line. measures_command fl gs 1000000000 0 0 io ''now''
        (measures_main fl (Inr ''host'') (\<lambda>p. Inr v) ([7], None) (\<lambda>i. (0, 0)) [False, True] e) [] =
          Returns (Some (line @ [CHR 0x0A])) \<and>
        map read_int (take 4 (split_on (CHR '' '') line)) = [0, 0, 1, 1]"
proof -
  let ?v = "NewWithProcesses [Process ''a'']"
  let ?cl = "\<lparr>cl_view = ?v, num2ndPhaseReads = 0, cl_err = None\<rparr>"
  let ?m = "zero_RegisterMsg\<lparr>msg_process := Process ''a''\<rparr> :: byte list RegisterMsg"
  let ?e = "\<lparr>attempts = [[?m], [?m], [?m], [?m]], furtherViews = []\<rparr> :: byte list env"
  let ?fl = "\<lparr>isWrite = True, dataSize = 1, numberOfOperations = 1000, measureLatency = False,
      measureThroughput = True, initialProcess = ''a'', retryProcess = []\<rparr>"
  let ?gs = "\<lparr>TakeExtremes = (\<lambda>ls. ls), Mean = (\<lambda>ls. 0), StandardDeviation = (\<lambda>ls. 0)\<rparr>"
  let ?io = "\<lparr>open_err = None, write_err = None, flush_err = None\<rparr>"
  have v: "QuorumSize ?v = 1" "NumberOfMembers ?v = 1" "NumberOfToleratedFaults ?v = 0"
    by (simp_all add: QuorumSize_eq NumberOfMembers_def ToleratedFaults_eq)
  have err: "msg_Err ?m = None" "msg_Timestamp ?m = 0" "msg_Timestamp (zero_RegisterMsg :: byte list RegisterMsg) = 0"
    by (simp_all add: zero_RegisterMsg_def)
  have r: "read_loop ?v 0 [] zero_RegisterMsg [?m] = ReadDone zero_RegisterMsg True"
    by (simp add: err read_check_def v Let_def)
  have w: "write_loop ?v 0 0 [?m] = WriteDone" by (simp add: err write_check_def v Let_def)
  have "throughput ?fl [7] [False, True] ?cl ?e = Returns (Some (1, ?cl, \<lparr>attempts = [], furtherViews = []\<rparr>))"
    by (simp add: throughput_def Client_Write_def readQuorum_def writeQuorum_def r w Let_def
        del: read_loop.simps write_loop.simps)
  then have main: "measures_main ?fl (Inr ''host'') (\<lambda>p. Inr ?v) ([7], None) (\<lambda>i. (0, 0)) [False, True] ?e =
      Returns (Some ([], 1))"
    by (simp add: measures_main_def measures_getInitialView_def GetCurrentView_def NewClient_def createFakeData_def)
  have "wf_env ?e" by (simp add: wf_env_def wf_replies_def err)
  then show ?thesis
    using measured_results_saved [OF _ _ main, of ?io "''now''" 1 ?gs 0 0 "[]"] by (auto simp: Let_def)
qed

end
