(* ===== verification/Spec2Isabelle.thy ===== *)
theory Spec2Isabelle
  imports Reconfig_Timer Register_Freeze View_Changes Lost_Write Paxos Comm_Locks Measures
begin

text \<open>
  \<^bold>\<open>Freestore: a reconfigurable replicated register.\<close>

  Freestore stores one value on the servers of a \<^emph>\<open>view\<close>. Clients read and write it with
  majorities of the view; servers join and leave by \<^emph>\<open>reconfigurations\<close>, which replace the view
  while the register is in use. The development models the Go packages under \<^verbatim>\<open>src/\<close> as
  executable HOL functions on explicit states and proves what makes each of them correct.

  \<^bold>\<open>The program and its parts.\<close>

  \<^item> \<^verbatim>\<open>pkg/view\<close>: a view is a set of join and leave updates with the members they determine, the
    order of views by inclusion, quorum sizes, positions, and a SHA-1 reference that stands for
    the view in messages.
  \<^item> \<^verbatim>\<open>pkg/server\<close>: a server keeps the register, its current view and pending updates. A timer
    starts view generators (\<^verbatim>\<open>viewgenerator.go\<close>), which agree by quorums on a sequence of views;
    install messages then make every server send its state to the new view, adopt a quorum's
    state and install it (\<^verbatim>\<open>reconfiguration.go\<close>). Register requests (\<^verbatim>\<open>register.go\<close>) are answered for
    the current view only and wait during an installation.
  \<^item> \<^verbatim>\<open>pkg/client\<close>: reads ask a quorum and write back when the answers differ; writes ask for the
    newest timestamp and store a newer one; a reply with a newer view makes the client go on
    in that view.
  \<^item> \<^verbatim>\<open>pkg/consensus\<close>: Paxos instances, one per view, as the alternative way to generate views.
  \<^item> \<^verbatim>\<open>pkg/comm\<close>: the table of connections, requests, broadcasts to a quorum, and the repair loop.
  \<^item> \<^verbatim>\<open>cmd\<close>: the server, a sample client, a measuring client and an admin command.

  \<^bold>\<open>Theories.\<close> Definitions carry the names of the Go functions, prefixed by their receiver where
  several have one (\<open>RegisterService_Read\<close>, \<open>Client_Write\<close>, \<open>ConsensusRequest_Accept\<close>).

  \<^item> \<open>Prelude\<close>: 64-bit integers with explicit wrap-around, iteration over maps, outcomes that may end
    the process, and the locale \<open>quorum_system\<close> (two quorums meet; survivors form a quorum).
  \<^item> \<open>Sha1\<close>, \<open>Views\<close>: the digest on 32-bit words; \<^verbatim>\<open>view.go\<close> and \<^verbatim>\<open>ref.go\<close>. The comparison loops
    compute the inclusion order for every iteration order, updates commute and converge, members
    are exactly the joined and not removed processes, \<open>QuorumSize\<close> interprets \<open>quorum_system\<close>, and
    a reference identifies its view up to collisions of SHA-1, however its updates are enumerated.
  \<^item> \<open>View_Seqs\<close>: \<^verbatim>\<open>viewseq.go\<close>; least and most updated views of chains, union, equality.
  \<^item> \<open>Quorum_Counters\<close>: the three message counters over one generic counter; the locales
    \<open>quorum_counter\<close> and \<open>counting\<close> prove once that a counter reports each quorum exactly once.
  \<^item> \<open>View_Generator\<close>, \<open>Generator_Network\<close>, \<open>Generator_Split\<close>: the worker of \<^verbatim>\<open>viewgenerator.go\<close> with
    all its branches; the workers of all members with a network that delivers in any order;
    generated sequences are chains of well-formed views, and an execution whose sequences start at incomparable views.
  \<^item> \<open>Server_State\<close>, \<open>Register\<close>, \<open>Reconfiguration\<close>: the record of a server, \<^verbatim>\<open>New\<close>, the register and
    its memory storage (locale \<open>timestamped_cell\<close>: the newest write wins, the first of equal ones),
    every loop and handler of a reconfiguration, and \<open>server_step\<close>, which composes them. A goroutine
    that waits for a lock, a state or messages is a phase of the server, a panic is one too.
  \<^item> \<open>Server_Invariants\<close>, \<open>Installation\<close>, \<open>State_Transfer\<close>, \<open>Install_Quorums\<close>, \<open>Install_Locks\<close>,
    \<open>Reconfig_Progress\<close>: the invariant of every run of a server and what it excludes, the effect of
    an installation, that a transferred state holds every write and update a quorum had, which
    messages start an installation, what the two mutexes do to it, and when requests to join
    or leave become proposals and when they are dropped, with executions that come to nothing.
  \<^item> \<open>Reconfig_Timer\<close>: the loop of the reconfiguration timer on a clock, with the goroutines it starts.
    While no reconfiguration is under way the timer is armed and its next round proposes what
    is pending; after a reconfiguration that installs nothing new the timer stays stopped until
    a newer view is installed.
  \<^item> \<open>Client\<close>, \<open>Client_Quorums\<close>, \<open>Atomic_Register\<close>: the client's loops and operations, that they return
    and what they leave in the client, and clients with servers: while the view does not change
    reads and writes never fall behind what a quorum stored when they started, and what they
    return is stored at a quorum when they end; two concurrent writers break this.
  \<^item> \<open>Server_System\<close>, \<open>View_Changes\<close>: servers that exchange states while views are installed, as a step
    relation with an invariant by induction on the views: a completed write is seen by every later
    read in its view and in the views that descend from it, when each server hands its state over
    in the view the state is for; views on another branch are not covered.
  \<^item> \<open>Register_Freeze\<close>: a server that sent its state to a newer view keeps exactly this state and
    answers no request for the old view until it has installed a newer one.
  \<^item> \<open>Deployment\<close>, \<open>Lost_Write\<close>: servers that receive exactly what servers sent, in any order and any number
    of times. Every server keeps its invariant and all messages are well formed; and a run of five
    servers in which two that lag behind hand over an old state, and a completed write is lost.
  \<^item> \<open>Quorum_Tally\<close>: the counting loop shared by broadcasts and proposers, as a reference
    definition with its lemmas.
  \<^item> \<open>Consensus_Storage\<close>, \<open>Consensus\<close>, \<open>Paxos\<close>: the storage with the wire format of integers and its
    round trip; workers, requests, proposers and the uniqueness of proposal numbers; the network
    of one instance, which refines a specification that decides once when every acceptor handles
    accept requests in the order of their numbers, with executions that show what happens else.
  \<^item> \<open>Comm\<close>, \<open>Comm_Locks\<close>: links, requests, broadcasts and repairs, each as one step; and the same
    goroutines at the grain of locks and full channels, which can deadlock.
  \<^item> \<open>Commands\<close>, \<open>Measures\<close>: initial views and the loops of the commands (locale \<open>client_operation\<close>); the
    results of the measuring client with \<^verbatim>\<open>float64\<close> rounding, and the line it saves, which reads back.

  \<^bold>\<open>How the code is translated.\<close> A struct is a record, a map that only holds \<^verbatim>\<open>true\<close> a set, a nil
  pointer or value \<open>None\<close>. Goroutines are turns of their loops on one state; a channel is a queue,
  and what exceeds its buffer are the senders that wait. The network, the clock, the host name and
  the results of \<^verbatim>\<open>net/rpc\<close> are arguments, in the order in which the code receives them, or steps
  of a transition system that may delay, reorder and repeat messages. Sums and options hold the
  errors of the code, \<open>Fatal\<close> and the phases \<open>Crashed\<close> and \<open>Exited\<close> its ends. Timestamps and proposal
  numbers are integers that wrap at 64 bits; counters of received messages are natural numbers.

  \<^bold>\<open>Loops and fuel.\<close> No definition has fuel. A loop over messages recurses on the list of messages
  that arrive, and one that has used them up is waiting, a value of its own (\<open>ReadWaiting\<close>,
  \<open>BroadcastWaiting\<close>, \<open>None\<close>); the theorems on termination say how many replies are enough.

  \<^bold>\<open>Parameters.\<close> The key-value store (\<^verbatim>\<open>github.com/cznic/kv\<close>) and the encoding of proposals are
  arguments of the consensus; \<open>kv_ok\<close> states that a key holds what was last set under it, and
  \<open>mem_kv\<close> is a store in memory that satisfies it. The statistics of the measuring client
  (\<^verbatim>\<open>github.com/mateusbraga/gostat\<close>) are arguments of its results.

  \<^bold>\<open>Not modelled.\<close> Logging and printed output, with the times that are only logged; profiling, seeds
  and gob and RPC registration, which no other code reads; data races on fields the code reads
  without its lock; the exponents of \<^verbatim>\<open>float64\<close> beyond its range, which no duration reaches; the
  pages of the admin command, which the program does not use.
\<close>

end
